(* ===== verification/Ipa_Prelude.thy ===== *)
theory Ipa_Prelude
  imports Main "HOL-Library.Word"
begin

text \<open>
  Shared vocabulary of the development: names for Rust's machine integers, the
  integer primitives of Rust's standard library that the sources call
  (\<open>leading_zeros\<close>, \<open>to_le_bytes\<close>, \<open>from_le_bytes\<close>), the three collections of
  facts the component theories feed to the simplifier, and generic lemmas on
  words and lists.
\<close>

unbundle bit_operations_syntax

named_theorems share_simps \<open>local operations on secret shares, unfolded\<close>
named_theorems val_simps \<open>what an operation on sharings does to the shared value\<close>
named_theorems wf_intros \<open>operations keep sharings well formed\<close>

type_synonym u8 = "8 word"
type_synonym u32 = "32 word"
type_synonym u64 = "64 word"
type_synonym u128 = "128 word"

subsection \<open>Widening casts\<close>

lemma unat_ucast_up:
  fixes w :: "'a::len word"
  assumes "LENGTH('a) \<le> LENGTH('b::len)"
  shows "unat (ucast w :: 'b word) = unat w"
proof -
  have "unat w < 2 ^ LENGTH('b)"
    using assms by (meson order_less_le_trans one_le_numeral power_increasing unsigned_less)
  then show ?thesis by (simp add: unsigned_ucast_eq take_bit_nat_eq_self)
qed

lemma unat_less_power_up:
  fixes w :: "'a::len word"
  assumes "LENGTH('a) \<le> n"
  shows "unat w < 2 ^ n"
  using assms by (meson order_less_le_trans one_le_numeral power_increasing unsigned_less)

subsection \<open>Bit length and \<open>leading_zeros\<close>\<close>

definition leading_zeros :: "'a::len word \<Rightarrow> nat" where
  "leading_zeros w = length (takeWhile Not (map (bit w) (rev [0..<LENGTH('a)])))"

text \<open>\<open>bit_length w\<close> is what the sources write \<open>BITS - w.leading_zeros()\<close>.\<close>

definition bit_length :: "'a::len word \<Rightarrow> nat" where
  "bit_length w = LENGTH('a) - leading_zeros w"

lemma leading_zeros_le: "leading_zeros (w :: 'a::len word) \<le> LENGTH('a)"
proof -
  have "leading_zeros w \<le> length (map (bit w) (rev [0..<LENGTH('a)]))"
    unfolding leading_zeros_def by (rule length_takeWhile_le)
  then show ?thesis by simp
qed

lemma takeWhile_Not_rev_upt:
  "n - length (takeWhile Not (map P (rev [0..<n]))) \<le> k \<longleftrightarrow> (\<forall>i<n. P i \<longrightarrow> i < k)"
proof (induction n)
  case 0
  then show ?case by simp
next
  case (Suc n)
  show ?case
  proof (cases "P n")
    case True
    then show ?thesis by auto
  next
    case False
    then have "Suc n - length (takeWhile Not (map P (rev [0..<Suc n])))
        = n - length (takeWhile Not (map P (rev [0..<n])))"
      by simp
    with Suc False show ?thesis by (auto simp: less_Suc_eq)
  qed
qed

lemma bit_length_le_iff:
  "bit_length (w :: 'a::len word) \<le> k \<longleftrightarrow> (\<forall>i<LENGTH('a). bit w i \<longrightarrow> i < k)"
  unfolding bit_length_def leading_zeros_def by (rule takeWhile_Not_rev_upt)

lemma bit_length_le_iff_less:
  fixes w :: "'a::len word"
  assumes "k < LENGTH('a)"
  shows "bit_length w \<le> k \<longleftrightarrow> unat w < 2 ^ k"
proof -
  have "bit_length w \<le> k \<longleftrightarrow> take_bit k w = w"
    unfolding bit_length_le_iff
    by (auto simp: bit_eq_iff bit_take_bit_iff dest: bit_imp_le_length)
  also have "\<dots> \<longleftrightarrow> unat w < 2 ^ k"
    by (metis take_bit_nat_eq_self_iff unsigned_take_bit_eq unsigned_word_eqI)
  finally show ?thesis .
qed

lemma bit_length_le_LENGTH [simp]: "bit_length (w :: 'a::len word) \<le> LENGTH('a)"
  by (simp add: bit_length_def)

subsection \<open>Little-endian bytes\<close>

definition to_le_bytes :: "'a::len word \<Rightarrow> u8 list" where
  "to_le_bytes w = map (\<lambda>i. ucast (drop_bit (8 * i) w)) [0..<LENGTH('a) div 8]"

definition from_le_bytes :: "u8 list \<Rightarrow> 'a::len word" where
  "from_le_bytes bs = foldr (\<lambda>b acc. ucast b OR push_bit 8 acc) bs 0"

lemma from_le_bytes_Nil [simp]: "from_le_bytes [] = 0"
  by (simp add: from_le_bytes_def)

lemma from_le_bytes_Cons:
  "from_le_bytes (b # bs) = ucast b OR push_bit 8 (from_le_bytes bs)"
  by (simp add: from_le_bytes_def)

lemma from_le_bytes_zeros [simp]: "from_le_bytes (replicate k 0) = 0"
  by (induction k) (simp_all add: from_le_bytes_Cons)

lemma from_le_bytes_append_zeros [simp]:
  "from_le_bytes (bs @ replicate k 0) = from_le_bytes bs"
  by (induction bs) (simp_all add: from_le_bytes_Cons)

lemma ucast_byte_OR_push_bit:
  fixes w :: "'a::len word"
  shows "ucast (ucast w :: u8) OR push_bit 8 (take_bit n (drop_bit 8 w)) = take_bit (8 + n) w"
  by (rule bit_eqI)
     (auto simp: bit_or_iff bit_push_bit_iff bit_take_bit_iff bit_drop_bit_eq bit_unsigned_iff
           dest: bit_imp_le_length)

lemma from_le_bytes_of_bytes:
  fixes w :: "'a::len word"
  shows "from_le_bytes (map (\<lambda>i. ucast (drop_bit (8 * i) w)) [0..<n]) = take_bit (8 * n) w"
proof (induction n arbitrary: w)
  case 0
  then show ?case by simp
next
  case (Suc n)
  have upt: "[0..<Suc n] = 0 # map Suc [0..<n]"
    by (metis map_Suc_upt upt_conv_Cons zero_less_Suc)
  have "map (\<lambda>i. ucast (drop_bit (8 * i) w) :: u8) [0..<Suc n]
      = ucast w # map (\<lambda>i. ucast (drop_bit (8 * i) (drop_bit 8 w))) [0..<n]"
    unfolding upt by (simp add: o_def drop_bit_drop_bit add.commute)
  then show ?case
    using Suc.IH [of "drop_bit 8 w"] ucast_byte_OR_push_bit [of w "8 * n"]
    by (simp add: from_le_bytes_Cons)
qed

lemma length_to_le_bytes [simp]:
  "length (to_le_bytes (w :: 'a::len word)) = LENGTH('a) div 8"
  by (simp add: to_le_bytes_def)

lemma from_to_le_bytes:
  fixes w :: "'a::len word"
  assumes "n \<le> LENGTH('a) div 8" and "8 * n < LENGTH('a)" and "unat w < 2 ^ (8 * n)"
  shows "from_le_bytes (take n (to_le_bytes w)) = w"
proof -
  have "take n (to_le_bytes w) = map (\<lambda>i. ucast (drop_bit (8 * i) w)) [0..<n]"
    using assms(1) by (simp add: to_le_bytes_def take_map)
  moreover have "take_bit (8 * n) w = w"
    using assms(3) by (metis take_bit_nat_eq_self unsigned_take_bit_eq unsigned_word_eqI)
  ultimately show ?thesis by (simp add: from_le_bytes_of_bytes)
qed

lemma unat_from_le_bytes_less:
  "8 * length bs < LENGTH('a) \<Longrightarrow> unat (from_le_bytes bs :: 'a::len word) < 2 ^ (8 * length bs)"
proof -
  have "take_bit (8 * length bs) (from_le_bytes bs :: 'a word) = from_le_bytes bs"
  proof (induction bs)
    case (Cons b bs)
    have "i < 8 + 8 * length bs" if "bit (from_le_bytes bs :: 'a word) (i - 8)" for i
      using Cons.IH that by (metis add.commute bit_take_bit_iff less_diff_conv2 not_less trans_less_add1)
    then show ?case
      by (intro bit_eqI)
         (auto simp: from_le_bytes_Cons bit_or_iff bit_push_bit_iff bit_take_bit_iff bit_unsigned_iff
               dest: bit_imp_le_length)
  qed simp
  then show ?thesis
    by (metis take_bit_nat_eq_self_iff unsigned_take_bit_eq)
qed

subsection \<open>Numbers as lists of bits, least significant first\<close>

fun bits_nat :: "bool list \<Rightarrow> nat" where
  "bits_nat [] = 0"
| "bits_nat (b # bs) = of_bool b + 2 * bits_nat bs"

definition bits_of :: "nat \<Rightarrow> nat \<Rightarrow> bool list" where
  "bits_of n c = map (\<lambda>i. odd (c div 2 ^ i)) [0..<n]"

lemma length_bits_of [simp]: "length (bits_of n c) = n"
  by (simp add: bits_of_def)

lemma bits_of_0 [simp]: "bits_of 0 c = []"
  by (simp add: bits_of_def)

lemma bits_of_Suc: "bits_of (Suc n) c = odd c # bits_of n (c div 2)"
  unfolding bits_of_def by (simp add: map_upt_Suc div_mult2_eq del: upt_Suc)

lemma nth_bits_of: "i < n \<Longrightarrow> bits_of n c ! i = odd (c div 2 ^ i)"
  by (simp add: bits_of_def)

lemma bits_nat_less: "bits_nat bs < 2 ^ length bs"
  by (induction bs) (auto simp: of_bool_def)

lemma mod_power_Suc_bit: "(d :: nat) mod 2 ^ Suc n = of_bool (odd d) + 2 * (d div 2 mod 2 ^ n)"
  by (simp add: mod_mult2_eq odd_iff_mod_2_eq_one mod2_eq_if)

lemma div_power_Suc: "(c :: nat) div 2 ^ Suc i = c div 2 ^ i div 2"
  by (metis div_mult2_eq power_Suc2)

lemma bits_nat_bits_of: "bits_nat (bits_of n c) = c mod 2 ^ n"
proof (induction n arbitrary: c)
  case (Suc n)
  then show ?case by (simp only: bits_of_Suc bits_nat.simps mod_power_Suc_bit)
qed simp

lemma bits_of_bits_nat: "length bs = n \<Longrightarrow> bits_of n (bits_nat bs) = bs"
proof (induction bs arbitrary: n)
  case (Cons b bs)
  then show ?case by (cases n) (auto simp: bits_of_Suc)
qed simp

lemma bits_nat_inject: "length as = length bs \<Longrightarrow> bits_nat as = bits_nat bs \<longleftrightarrow> as = bs"
  by (metis bits_of_bits_nat)

lemma bits_nat_append: "bits_nat (as @ bs) = bits_nat as + 2 ^ length as * bits_nat bs"
  by (induction as) (simp_all add: algebra_simps)

lemma bits_nat_zero_iff: "bits_nat bs = 0 \<longleftrightarrow> (\<forall>b \<in> set bs. \<not> b)"
  by (induction bs) auto

end
