(* ===== verification/Ipa_Errors.thy ===== *)
theory Ipa_Errors
  imports Ipa_Prelude
begin

text \<open>
  The protocol error type of \<open>src/error.rs\<close>. Payloads that come from other crates
  (boxed errors, I/O, JSON) are dropped; the truncation error keeps the two numbers its
  message is formatted from. \<open>Panic\<close> is the model's value for an \<open>assert!\<close>, an
  \<open>unwrap()\<close> or an explicit \<open>panic!\<close> that fires, so that every way out of a routine is
  a value of its result type.
\<close>

datatype ipa_error =
    AlreadyExists
  | AlreadySetup
  | Internal
  | InvalidId string
  | InvalidRole
  | NotEnoughHelpers
  | NotFound
  | TooManyHelpers
  | ParseError string
  | MaliciousSecurityCheckFailed
  | MaliciousRevealFailed
  | Io
  | RuntimeError
  | Serde
  | InfraError
  | FieldValueTruncation nat nat
  | InvalidQueryParameter string
  | InvalidReport
  | Unsupported string
  | DecompressingInvalidCurvePoint string
  | Panic

type_synonym 'a res = "ipa_error + 'a"

text \<open>The \<open>?\<close> operator: go on with the value, or return the error.\<close>

definition bind_res :: "'e + 'a \<Rightarrow> ('a \<Rightarrow> 'e + 'b) \<Rightarrow> 'e + 'b" where
  "bind_res m f = (case m of Inl e \<Rightarrow> Inl e | Inr x \<Rightarrow> f x)"

lemma bind_res_simps [simp]:
  "bind_res (Inl e) f = Inl e"
  "bind_res (Inr x) f = f x"
  by (simp_all add: bind_res_def)

lemma bind_res_eq_Inr_iff:
  "bind_res m f = Inr y \<longleftrightarrow> (\<exists>x. m = Inr x \<and> f x = Inr y)"
  by (cases m) simp_all

lemma bind_res_eq_Inl_iff:
  "bind_res m f = Inl e \<longleftrightarrow> m = Inl e \<or> (\<exists>x. m = Inr x \<and> f x = Inl e)"
  by (cases m) auto

text \<open>\<open>try_join\<close> and \<open>parallel_join\<close> over a list of fallible computations: the values in
  order, or the first error.\<close>

fun sequence_res :: "('e + 'a) list \<Rightarrow> 'e + 'a list" where
  "sequence_res [] = Inr []"
| "sequence_res (m # ms) = bind_res m (\<lambda>x. bind_res (sequence_res ms) (\<lambda>xs. Inr (x # xs)))"

lemma sequence_res_map_Inr [simp]: "sequence_res (map (\<lambda>x. Inr (f x)) xs) = Inr (map f xs)"
  by (induction xs) simp_all

lemma length_sequence_res: "sequence_res ms = Inr xs \<Longrightarrow> length xs = length ms"
  by (induction ms arbitrary: xs) (auto simp: bind_res_eq_Inr_iff)

lemma nth_sequence_res: "sequence_res ms = Inr xs \<Longrightarrow> i < length ms \<Longrightarrow> ms ! i = Inr (xs ! i)"
  by (induction ms arbitrary: xs i) (auto simp: bind_res_eq_Inr_iff nth_Cons split: nat.splits)

lemma sequence_res_list_all2:
  assumes "\<And>x. x \<in> set xs \<Longrightarrow> \<exists>y. f x = Inr y \<and> Q x y"
  shows "\<exists>ys. sequence_res (map f xs) = Inr ys \<and> list_all2 Q xs ys"
  using assms
proof (induction xs)
  case (Cons x xs)
  then obtain y ys where "f x = Inr y" "Q x y" "sequence_res (map f xs) = Inr ys" "list_all2 Q xs ys"
    by (metis list.set_intros)
  then show ?case by simp
qed simp

end
