(* ===== verification/Helpers.thy ===== *)
theory Helpers
  imports Ipa_Errors
begin

text \<open>
  The identities of the helpers and the bookkeeping types of \<open>src/helpers/mod.rs\<close> and
  \<open>src/protocol/mod.rs\<close>: helper identities, the three roles of the MPC ring and their
  neighbours, the assignment of roles to helpers, record identifiers and the total-record
  count of a channel.
\<close>

subsection \<open>Helper identities\<close>

record helper_identity =
  hid :: u8

datatype identity_error = IdentityOutOfRange nat

definition helper_identity_try_from :: "nat \<Rightarrow> identity_error + helper_identity" where
  "helper_identity_try_from value =
     (if value = 0 \<or> 3 < value then Inl (IdentityOutOfRange value)
      else Inr \<lparr>hid = of_nat value\<rparr>)"

definition helper_ONE :: helper_identity where "helper_ONE = \<lparr>hid = 1\<rparr>"
definition helper_TWO :: helper_identity where "helper_TWO = \<lparr>hid = 2\<rparr>"
definition helper_THREE :: helper_identity where "helper_THREE = \<lparr>hid = 3\<rparr>"

definition others :: "helper_identity \<Rightarrow> (helper_identity \<times> helper_identity) res" where
  "others h =
     (if hid h = 1 then Inr (helper_TWO, helper_THREE)
      else if hid h = 2 then Inr (helper_THREE, helper_ONE)
      else if hid h = 3 then Inr (helper_ONE, helper_TWO)
      else Inl Panic)"

text \<open>Slices are indexed by identity, starting from 1.\<close>

definition index_by_identity :: "'a list \<Rightarrow> helper_identity \<Rightarrow> 'a res" where
  "index_by_identity xs h =
     (if unat (hid h) = 0 \<or> length xs \<le> unat (hid h) - 1 then Inl Panic
      else Inr (xs ! (unat (hid h) - 1)))"

subsection \<open>Roles\<close>

datatype role = H1 | H2 | H3

datatype direction = Left | Right

definition all_roles :: "role list" where
  "all_roles = [H1, H2, H3]"

fun peer :: "role \<Rightarrow> direction \<Rightarrow> role" where
  "peer H1 Left = H3"
| "peer H2 Right = H3"
| "peer H1 Right = H2"
| "peer H3 Left = H2"
| "peer H3 Right = H1"
| "peer H2 Left = H1"

fun role_index :: "role \<Rightarrow> nat" where
  "role_index H1 = 0"
| "role_index H2 = 1"
| "role_index H3 = 2"

fun role_as_static_str :: "role \<Rightarrow> string" where
  "role_as_static_str H1 = ''H1''"
| "role_as_static_str H2 = ''H2''"
| "role_as_static_str H3 = ''H3''"

definition role_try_from_str :: "string \<Rightarrow> role res" where
  "role_try_from_str s =
     (if s = ''H1'' then Inr H1 else if s = ''H2'' then Inr H2 else if s = ''H3'' then Inr H3
      else Inl (ParseError s))"

instantiation role :: linorder
begin

definition less_eq_role :: "role \<Rightarrow> role \<Rightarrow> bool" where
  "less_eq_role a b \<longleftrightarrow> role_index a \<le> role_index b"

definition less_role :: "role \<Rightarrow> role \<Rightarrow> bool" where
  "less_role a b \<longleftrightarrow> role_index a < role_index b"

instance
proof
  fix a b :: role
  show "a \<le> b \<Longrightarrow> b \<le> a \<Longrightarrow> a = b"
    by (cases a; cases b) (simp_all add: less_eq_role_def)
qed (auto simp: less_eq_role_def less_role_def)

end

lemma role_all: "(\<forall>r. P r) \<longleftrightarrow> P H1 \<and> P H2 \<and> P H3"
  by (metis role.exhaust)

lemma peer_cycle [simp]:
  "peer (peer r Right) Left = r" "peer (peer r Left) Right = r"
  "peer (peer r Right) Right = peer r Left" "peer (peer r Left) Left = peer r Right"
  by (cases r; simp)+

lemma peer_neq [simp]: "peer r d \<noteq> r" "r \<noteq> peer r d" "peer r Left \<noteq> peer r Right" "peer r Right \<noteq> peer r Left"
  by (cases r; cases d; simp)+

lemma role_try_from_as_static_str: "role_try_from_str (role_as_static_str r) = Inr r"
  by (cases r) (simp_all add: role_try_from_str_def)

subsection \<open>Role assignments\<close>

record role_assignment =
  helper_roles :: "helper_identity list"

fun role_scan :: "helper_identity \<Rightarrow> nat \<Rightarrow> helper_identity list \<Rightarrow> role res" where
  "role_scan h idx [] = Inl Panic"
| "role_scan h idx (item # items) =
     (if item = h then (if idx < 3 then Inr (all_roles ! idx) else Inl Panic)
      else role_scan h (Suc idx) items)"

definition role_of :: "role_assignment \<Rightarrow> helper_identity \<Rightarrow> role res" where
  "role_of ra h = role_scan h 0 (helper_roles ra)"

definition identity_of :: "role_assignment \<Rightarrow> role \<Rightarrow> helper_identity res" where
  "identity_of ra r =
     (if role_index r < length (helper_roles ra) then Inr (helper_roles ra ! role_index r)
      else Inl Panic)"

datatype assignment_error = RoleAssignedTwice role | RoleUnassigned

fun assign_roles ::
  "helper_identity option list \<Rightarrow> (helper_identity \<times> role) list \<Rightarrow> assignment_error + helper_identity option list"
where
  "assign_roles result [] = Inr result"
| "assign_roles result ((h, r) # rest) =
     (if result ! role_index r \<noteq> None then Inl (RoleAssignedTwice r)
      else assign_roles (result[role_index r := Some h]) rest)"

text \<open>\<open>RoleUnassigned\<close> stands for the panic of the final \<open>unwrap\<close>.\<close>

definition role_assignment_try_from ::
  "(helper_identity \<times> role) list \<Rightarrow> assignment_error + role_assignment"
where
  "role_assignment_try_from value =
     bind_res (assign_roles [None, None, None] value) (\<lambda>result.
       if None \<in> set result then Inl RoleUnassigned
       else Inr \<lparr>helper_roles = map the result\<rparr>)"

definition role_assignment_try_from_roles :: "role list \<Rightarrow> assignment_error + role_assignment" where
  "role_assignment_try_from_roles value =
     role_assignment_try_from [(helper_ONE, value ! 0), (helper_TWO, value ! 1), (helper_THREE, value ! 2)]"

subsection \<open>Records\<close>

text \<open>A \<open>RecordId\<close> is a \<open>u32\<close>; conversion from \<open>usize\<close> panics when the value does not fit.\<close>

type_synonym record_id = nat

definition record_id_from_usize :: "nat \<Rightarrow> record_id res" where
  "record_id_from_usize v = (if v < 2 ^ 32 then Inr v else Inl Panic)"

definition record_id_add :: "record_id \<Rightarrow> nat \<Rightarrow> record_id res" where
  "record_id_add r rhs = record_id_from_usize (r + rhs)"

datatype total_records = Unspecified | Specified nat | Indeterminate

definition total_records_from_usize :: "nat \<Rightarrow> total_records" where
  "total_records_from_usize value = (if value = 0 then Unspecified else Specified value)"

fun is_specified :: "total_records \<Rightarrow> bool" where
  "is_specified Unspecified = False"
| "is_specified _ = True"

fun is_indeterminate :: "total_records \<Rightarrow> bool" where
  "is_indeterminate Indeterminate = True"
| "is_indeterminate _ = False"

fun total_count :: "total_records \<Rightarrow> nat option" where
  "total_count (Specified v) = Some v"
| "total_count Indeterminate = None"
| "total_count Unspecified = None"

fun is_last :: "total_records \<Rightarrow> record_id \<Rightarrow> bool" where
  "is_last Unspecified r = False"
| "is_last Indeterminate r = False"
| "is_last (Specified v) r = (r = v - 1)"

fun overwrite :: "total_records \<Rightarrow> total_records \<Rightarrow> total_records res" where
  "overwrite Unspecified v = Inr v"
| "overwrite _ Unspecified = Inl Panic"
| "overwrite (Specified _) Indeterminate = Inr Indeterminate"
| "overwrite _ _ = Inl Panic"

subsection \<open>Lemmas\<close>

lemma role_index_less: "role_index r < 3"
  by (cases r) simp_all

lemma role_index_inj: "role_index r = role_index r' \<longleftrightarrow> r = r'"
  by (cases r; cases r') simp_all

lemma all_roles_nth: "all_roles ! role_index r = r"
  by (cases r) (simp_all add: all_roles_def)

lemma assign_roles_length: "assign_roles rs ps = Inr result \<Longrightarrow> length result = length rs"
  by (induction rs ps rule: assign_roles.induct) (auto split: if_splits)

lemma assign_roles_keeps:
  assumes "assign_roles rs ps = Inr result" "length rs = 3" "i < 3" "rs ! i = Some h"
  shows "result ! i = Some h"
  using assms
proof (induction rs ps rule: assign_roles.induct)
  case (2 rs h' r rest)
  then have "i \<noteq> role_index r" by (auto split: if_splits)
  with 2 show ?case by (auto split: if_splits)
qed simp

lemma assign_roles_sets:
  assumes "assign_roles rs ps = Inr result" "length rs = 3" "(h, r) \<in> set ps"
  shows "result ! role_index r = Some h"
  using assms
proof (induction rs ps rule: assign_roles.induct)
  case (2 rs h' r' rest)
  have ok: "assign_roles (rs[role_index r' := Some h']) rest = Inr result"
    using 2(2) by (auto split: if_splits)
  show ?case
  proof (cases "(h, r) = (h', r')")
    case True
    then show ?thesis
      using assign_roles_keeps [OF ok, of "role_index r'" h'] 2(3) role_index_less [of r'] by simp
  next
    case False
    then show ?thesis using 2 ok by (auto split: if_splits)
  qed
qed simp

lemma role_scan_nth:
  assumes "distinct hs" and "i < length hs" and "hs ! i = h" and "k + length hs \<le> 3"
  shows "role_scan h k hs = Inr (all_roles ! (k + i))"
  using assms
proof (induction hs arbitrary: k i)
  case (Cons x hs)
  show ?case
  proof (cases i)
    case 0
    with Cons.prems show ?thesis by simp
  next
    case (Suc j)
    then have "x \<noteq> h" using Cons.prems by auto
    then show ?thesis using Cons.IH [of j "Suc k"] Cons.prems Suc by simp
  qed
qed simp

lemma role_of_identity:
  assumes "distinct (helper_roles ra)" and "length (helper_roles ra) = 3" and "identity_of ra r = Inr h"
  shows "role_of ra h = Inr r"
  using role_scan_nth [OF assms(1), of "role_index r" h 0] assms(2,3) role_index_less [of r]
  by (simp add: role_of_def identity_of_def all_roles_nth split: if_splits)

text \<open>C17: A role assignment built from three (helper, role) pairs answers with the pairs it was
  built from: the identity of each role is the paired helper, and, when the helpers are distinct,
  the role of each helper is the paired role.\<close>

theorem role_assignment_lookup:
  assumes "role_assignment_try_from ps = Inr ra" and "(h, r) \<in> set ps"
    and "distinct (helper_roles ra)"
  shows "identity_of ra r = Inr h \<and> role_of ra h = Inr r"
proof -
  obtain result where res: "assign_roles [None, None, None] ps = Inr result" "None \<notin> set result"
      "helper_roles ra = map the result"
    using assms(1) by (auto simp: role_assignment_try_from_def bind_res_eq_Inr_iff split: if_splits)
  have len: "length result = 3" using assign_roles_length [OF res(1)] by simp
  have "result ! role_index r = Some h"
    by (rule assign_roles_sets [OF res(1) _ assms(2)]) simp
  then have nth: "helper_roles ra ! role_index r = h"
    using len role_index_less [of r] by (simp add: res(3))
  then have id: "identity_of ra r = Inr h" using len role_index_less [of r] by (simp add: identity_of_def res(3))
  then show ?thesis using role_of_identity [OF assms(3) _ id] len by (simp add: res(3))
qed

definition example_assignment :: role_assignment where
  "example_assignment = \<lparr>helper_roles = [helper_THREE, helper_ONE, helper_TWO]\<rparr>"

theorem role_assignment_lookup_witness:
  "role_assignment_try_from_roles [H2, H3, H1] = Inr example_assignment
    \<and> identity_of example_assignment H3 = Inr helper_TWO \<and> role_of example_assignment helper_TWO = Inr H3"
proof -
  have built: "role_assignment_try_from [(helper_ONE, H2), (helper_TWO, H3), (helper_THREE, H1)]
      = Inr example_assignment"
    by (simp add: role_assignment_try_from_def example_assignment_def)
  have "distinct (helper_roles example_assignment)"
    by (simp add: example_assignment_def helper_ONE_def helper_TWO_def helper_THREE_def)
  with role_assignment_lookup [OF built, of helper_TWO H3] built
  show ?thesis by (simp add: role_assignment_try_from_roles_def)
qed

end
