(* ===== verification/Prime_Field.thy ===== *)
theory Prime_Field
  imports Ipa_Errors
begin

text \<open>
  The prime fields of \<open>src/ff/prime_field.rs\<close>. The macro \<open>field_impl!\<close> is the group of
  definitions \<open>fp_*\<close>, over a storage word \<open>'w\<close> and the prime as an argument; intermediate
  values are 64 bits wide as in the code. Its two expansions \<open>Fp31\<close> (\<open>u8\<close>, 31) and
  \<open>Fp32BitPrime\<close> (\<open>u32\<close>, \<open>2 ^ 32 - 5\<close>) are types whose elements are the values below
  the prime, with the library's ring operations instantiated by the \<open>fp_*\<close> functions.
\<close>

subsection \<open>The body of \<open>field_impl!\<close>\<close>

definition fp_add :: "'w::len word \<Rightarrow> 'w word \<Rightarrow> 'w word \<Rightarrow> 'w word" where
  "fp_add prime a b = ucast ((ucast a + ucast b :: u64) mod ucast prime)"

definition fp_neg :: "'w::len word \<Rightarrow> 'w word \<Rightarrow> 'w word" where
  "fp_neg prime a = (prime - a) mod prime"

definition fp_sub :: "'w::len word \<Rightarrow> 'w word \<Rightarrow> 'w word \<Rightarrow> 'w word" where
  "fp_sub prime a b = ucast ((ucast prime + ucast a - ucast b :: u64) mod ucast prime)"

definition fp_mul :: "'w::len word \<Rightarrow> 'w word \<Rightarrow> 'w word \<Rightarrow> 'w word" where
  "fp_mul prime a b = ucast ((ucast a * ucast b :: u64) mod ucast prime)"

definition fp_truncate_from :: "'w::len word \<Rightarrow> u128 \<Rightarrow> 'w word" where
  "fp_truncate_from prime v = ucast (v mod ucast prime)"

definition fp_try_from :: "'w::len word \<Rightarrow> u128 \<Rightarrow> 'w word res" where
  "fp_try_from prime v =
     (if bit_length v \<le> LENGTH('w) then Inr (fp_truncate_from prime v)
      else Inl (FieldValueTruncation (LENGTH('w)) (unat v)))"

definition fp_as_u128 :: "'w::len word \<Rightarrow> u128" where
  "fp_as_u128 a = ucast a"

definition fp_sum :: "'w::len word \<Rightarrow> 'w word list \<Rightarrow> 'w word" where
  "fp_sum prime xs = fold (\<lambda>b a. fp_add prime a b) xs 0"

definition fp_serialize :: "'w::len word \<Rightarrow> u8 list" where
  "fp_serialize a = take (LENGTH('w) div 8) (to_le_bytes (fp_as_u128 a))"

definition fp_deserialize :: "'w::len word \<Rightarrow> u8 list \<Rightarrow> 'w word res" where
  "fp_deserialize prime buf =
     fp_try_from prime (from_le_bytes (buf @ replicate (16 - length buf) 0))"

subsection \<open>The arithmetic never wraps\<close>

lemma unat_ucast_mod_prime:
  fixes prime :: "'w::len word" and x :: "'v::len word"
  assumes "0 < prime" and "LENGTH('w) \<le> LENGTH('v)"
  shows "unat (ucast (x mod ucast prime) :: 'w word) = unat x mod unat prime"
proof -
  have p: "unat (ucast prime :: 'v word) = unat prime"
    using assms(2) by (rule unat_ucast_up)
  have q: "unat (x mod ucast prime) = unat x mod unat prime"
    by (simp add: unat_mod p)
  have "unat x mod unat prime < unat prime"
    using assms(1) by (simp add: word_less_nat_alt)
  also have "\<dots> < 2 ^ LENGTH('w)" by simp
  finally show ?thesis
    by (simp add: unsigned_ucast_eq [of "x mod ucast prime"] q take_bit_nat_eq_self)
qed

lemma unat_fp_truncate_from:
  fixes prime :: "'w::len word"
  assumes "0 < prime" and "LENGTH('w) \<le> 32"
  shows "unat (fp_truncate_from prime v) = unat v mod unat prime"
  unfolding fp_truncate_from_def
  using assms by (intro unat_ucast_mod_prime) auto

lemma unat_fp_add:
  fixes prime :: "'w::len word"
  assumes "0 < prime" and "LENGTH('w) \<le> 32"
  shows "unat (fp_add prime a b) = (unat a + unat b) mod unat prime"
proof -
  have "unat a < 2 ^ 32" "unat b < 2 ^ 32"
    using assms(2) by (simp_all only: unat_less_power_up)
  then have "unat (ucast a + ucast b :: u64) = unat a + unat b"
    using assms(2) by (simp add: unat_word_ariths unat_ucast_up)
  then show ?thesis
    using assms by (simp add: fp_add_def unat_ucast_mod_prime)
qed

lemma unat_fp_sub:
  fixes prime :: "'w::len word"
  assumes "b \<le> prime" and "0 < prime" and "LENGTH('w) \<le> 32"
  shows "unat (fp_sub prime a b) = (unat prime + unat a - unat b) mod unat prime"
proof -
  have "unat a < 2 ^ 32" "unat prime < 2 ^ 32"
    using assms(3) by (simp_all only: unat_less_power_up)
  then have s: "unat (ucast prime + ucast a :: u64) = unat prime + unat a"
    using assms(3) by (simp add: unat_word_ariths unat_ucast_up)
  moreover have "unat b \<le> unat prime + unat a"
    using assms(1) by (simp add: word_le_nat_alt)
  ultimately have "unat (ucast prime + ucast a - ucast b :: u64) = unat prime + unat a - unat b"
    using assms(3) by (simp add: unat_sub word_le_nat_alt unat_ucast_up)
  then show ?thesis
    using assms by (simp add: fp_sub_def unat_ucast_mod_prime)
qed

lemma unat_fp_mul:
  fixes prime :: "'w::len word"
  assumes "0 < prime" and "LENGTH('w) \<le> 32"
  shows "unat (fp_mul prime a b) = unat a * unat b mod unat prime"
proof -
  have "unat a < 2 ^ 32" "unat b < 2 ^ 32"
    using assms(2) by (simp_all only: unat_less_power_up)
  then have "unat a * unat b < 2 ^ 32 * 2 ^ 32" by (intro mult_strict_mono) auto
  then have "unat (ucast a * ucast b :: u64) = unat a * unat b"
    using assms(2) by (simp add: unat_word_ariths unat_ucast_up)
  then show ?thesis
    using assms by (simp add: fp_mul_def unat_ucast_mod_prime)
qed

lemma unat_fp_neg:
  fixes prime :: "'w::len word"
  assumes "a \<le> prime"
  shows "unat (fp_neg prime a) = (unat prime - unat a) mod unat prime"
  using assms by (simp add: fp_neg_def unat_mod unat_sub)

lemmas unat_fp_ops = unat_fp_add unat_fp_sub unat_fp_mul unat_fp_neg unat_fp_truncate_from

text \<open>Hence every operation on canonical values (those below the prime) is the operation
  on residues, and its result is canonical.\<close>

lemma fp_op_closed:
  fixes prime :: "'w::len word"
  assumes "0 < prime" and "LENGTH('w) \<le> 32"
  shows "fp_add prime a b < prime" and "b \<le> prime \<Longrightarrow> fp_sub prime a b < prime"
    and "fp_mul prime a b < prime" and "a \<le> prime \<Longrightarrow> fp_neg prime a < prime"
    and "fp_truncate_from prime v < prime"
  using assms by (simp_all add: word_less_nat_alt unat_fp_ops)

lemma uint_fp_add:
  fixes prime :: "'w::len word"
  assumes "0 < prime" and "LENGTH('w) \<le> 32"
  shows "uint (fp_add prime a b) = (uint a + uint b) mod uint prime"
proof -
  have "int (unat (fp_add prime a b)) = (uint a + uint b) mod uint prime"
    unfolding unat_fp_add [OF assms] by (simp add: zmod_int)
  then show ?thesis by simp
qed

lemma uint_fp_mul:
  fixes prime :: "'w::len word"
  assumes "0 < prime" and "LENGTH('w) \<le> 32"
  shows "uint (fp_mul prime a b) = uint a * uint b mod uint prime"
proof -
  have "int (unat (fp_mul prime a b)) = uint a * uint b mod uint prime"
    unfolding unat_fp_mul [OF assms] by (simp add: zmod_int)
  then show ?thesis by simp
qed

lemma uint_fp_neg:
  fixes prime :: "'w::len word"
  assumes "a \<le> prime"
  shows "uint (fp_neg prime a) = (- uint a) mod uint prime"
proof -
  have "unat a \<le> unat prime" using assms by (simp add: word_le_nat_alt)
  then have "int (unat (fp_neg prime a)) = (uint prime - uint a) mod uint prime"
    unfolding unat_fp_neg [OF assms] by (simp add: zmod_int of_nat_diff)
  then show ?thesis by (metis minus_mod_self1 of_nat_unat)
qed

lemma uint_fp_sub:
  fixes prime :: "'w::len word"
  assumes "0 < prime" and "LENGTH('w) \<le> 32" and "b \<le> prime"
  shows "uint (fp_sub prime a b) = (uint a - uint b) mod uint prime"
proof -
  have "unat b \<le> unat prime" using assms(3) by (simp add: word_le_nat_alt)
  then have "int (unat (fp_sub prime a b)) = (uint prime + (uint a - uint b)) mod uint prime"
    unfolding unat_fp_sub [OF assms(3,1,2)] by (simp add: zmod_int of_nat_diff algebra_simps)
  then show ?thesis by (metis mod_add_self1 of_nat_unat)
qed

lemma uint_mod_self: "a < prime \<Longrightarrow> uint a mod uint prime = uint a"
  by (simp add: word_less_def)

lemmas uint_fp_ops = uint_fp_add uint_fp_sub uint_fp_mul

lemma fp_ring_laws:
  fixes prime :: "'w::len word"
  assumes "1 < prime" and "LENGTH('w) \<le> 32"
  shows "fp_add prime (fp_add prime a b) c = fp_add prime a (fp_add prime b c)"
    and "fp_add prime a b = fp_add prime b a"
    and "a < prime \<Longrightarrow> fp_add prime 0 a = a"
    and "a < prime \<Longrightarrow> fp_add prime (fp_neg prime a) a = 0"
    and "b < prime \<Longrightarrow> fp_sub prime a b = fp_add prime a (fp_neg prime b)"
    and "fp_mul prime (fp_mul prime a b) c = fp_mul prime a (fp_mul prime b c)"
    and "fp_mul prime a b = fp_mul prime b a"
    and "a < prime \<Longrightarrow> fp_mul prime 1 a = a"
    and "fp_mul prime (fp_add prime a b) c = fp_add prime (fp_mul prime a c) (fp_mul prime b c)"
proof -
  have p: "0 < prime"
    using assms(1) by (simp add: word_less_nat_alt)
  note ops = uint_fp_ops [OF p assms(2)] uint_fp_neg word_uint_eq_iff mod_simps uint_mod_self
    order.strict_implies_order
  show "fp_add prime (fp_add prime a b) c = fp_add prime a (fp_add prime b c)"
    by (simp add: ops add.assoc)
  show "fp_add prime a b = fp_add prime b a" by (simp add: ops add.commute)
  show "fp_add prime 0 a = a" if "a < prime" using that by (simp add: ops)
  show "fp_add prime (fp_neg prime a) a = 0" if "a < prime" using that by (simp add: ops)
  show "fp_sub prime a b = fp_add prime a (fp_neg prime b)" if "b < prime"
    using that by (simp add: ops)
  show "fp_mul prime (fp_mul prime a b) c = fp_mul prime a (fp_mul prime b c)"
    by (simp add: ops mult.assoc)
  show "fp_mul prime a b = fp_mul prime b a" by (simp add: ops mult.commute)
  show "fp_mul prime 1 a = a" if "a < prime" using that by (simp add: ops)
  show "fp_mul prime (fp_add prime a b) c = fp_add prime (fp_mul prime a c) (fp_mul prime b c)"
    by (simp add: ops distrib_right)
qed

subsection \<open>The two expansions of the macro\<close>

definition fp31_prime :: u8 where
  "fp31_prime = 31"

definition fp32bit_prime :: u32 where
  "fp32bit_prime = 4294967291"

lemma fp_primes_gt_1: "1 < fp31_prime" "1 < fp32bit_prime"
  by (simp_all add: fp31_prime_def fp32bit_prime_def)

lemma fp_primes_pos: "0 < fp31_prime" "0 < fp32bit_prime"
  by (simp_all add: fp31_prime_def fp32bit_prime_def)

typedef fp31 = "{x :: u8. x < fp31_prime}"
  morphisms fp31_raw Fp31
  using fp_primes_pos(1) by blast

typedef fp32bit = "{x :: u32. x < fp32bit_prime}"
  morphisms fp32bit_raw Fp32BitPrime
  using fp_primes_pos(2) by blast

setup_lifting type_definition_fp31
setup_lifting type_definition_fp32bit

instantiation fp31 :: comm_ring_1
begin

lift_definition zero_fp31 :: fp31 is 0 by (rule fp_primes_pos)
lift_definition one_fp31 :: fp31 is 1 by (rule fp_primes_gt_1)
lift_definition plus_fp31 :: "fp31 \<Rightarrow> fp31 \<Rightarrow> fp31" is "fp_add fp31_prime"
  by (simp add: fp_op_closed fp_primes_pos)
lift_definition minus_fp31 :: "fp31 \<Rightarrow> fp31 \<Rightarrow> fp31" is "fp_sub fp31_prime"
  by (simp add: fp_op_closed fp_primes_pos)
lift_definition uminus_fp31 :: "fp31 \<Rightarrow> fp31" is "fp_neg fp31_prime"
  by (simp add: fp_op_closed fp_primes_pos)
lift_definition times_fp31 :: "fp31 \<Rightarrow> fp31 \<Rightarrow> fp31" is "fp_mul fp31_prime"
  by (simp add: fp_op_closed fp_primes_pos)

instance
  by (standard; transfer; (rule fp_ring_laws)?) (simp_all add: fp31_prime_def)

end

instantiation fp32bit :: comm_ring_1
begin

lift_definition zero_fp32bit :: fp32bit is 0 by (rule fp_primes_pos)
lift_definition one_fp32bit :: fp32bit is 1 by (rule fp_primes_gt_1)
lift_definition plus_fp32bit :: "fp32bit \<Rightarrow> fp32bit \<Rightarrow> fp32bit" is "fp_add fp32bit_prime"
  by (simp add: fp_op_closed fp_primes_pos)
lift_definition minus_fp32bit :: "fp32bit \<Rightarrow> fp32bit \<Rightarrow> fp32bit" is "fp_sub fp32bit_prime"
  by (simp add: fp_op_closed fp_primes_pos)
lift_definition uminus_fp32bit :: "fp32bit \<Rightarrow> fp32bit" is "fp_neg fp32bit_prime"
  by (simp add: fp_op_closed fp_primes_pos)
lift_definition times_fp32bit :: "fp32bit \<Rightarrow> fp32bit \<Rightarrow> fp32bit" is "fp_mul fp32bit_prime"
  by (simp add: fp_op_closed fp_primes_pos)

instance
  by (standard; transfer; (rule fp_ring_laws)?) (simp_all add: fp32bit_prime_def)

end

instantiation fp31 :: equal
begin

lift_definition equal_fp31 :: "fp31 \<Rightarrow> fp31 \<Rightarrow> bool" is "(=)" .

instance by (standard; transfer) simp

end

instantiation fp32bit :: equal
begin

lift_definition equal_fp32bit :: "fp32bit \<Rightarrow> fp32bit \<Rightarrow> bool" is "(=)" .

instance by (standard; transfer) simp

end

lift_definition fp31_truncate_from :: "u128 \<Rightarrow> fp31" is "fp_truncate_from fp31_prime"
  by (simp add: fp_op_closed fp_primes_pos)

lift_definition fp32bit_truncate_from :: "u128 \<Rightarrow> fp32bit" is "fp_truncate_from fp32bit_prime"
  by (simp add: fp_op_closed fp_primes_pos)

lift_definition fp31_as_u128 :: "fp31 \<Rightarrow> u128" is fp_as_u128 .

lift_definition fp32bit_as_u128 :: "fp32bit \<Rightarrow> u128" is fp_as_u128 .

subsection \<open>Residues: \<open>truncate_from\<close>, \<open>as_u128\<close> and numerals\<close>

lemma uint_fp31_of_nat: "uint (fp31_raw (of_nat n)) = int n mod 31"
proof (induction n)
  case 0
  then show ?case by (simp add: zero_fp31.rep_eq)
next
  case (Suc n)
  then show ?case
    by (simp add: plus_fp31.rep_eq one_fp31.rep_eq uint_fp_add fp31_prime_def mod_simps)
qed

lemma uint_fp32bit_of_nat: "uint (fp32bit_raw (of_nat n)) = int n mod 4294967291"
proof (induction n)
  case 0
  then show ?case by (simp add: zero_fp32bit.rep_eq)
next
  case (Suc n)
  then show ?case
    by (simp add: plus_fp32bit.rep_eq one_fp32bit.rep_eq uint_fp_add fp32bit_prime_def mod_simps)
qed

lemma fp31_eq_iff: "x = y \<longleftrightarrow> uint (fp31_raw x) = uint (fp31_raw y)"
  by (simp add: fp31_raw_inject [symmetric] word_uint_eq_iff)

lemma fp32bit_eq_iff: "x = y \<longleftrightarrow> uint (fp32bit_raw x) = uint (fp32bit_raw y)"
  by (simp add: fp32bit_raw_inject [symmetric] word_uint_eq_iff)

lemma numeral_eq_fp31 [simp]:
  "(numeral m :: fp31) = numeral n \<longleftrightarrow> (numeral m :: int) mod 31 = numeral n mod 31"
  using uint_fp31_of_nat [of "numeral m"] uint_fp31_of_nat [of "numeral n"]
  by (simp add: fp31_eq_iff)

lemma numeral_eq_fp31_01 [simp]:
  "(numeral m :: fp31) = 0 \<longleftrightarrow> (numeral m :: int) mod 31 = 0"
  "(numeral m :: fp31) = 1 \<longleftrightarrow> (numeral m :: int) mod 31 = 1"
  "0 = (numeral m :: fp31) \<longleftrightarrow> (numeral m :: int) mod 31 = 0"
  using uint_fp31_of_nat [of "numeral m"]
  by (auto simp add: fp31_eq_iff zero_fp31.rep_eq one_fp31.rep_eq)

subsection \<open>The trait \<open>PrimeField\<close>\<close>

text \<open>
  Generic code takes a prime field through the trait \<open>PrimeField\<close>: the ring operations,
  which the model takes from the type class, and the constant \<open>PRIME\<close> and the two
  conversions, which it takes as a dictionary. Values of type \<open>u128\<close> are natural numbers
  below \<open>2 ^ 128\<close> here.
\<close>

record 'f prime_field_ops =
  PRIME :: nat
  truncate_from :: "nat \<Rightarrow> 'f"
  as_u128 :: "'f \<Rightarrow> nat"

definition fp31_field :: "fp31 prime_field_ops" where
  "fp31_field = \<lparr>PRIME = unat fp31_prime,
     truncate_from = (\<lambda>v. fp31_truncate_from (of_nat v)),
     as_u128 = (\<lambda>x. unat (fp31_as_u128 x))\<rparr>"

definition fp32bit_field :: "fp32bit prime_field_ops" where
  "fp32bit_field = \<lparr>PRIME = unat fp32bit_prime,
     truncate_from = (\<lambda>v. fp32bit_truncate_from (of_nat v)),
     as_u128 = (\<lambda>x. unat (fp32bit_as_u128 x))\<rparr>"

locale prime_field =
  fixes P :: "'f::comm_ring_1 prime_field_ops"
  assumes PRIME_gt_2: "2 < PRIME P"
    and PRIME_less: "PRIME P < 2 ^ 64"
    and truncate_from_eq: "v < 2 ^ 128 \<Longrightarrow> truncate_from P v = of_nat v"
    and as_u128_of_nat: "as_u128 P (of_nat n) = n mod PRIME P"
    and of_nat_as_u128: "of_nat (as_u128 P x) = x"
begin

lemma as_u128_less: "as_u128 P x < PRIME P"
proof -
  have "as_u128 P x mod PRIME P < PRIME P" using PRIME_gt_2 by simp
  then show ?thesis by (metis as_u128_of_nat of_nat_as_u128)
qed

lemma of_nat_eq_iff_mod: "(of_nat m :: 'f) = of_nat n \<longleftrightarrow> m mod PRIME P = n mod PRIME P"
  by (metis as_u128_of_nat of_nat_as_u128)

lemma of_nat_PRIME [simp]: "(of_nat (PRIME P) :: 'f) = 0"
  using of_nat_eq_iff_mod [of "PRIME P" 0] by simp

lemma as_u128_eq_iff: "as_u128 P x = as_u128 P y \<longleftrightarrow> x = y"
  by (metis of_nat_as_u128)

lemma as_u128_0 [simp]: "as_u128 P 0 = 0"
  using as_u128_of_nat [of 0] by simp

lemma as_u128_1 [simp]: "as_u128 P 1 = 1"
  using as_u128_of_nat [of 1] PRIME_gt_2 by simp

lemma as_u128_add: "as_u128 P (x + y) = (as_u128 P x + as_u128 P y) mod PRIME P"
  by (metis as_u128_of_nat of_nat_add of_nat_as_u128)

lemma as_u128_mult: "as_u128 P (x * y) = as_u128 P x * as_u128 P y mod PRIME P"
  by (metis as_u128_of_nat of_nat_mult of_nat_as_u128)

end

interpretation fp31: prime_field fp31_field
proof unfold_locales
  fix v :: nat and n :: nat and x :: fp31
  show "2 < PRIME fp31_field" "PRIME fp31_field < 2 ^ 64"
    by (simp_all add: fp31_field_def fp31_prime_def)
  show "truncate_from fp31_field v = of_nat v" if "v < 2 ^ 128"
  proof -
    have "unat (of_nat v :: u128) = v" using that by (simp add: take_bit_nat_eq_self unsigned_of_nat)
    then have "unat (fp31_raw (fp31_truncate_from (of_nat v))) = v mod 31"
      by (simp add: fp31_truncate_from.rep_eq unat_fp_truncate_from fp31_prime_def)
    then have "uint (fp31_raw (fp31_truncate_from (of_nat v))) = int v mod 31"
      by (metis of_nat_numeral of_nat_unat zmod_int)
    then show ?thesis by (simp add: fp31_field_def fp31_eq_iff uint_fp31_of_nat)
  qed
  show "as_u128 fp31_field (of_nat n) = n mod PRIME fp31_field"
  proof -
    have "unat (fp31_raw (of_nat n)) = n mod 31"
      by (metis nat_int of_nat_numeral of_nat_unat uint_fp31_of_nat zmod_int)
    then show ?thesis
      by (simp add: fp31_field_def fp31_as_u128.rep_eq fp_as_u128_def unat_ucast_up fp31_prime_def)
  qed
  show "of_nat (as_u128 fp31_field x) = x"
  proof -
    have "fp31_raw x < 31" using fp31_raw [of x] by (simp add: fp31_prime_def)
    then have "uint (fp31_raw x) mod 31 = uint (fp31_raw x)"
      by (simp add: word_less_def)
    then show ?thesis
      using uint_fp31_of_nat [of "unat (fp31_raw x)"]
      by (simp add: fp31_field_def fp31_eq_iff fp31_as_u128.rep_eq fp_as_u128_def unat_ucast_up)
  qed
qed

interpretation fp32bit: prime_field fp32bit_field
proof unfold_locales
  fix v :: nat and n :: nat and x :: fp32bit
  show "2 < PRIME fp32bit_field" "PRIME fp32bit_field < 2 ^ 64"
    by (simp_all add: fp32bit_field_def fp32bit_prime_def)
  show "truncate_from fp32bit_field v = of_nat v" if "v < 2 ^ 128"
  proof -
    have "unat (of_nat v :: u128) = v" using that by (simp add: take_bit_nat_eq_self unsigned_of_nat)
    then have "unat (fp32bit_raw (fp32bit_truncate_from (of_nat v))) = v mod 4294967291"
      by (simp add: fp32bit_truncate_from.rep_eq unat_fp_truncate_from fp32bit_prime_def)
    then have "uint (fp32bit_raw (fp32bit_truncate_from (of_nat v))) = int v mod 4294967291"
      by (metis of_nat_numeral of_nat_unat zmod_int)
    then show ?thesis by (simp add: fp32bit_field_def fp32bit_eq_iff uint_fp32bit_of_nat)
  qed
  show "as_u128 fp32bit_field (of_nat n) = n mod PRIME fp32bit_field"
  proof -
    have "unat (fp32bit_raw (of_nat n)) = n mod 4294967291"
      by (metis nat_int of_nat_numeral of_nat_unat uint_fp32bit_of_nat zmod_int)
    then show ?thesis
      by (simp add: fp32bit_field_def fp32bit_as_u128.rep_eq fp_as_u128_def unat_ucast_up
          fp32bit_prime_def)
  qed
  show "of_nat (as_u128 fp32bit_field x) = x"
  proof -
    have "fp32bit_raw x < 4294967291" using fp32bit_raw [of x] by (simp add: fp32bit_prime_def)
    then have "uint (fp32bit_raw x) mod 4294967291 = uint (fp32bit_raw x)"
      by (simp add: word_less_def)
    then show ?thesis
      using uint_fp32bit_of_nat [of "unat (fp32bit_raw x)"]
      by (simp add: fp32bit_field_def fp32bit_eq_iff fp32bit_as_u128.rep_eq fp_as_u128_def
          unat_ucast_up)
  qed
qed

subsection \<open>Conversions and the wire format\<close>

lemma fp_try_from_iff:
  fixes prime :: "'w::len word"
  assumes "LENGTH('w) \<le> 32"
  shows "fp_try_from prime v =
    (if unat v < 2 ^ LENGTH('w) then Inr (fp_truncate_from prime v)
     else Inl (FieldValueTruncation (LENGTH('w)) (unat v)))"
  using assms by (simp add: fp_try_from_def bit_length_le_iff_less)

text \<open>C11: The operators of a prime field expanded by \<open>field_impl!\<close> compute in the residues
  modulo the prime: on any two canonical values the 64-bit intermediate results do not wrap,
  the result is again canonical, and as an integer it is the sum, difference, product or
  negation modulo the prime.\<close>

theorem fp_ops_are_residue_arithmetic:
  fixes prime :: "'w::len word"
  assumes "1 < prime" and "LENGTH('w) \<le> 32" and "a < prime" and "b < prime"
  shows "uint (fp_add prime a b) = (uint a + uint b) mod uint prime \<and> fp_add prime a b < prime
    \<and> uint (fp_sub prime a b) = (uint a - uint b) mod uint prime \<and> fp_sub prime a b < prime
    \<and> uint (fp_mul prime a b) = (uint a * uint b) mod uint prime \<and> fp_mul prime a b < prime
    \<and> uint (fp_neg prime a) = (- uint a) mod uint prime \<and> fp_neg prime a < prime"
proof -
  have p: "0 < prime" using assms(1) by (simp add: word_less_nat_alt)
  show ?thesis
    using assms fp_op_closed [OF p assms(2)]
    by (simp add: uint_fp_ops uint_fp_neg p order.strict_implies_order)
qed

theorem fp_ops_are_residue_arithmetic_witness:
  "uint (fp_sub fp32bit_prime 3 5) = (uint (3::u32) - uint (5::u32)) mod uint fp32bit_prime
    \<and> fp_sub fp32bit_prime 3 5 < fp32bit_prime"
  using fp_ops_are_residue_arithmetic [of fp32bit_prime 3 5] by (simp add: fp32bit_prime_def)

lemma length_fp_serialize:
  fixes a :: "'w::len word"
  assumes "LENGTH('w) \<le> 32"
  shows "length (fp_serialize a) = LENGTH('w) div 8"
  using assms by (simp add: fp_serialize_def)

lemma fp_deserialize_serialize:
  fixes prime a :: "'w::len word"
  assumes "LENGTH('w) \<le> 32" and "8 dvd LENGTH('w)" and "a < prime"
  shows "fp_deserialize prime (fp_serialize a) = Inr a"
proof -
  let ?n = "LENGTH('w) div 8"
  have prime: "0 < prime" using assms(3) by (auto simp: word_gt_0)
  have n: "8 * ?n = LENGTH('w)" "?n \<le> 4" using assms(1,2) by auto
  have a: "unat (fp_as_u128 a) = unat a"
    unfolding fp_as_u128_def using assms(1) by (intro unat_ucast_up) simp
  have "from_le_bytes (fp_serialize a) = fp_as_u128 a"
    unfolding fp_serialize_def using n by (intro from_to_le_bytes) (simp_all add: a)
  moreover have "fp_truncate_from prime (fp_as_u128 a) = a"
    using prime assms by (simp add: word_unat_eq_iff unat_fp_truncate_from a word_less_nat_alt)
  ultimately show ?thesis
    using assms(1) by (simp add: fp_deserialize_def fp_try_from_iff a length_fp_serialize)
qed

text \<open>C12: Writing a canonical field element to its fixed-size little-endian buffer and reading
  it back returns the element, and reading any buffer of that size succeeds (the \<open>unwrap()\<close> in
  \<open>deserialize\<close> cannot panic) with a canonical element.\<close>

theorem fp_serde_roundtrip:
  fixes prime a :: "'w::len word" and buf :: "u8 list"
  assumes "0 < prime" and "LENGTH('w) \<le> 32" and "8 dvd LENGTH('w)" and "a < prime"
    and "length buf = LENGTH('w) div 8"
  shows "length (fp_serialize a) = LENGTH('w) div 8
    \<and> fp_deserialize prime (fp_serialize a) = Inr a
    \<and> (\<exists>v < prime. fp_deserialize prime buf = Inr v)"
proof -
  have "unat (from_le_bytes buf :: u128) < 2 ^ LENGTH('w)"
    using unat_from_le_bytes_less [of buf, where 'a = 128] assms(2,3,5) by simp
  then have "fp_deserialize prime buf = Inr (fp_truncate_from prime (from_le_bytes buf))"
    using assms(2) by (simp add: fp_deserialize_def fp_try_from_iff)
  with fp_op_closed(5) [OF assms(1,2)] show ?thesis
    using assms by (simp add: length_fp_serialize fp_deserialize_serialize)
qed

theorem fp_serde_roundtrip_witness:
  "fp_deserialize fp31_prime (fp_serialize (24 :: u8)) = Inr 24
    \<and> (\<exists>v < fp31_prime. fp_deserialize fp31_prime [200] = Inr v)"
  using fp_serde_roundtrip [of fp31_prime 24 "[200]"] by (simp add: fp31_prime_def)

text \<open>C13: The fallible conversion \<open>try_from\<close> accepts exactly the values of at most \<open>BITS\<close>
  bits, reducing them modulo the prime, and rejects any other with the truncation error.\<close>

theorem fp_try_from_bounds:
  fixes prime :: "'w::len word"
  assumes "0 < prime" and "LENGTH('w) \<le> 32"
  shows "(unat v < 2 ^ LENGTH('w) \<longrightarrow>
       (\<exists>x. fp_try_from prime v = Inr x \<and> unat x = unat v mod unat prime))
    \<and> (2 ^ LENGTH('w) \<le> unat v \<longrightarrow>
       fp_try_from prime v = Inl (FieldValueTruncation (LENGTH('w)) (unat v)))"
  using assms by (simp add: fp_try_from_iff unat_fp_truncate_from)

theorem fp_try_from_bounds_witness:
  "(\<exists>x. fp_try_from fp31_prime 200 = Inr x \<and> unat x = 14)
    \<and> fp_try_from fp31_prime 256 = Inl (FieldValueTruncation 8 256)"
  using fp_try_from_bounds [of fp31_prime 200] fp_try_from_bounds [of fp31_prime 256]
  by (simp add: fp31_prime_def)

end
