(* ===== verification/Gf2_Polynomials.thy ===== *)
theory Gf2_Polynomials
  imports Ipa_Prelude
begin

text \<open>
  Polynomials over the two-element field as natural numbers: bit \<open>i\<close> is the coefficient
  of \<open>x ^ i\<close>, addition is bitwise exclusive or. This is the reference against which
  the carry-less multiplication and the reduction loop of the Galois fields are proved
  correct; it models no code of its own.
\<close>

lemma double_xor: "2 * (x XOR y) = (2 * x) XOR (2 * y :: nat)"
  using push_bit_xor [of 1 x y] by (simp add: push_bit_eq_mult mult.commute)

lemma xor_div_2: "(x XOR y) div 2 = (x div 2) XOR (y div 2 :: nat)"
  using drop_bit_xor [of 1 x y] by (simp add: drop_bit_eq_div)

lemma xor_left_cancel_nat [simp]: "x XOR (x XOR y) = (y :: nat)"
  by (metis xor.assoc xor.left_neutral xor_self_eq)

lemma xor_eq_0_iff_nat [simp]: "x XOR y = 0 \<longleftrightarrow> x = (y :: nat)"
  by (metis xor_left_cancel_nat xor.right_neutral xor_self_eq)

lemma bit_nat_less: "(x :: nat) < 2 ^ n \<Longrightarrow> n \<le> i \<Longrightarrow> \<not> bit x i"
  by (metis bit_take_bit_iff not_less take_bit_nat_eq_self)

lemma nat_less_if_bits: "(\<And>i. n \<le> i \<Longrightarrow> \<not> bit (x :: nat) i) \<Longrightarrow> x < 2 ^ n"
  by (metis bit_eqI bit_take_bit_iff not_less take_bit_nat_eq_self_iff)

lemma xor_less_power: "(x :: nat) < 2 ^ n \<Longrightarrow> y < 2 ^ n \<Longrightarrow> x XOR y < 2 ^ n"
  by (rule nat_less_if_bits) (simp add: bit_xor_iff bit_nat_less)

subsection \<open>Carry-less multiplication\<close>

fun cmul :: "nat \<Rightarrow> nat \<Rightarrow> nat" where
  "cmul a b = (if a = 0 then 0 else (if odd a then b else 0) XOR 2 * cmul (a div 2) b)"

declare cmul.simps [simp del]

lemma cmul_0_left [simp]: "cmul 0 b = 0"
  by (simp add: cmul.simps)

lemma cmul_unfold: "cmul a b = (if odd a then b else 0) XOR 2 * cmul (a div 2) b"
  by (cases "a = 0") (simp_all add: cmul.simps [of a])

lemma cmul_0_right [simp]: "cmul a 0 = 0"
proof (induction a rule: less_induct)
  case (less a)
  then show ?case by (cases "a = 0") (simp_all add: cmul_unfold [of a])
qed

lemma cmul_1_left [simp]: "cmul (Suc 0) b = b"
  by (simp add: cmul_unfold [of "Suc 0"])

lemma cmul_double_left: "cmul (2 * a) b = 2 * cmul a b"
  by (simp add: cmul_unfold [of "2 * a"])

lemma cmul_xor_left: "cmul (a XOR b) c = cmul a c XOR cmul b c"
proof (induction a arbitrary: b rule: less_induct)
  case (less a)
  show ?case
  proof (cases "a = 0")
    case False
    then have IH: "cmul (a div 2 XOR b div 2) c = cmul (a div 2) c XOR cmul (b div 2) c"
      by (intro less) simp
    have "odd (a XOR b) \<longleftrightarrow> odd a \<noteq> odd b"
      by (simp add: even_xor_iff)
    then show ?thesis
      by (subst (1 2 3) cmul_unfold)
         (simp add: xor_div_2 IH double_xor ac_simps)
  qed simp
qed

lemma cmul_xor_right: "cmul a (b XOR c) = cmul a b XOR cmul a c"
proof (induction a rule: less_induct)
  case (less a)
  show ?case
  proof (cases "a = 0")
    case False
    then have IH: "cmul (a div 2) (b XOR c) = cmul (a div 2) b XOR cmul (a div 2) c"
      by (intro less) simp
    then show ?thesis
      by (subst (1 2 3) cmul_unfold) (simp add: IH double_xor ac_simps)
  qed simp
qed

lemma cmul_double_right: "cmul a (2 * b) = 2 * cmul a b"
proof (induction a rule: less_induct)
  case (less a)
  then show ?case
    by (cases "a = 0") (simp_all add: cmul_unfold [of a] double_xor)
qed

lemma bit_of_bool_xor_double:
  "bit (of_bool p XOR 2 * (c :: nat)) n \<longleftrightarrow> (case n of 0 \<Rightarrow> p | Suc k \<Rightarrow> bit c k)"
  by (cases n) (auto simp: bit_xor_iff bit_double_iff bit_of_bool_iff)

lemma nat_split_bit: "(a :: nat) = of_bool (odd a) XOR 2 * (a div 2)"
proof (rule bit_eqI)
  fix n
  show "bit a n = bit (of_bool (odd a) XOR 2 * (a div 2)) n"
    unfolding bit_of_bool_xor_double by (cases n) (simp_all add: bit_Suc bit_0)
qed

lemma cmul_1_right [simp]: "cmul a (Suc 0) = a"
proof (induction a rule: less_induct)
  case (less a)
  show ?case
  proof (cases "a = 0")
    case False
    then have "cmul a (Suc 0) = of_bool (odd a) XOR 2 * (a div 2)"
      using less by (simp add: cmul_unfold [of a])
    also have "\<dots> = a" by (rule nat_split_bit [symmetric])
    finally show ?thesis .
  qed simp
qed

lemma cmul_commute: "cmul a b = cmul b a"
proof (induction a rule: less_induct)
  case (less a)
  show ?case
  proof (cases "a = 0")
    case False
    then have IH: "cmul (a div 2) b = cmul b (a div 2)" by (intro less) simp
    have "cmul b a = cmul b (of_bool (odd a)) XOR 2 * cmul b (a div 2)"
      by (subst nat_split_bit [of a]) (simp only: cmul_xor_right cmul_double_right)
    then show ?thesis by (simp add: cmul_unfold [of a b] IH)
  qed simp
qed

lemma cmul_assoc: "cmul (cmul a b) c = cmul a (cmul b c)"
proof (induction a rule: less_induct)
  case (less a)
  show ?case
  proof (cases "a = 0")
    case False
    then have IH: "cmul (cmul (a div 2) b) c = cmul (a div 2) (cmul b c)" by (intro less) simp
    then show ?thesis
      by (simp add: cmul_unfold [of a] cmul_xor_left cmul_double_left)
  qed simp
qed

lemma cmul_power2: "cmul (2 ^ n) a = push_bit n a"
  by (induction n) (simp_all add: cmul_double_left push_bit_double mult.commute)

subsection \<open>Degrees and remainders\<close>

lemma bit_cmul_top:
  assumes "bit q k" "q < 2 ^ Suc k" "bit m n" "m < 2 ^ Suc n"
  shows "bit (cmul q m) (k + n)"
  using assms(1,2)
proof (induction k arbitrary: q)
  case 0
  then have "q = Suc 0" by (cases q) (auto simp: bit_0)
  with assms(3) show ?case by simp
next
  case (Suc k)
  have "\<not> bit m (Suc k + n)" using assms(4) by (rule bit_nat_less) simp
  moreover have "bit (cmul (q div 2) m) (k + n)"
    using Suc.prems by (intro Suc.IH) (simp_all add: bit_Suc less_mult_imp_div_less)
  ultimately show ?case
    by (subst cmul_unfold) (auto simp: bit_xor_iff bit_double_iff)
qed

lemma top_bit_exists: "0 < (q :: nat) \<Longrightarrow> \<exists>k. bit q k \<and> q < 2 ^ Suc k"
proof (induction q rule: less_induct)
  case (less q)
  show ?case
  proof (cases "q div 2 = 0")
    case True
    with less.prems have "q = 1" by (cases q) auto
    then show ?thesis by (intro exI [of _ 0]) (simp add: bit_0)
  next
    case False
    then obtain k where "bit (q div 2) k" "q div 2 < 2 ^ Suc k"
      using less.IH [of "q div 2"] by auto
    then show ?thesis by (intro exI [of _ "Suc k"]) (auto simp: bit_Suc)
  qed
qed

definition cong_poly :: "nat \<Rightarrow> nat \<Rightarrow> nat \<Rightarrow> bool" where
  "cong_poly m x y \<longleftrightarrow> (\<exists>q. x XOR y = cmul q m)"

lemma cong_poly_refl [simp]: "cong_poly m x x"
  unfolding cong_poly_def by (rule exI [of _ 0]) simp

lemma cong_poly_sym: "cong_poly m x y \<Longrightarrow> cong_poly m y x"
  by (simp add: cong_poly_def xor.commute)

lemma cong_poly_trans:
  assumes "cong_poly m x y" and "cong_poly m y z"
  shows "cong_poly m x z"
proof -
  from assms obtain q r where q: "x XOR y = cmul q m" and r: "y XOR z = cmul r m"
    by (auto simp: cong_poly_def)
  have "x XOR z = (x XOR y) XOR (y XOR z)" by (simp add: xor.assoc)
  also have "\<dots> = cmul (q XOR r) m" by (simp add: q r cmul_xor_left)
  finally show ?thesis by (auto simp: cong_poly_def)
qed

lemma cong_poly_cmul:
  assumes "cong_poly m x y"
  shows "cong_poly m (cmul x c) (cmul y c)" and "cong_poly m (cmul c x) (cmul c y)"
proof -
  from assms obtain q where "x XOR y = cmul q m" by (auto simp: cong_poly_def)
  then have "cmul x c XOR cmul y c = cmul (cmul q c) m"
    by (metis cmul_assoc cmul_commute cmul_xor_left)
  then show "cong_poly m (cmul x c) (cmul y c)" by (auto simp: cong_poly_def)
  then show "cong_poly m (cmul c x) (cmul c y)" by (simp add: cmul_commute)
qed

lemma cong_poly_xor:
  assumes "cong_poly m x y" and "cong_poly m u v"
  shows "cong_poly m (x XOR u) (y XOR v)"
proof -
  from assms obtain q r where q: "x XOR y = cmul q m" and r: "u XOR v = cmul r m"
    by (auto simp: cong_poly_def)
  have "(x XOR u) XOR (y XOR v) = (x XOR y) XOR (u XOR v)" by (simp add: ac_simps)
  also have "\<dots> = cmul (q XOR r) m" by (simp add: q r cmul_xor_left)
  finally show ?thesis by (auto simp: cong_poly_def)
qed

lemma cong_poly_unique:
  assumes "cong_poly m x y" "x < 2 ^ n" "y < 2 ^ n" "bit m n" "m < 2 ^ Suc n"
  shows "x = y"
proof -
  from assms(1) obtain q where q: "x XOR y = cmul q m" by (auto simp: cong_poly_def)
  have "q = 0"
  proof (rule ccontr)
    assume "q \<noteq> 0"
    then obtain k where "bit q k" "q < 2 ^ Suc k" using top_bit_exists by auto
    then have "bit (x XOR y) (k + n)" using assms(4,5) unfolding q by (rule bit_cmul_top)
    moreover have "x XOR y < 2 ^ n" using assms(2,3) by (rule xor_less_power)
    ultimately show False using bit_nat_less by simp
  qed
  then show ?thesis using q by simp
qed

end
