(* ===== verification/Galois_Field.thy ===== *)
theory Galois_Field
  imports Ipa_Errors Gf2_Polynomials "HOL-Library.While_Combinator"
begin

text \<open>
  The binary fields of \<open>src/ff/galois_field.rs\<close>. The macro \<open>bit_array_impl!\<close> is the group of
  definitions \<open>gf_*\<close>; its arguments \<open>$bits\<close> and \<open>$polynomial\<close> are the record \<open>gf\<close>, its
  argument \<open>$store\<close> is the width of the word \<open>'w\<close> that holds an element (which may be wider
  than \<open>$bits\<close>). A value is canonical when it is below \<open>2 ^ BITS\<close>. The reduction loop of
  \<open>Mul::mul\<close> is a \<open>while_option\<close>, so that a loop that did not end would be \<open>None\<close>.
\<close>

record gf =
  gf_bits :: nat
  gf_poly :: u128

definition gf_into_u128 :: "'w::len word \<Rightarrow> u128" where
  "gf_into_u128 a = fold (\<lambda>i acc. acc + push_bit i (of_bool (bit a i))) [0..<LENGTH('w)] 0"

definition gf_mask :: "gf \<Rightarrow> u128" where
  "gf_mask G = drop_bit (128 - gf_bits G) (- 1)"

definition gf_truncate_from :: "gf \<Rightarrow> u128 \<Rightarrow> 'w::len word" where
  "gf_truncate_from G v = from_le_bytes (take (LENGTH('w) div 8) (to_le_bytes (v AND gf_mask G)))"

definition gf_try_from :: "gf \<Rightarrow> u128 \<Rightarrow> 'w::len word res" where
  "gf_try_from G v =
     (if bit_length v \<le> gf_bits G then Inr (gf_truncate_from G v)
      else Inl (FieldValueTruncation (gf_bits G) (unat v)))"

definition gf_add :: "'w::len word \<Rightarrow> 'w word \<Rightarrow> 'w word" where
  "gf_add a b = a XOR b"

definition gf_sub :: "'w::len word \<Rightarrow> 'w word \<Rightarrow> 'w word" where
  "gf_sub a b = gf_add a b"

definition gf_neg :: "'w::len word \<Rightarrow> 'w word" where
  "gf_neg a = a"

definition clmul :: "gf \<Rightarrow> 'w::len word \<Rightarrow> 'w word \<Rightarrow> u128" where
  "clmul G a b =
     (let a64 = ucast (gf_into_u128 a) :: u64; b64 = ucast (gf_into_u128 b) :: u64;
          a128 = ucast a64 :: u128
      in fold (\<lambda>i product. product XOR (ucast (drop_bit i b64 AND 1) * push_bit i a128))
           [0..<gf_bits G] 0)"

definition gf_reduce :: "gf \<Rightarrow> u128 \<Rightarrow> u128 option" where
  "gf_reduce G product =
     while_option (\<lambda>p. gf_bits G < bit_length p)
       (\<lambda>p. p XOR push_bit (leading_zeros (gf_poly G) - leading_zeros p) (gf_poly G)) product"

definition gf_mul :: "gf \<Rightarrow> 'w::len word \<Rightarrow> 'w word \<Rightarrow> 'w word res option" where
  "gf_mul G a b = map_option (gf_try_from G) (gf_reduce G (clmul G a b))"

definition gf_cmp_less :: "'w::len word \<Rightarrow> 'w word \<Rightarrow> bool" where
  "gf_cmp_less a b \<longleftrightarrow> gf_into_u128 a < gf_into_u128 b"

definition gf_serialize :: "'w::len word \<Rightarrow> u8 list" where
  "gf_serialize a = to_le_bytes a"

definition gf_deserialize :: "u8 list \<Rightarrow> 'w::len word" where
  "gf_deserialize buf = from_le_bytes buf"

text \<open>The expansions of the macro, with the width of their bit stores.\<close>

definition gf40bit :: gf where "gf40bit = \<lparr>gf_bits = 40, gf_poly = 0x1000000002D\<rparr>"
definition gf32bit :: gf where "gf32bit = \<lparr>gf_bits = 32, gf_poly = 0x10000008D\<rparr>"
definition gf20bit :: gf where "gf20bit = \<lparr>gf_bits = 20, gf_poly = 0x8008D\<rparr>"
definition gf8bit :: gf where "gf8bit = \<lparr>gf_bits = 8, gf_poly = 0x11B\<rparr>"
definition gf9bit :: gf where "gf9bit = \<lparr>gf_bits = 9, gf_poly = 0x21B\<rparr>"
definition gf5bit :: gf where "gf5bit = \<lparr>gf_bits = 5, gf_poly = 0x3F\<rparr>"
definition gf3bit :: gf where "gf3bit = \<lparr>gf_bits = 3, gf_poly = 0xB\<rparr>"
definition gf2 :: gf where "gf2 = \<lparr>gf_bits = 1, gf_poly = 2\<rparr>"

definition gf2_from_bool :: "bool \<Rightarrow> u8" where
  "gf2_from_bool value = (if value then set_bit 0 0 else unset_bit 0 0)"

subsection \<open>Conversions\<close>

lemma fold_add_bits:
  fixes a :: "'w::len word"
  assumes "n \<le> LENGTH('w)" and "LENGTH('w) \<le> 128"
  shows "fold (\<lambda>i acc. acc + push_bit i (of_bool (bit a i))) [0..<n] (0 :: u128)
    = ucast (take_bit n a)"
  using assms(1)
proof (induction n)
  case 0
  then show ?case by simp
next
  case (Suc n)
  have "(ucast (take_bit n a) :: u128) + push_bit n (of_bool (bit a n))
      = ucast (take_bit n a) OR push_bit n (of_bool (bit a n))"
    by (rule disjunctive_add) (auto simp: bit_take_bit_iff bit_push_bit_iff bit_unsigned_iff bit_of_bool_iff)
  also have "\<dots> = ucast (take_bit (Suc n) a)"
    using Suc.prems assms(2)
    by (intro bit_eqI)
       (auto simp: bit_or_iff bit_take_bit_iff bit_push_bit_iff bit_unsigned_iff bit_of_bool_iff
          less_Suc_eq)
  finally show ?case using Suc by simp
qed

lemma gf_into_u128_eq:
  fixes a :: "'w::len word"
  assumes "LENGTH('w) \<le> 128"
  shows "gf_into_u128 a = ucast a"
  using fold_add_bits [of "LENGTH('w)" a] assms by (simp add: gf_into_u128_def)

definition gf_ok :: "nat \<Rightarrow> gf \<Rightarrow> bool" where
  "gf_ok store G \<longleftrightarrow> 0 < gf_bits G \<and> gf_bits G \<le> store \<and> store \<le> 64 \<and> 8 dvd store
     \<and> gf_poly G \<noteq> 0 \<and> bit_length (gf_poly G) \<le> Suc (gf_bits G)"

lemma gf_mask_eq: "gf_bits G \<le> 128 \<Longrightarrow> gf_mask G = mask (gf_bits G)"
  by (rule bit_eqI) (auto simp: gf_mask_def bit_drop_bit_eq bit_mask_iff bit_minus_1_iff)

lemma unat_gf_truncate_from:
  assumes "gf_ok (LENGTH('w::len)) G"
  shows "unat (gf_truncate_from G v :: 'w word) = unat v mod 2 ^ gf_bits G"
proof -
  let ?n = "LENGTH('w) div 8"
  have ok: "8 * ?n = LENGTH('w)" "LENGTH('w) \<le> 64" "gf_bits G \<le> LENGTH('w)"
    using assms by (simp_all add: gf_ok_def)
  let ?v = "v AND gf_mask G"
  have v: "?v = take_bit (gf_bits G) v"
    using ok by (simp add: gf_mask_eq take_bit_eq_mask)
  have "take ?n (to_le_bytes ?v) = map (\<lambda>i. ucast (drop_bit (8 * i) (ucast ?v :: 'w word))) [0..<?n]"
    using ok by (auto simp: to_le_bytes_def take_map intro!: bit_eqI)
       (auto simp: bit_unsigned_iff bit_drop_bit_eq bit_and_iff)
  then have "gf_truncate_from G v = take_bit (8 * ?n) (ucast ?v :: 'w word)"
    by (simp add: gf_truncate_from_def from_le_bytes_of_bytes)
  also have "\<dots> = ucast ?v"
    using ok(1) by (simp add: take_bit_word_eq_self)
  finally have "gf_truncate_from G v = (ucast ?v :: 'w word)" .
  moreover have "unat ?v = unat v mod 2 ^ gf_bits G"
    unfolding v unsigned_take_bit_eq by (rule take_bit_eq_mod)
  moreover have "unat v mod 2 ^ gf_bits G < 2 ^ LENGTH('w)"
    using ok by (meson mod_less_divisor order_less_le_trans power_increasing one_le_numeral zero_less_numeral zero_less_power)
  ultimately show ?thesis by (simp add: unsigned_ucast_eq [of ?v] take_bit_nat_eq_self)
qed

lemma gf_try_from_iff:
  assumes "gf_ok (LENGTH('w::len)) G"
  shows "gf_try_from G v =
    (if unat v < 2 ^ gf_bits G then Inr (gf_truncate_from G v :: 'w word)
     else Inl (FieldValueTruncation (gf_bits G) (unat v)))"
  using assms by (simp add: gf_try_from_def gf_ok_def bit_length_le_iff_less)

subsection \<open>The carry-less product\<close>

lemma take_bit_Suc_xor:
  "take_bit (Suc n) (x :: nat) = take_bit n x XOR (if bit x n then 2 ^ n else 0)"
  by (rule bit_eqI) (auto simp: bit_take_bit_iff bit_xor_iff bit_exp_iff less_Suc_eq)

lemma unat_clmul_fold:
  fixes a :: u128 and b :: u64
  assumes "unat a < 2 ^ 64" and "n \<le> 64"
  shows "unat (fold (\<lambda>i product. product XOR (ucast (drop_bit i b AND 1) * push_bit i a)) [0..<n] 0)
    = cmul (take_bit n (unat b)) (unat a)"
  using assms(2)
proof (induction n)
  case 0
  then show ?case by simp
next
  case (Suc n)
  have "push_bit n (unat a) < 2 ^ 128"
  proof -
    have "unat a * 2 ^ n < 2 ^ 64 * 2 ^ 64"
      using assms(1) Suc.prems by (intro mult_less_le_imp_less power_increasing) auto
    then show ?thesis by (simp add: push_bit_eq_mult)
  qed
  then have push: "unat (push_bit n a) = push_bit n (unat a)"
    by (simp add: unsigned_push_bit_eq take_bit_nat_eq_self)
  have "drop_bit n b AND 1 = of_bool (bit b n)"
    by (simp add: and_one_eq mod_2_eq_odd bit_iff_odd_drop_bit)
  then have "unat (ucast (drop_bit n b AND 1) * push_bit n a)
      = (if bit (unat b) n then push_bit n (unat a) else 0)"
    using Suc.prems by (simp add: push bit_unsigned_iff)
  then show ?case
    using Suc by (simp add: unsigned_xor_eq take_bit_Suc_xor cmul_xor_left cmul_power2)
qed

lemma unat_clmul:
  fixes a b :: "'w::len word"
  assumes "gf_ok (LENGTH('w)) G" and "unat b < 2 ^ gf_bits G"
  shows "unat (clmul G a b) = cmul (unat b) (unat a)"
proof -
  have w: "LENGTH('w) \<le> 64" "gf_bits G \<le> 64" using assms(1) by (simp_all add: gf_ok_def)
  have cast: "ucast (gf_into_u128 x) = (ucast x :: u64)" for x :: "'w word"
    using w by (intro bit_eqI) (auto simp: gf_into_u128_eq bit_unsigned_iff)
  have "unat (ucast (ucast a :: u64) :: u128) = unat a" "unat (ucast b :: u64) = unat b"
    using w by (simp_all add: unat_ucast_up)
  moreover have "unat a < 2 ^ 64" using w(1) by (rule unat_less_power_up)
  ultimately show ?thesis
    using unat_clmul_fold [of "ucast (ucast a :: u64)" "gf_bits G" "ucast b"] w assms(2)
    by (simp add: clmul_def Let_def cast take_bit_nat_eq_self)
qed

subsection \<open>The reduction loop\<close>

text \<open>
  A product of more than \<open>BITS\<close> bits is reduced with the polynomial shifted so that their top
  bits meet. When the polynomial has \<open>BITS + 1\<close> bits this is reduction modulo it; when it is
  shorter, every shift is at least \<open>BITS + 1 - bit_length poly\<close>, and what the loop reduces
  modulo is the polynomial multiplied by that power of \<open>x\<close>.
\<close>

definition gf_modulus :: "gf \<Rightarrow> nat" where
  "gf_modulus G = push_bit (Suc (gf_bits G) - bit_length (gf_poly G)) (unat (gf_poly G))"

lemma bit_length_top:
  fixes w :: "'a::len word"
  assumes "w \<noteq> 0"
  shows "0 < bit_length w" and "bit w (bit_length w - 1)"
proof -
  obtain i where "bit w i" using assms by (auto simp: bit_eq_iff)
  then have "\<not> bit_length w \<le> 0"
    unfolding bit_length_le_iff by (auto dest: bit_imp_le_length)
  then show pos: "0 < bit_length w" by simp
  then have "\<not> bit_length w \<le> bit_length w - 1" by simp
  then obtain j where j: "bit w j" "bit_length w - 1 \<le> j"
    unfolding bit_length_le_iff by auto
  moreover have "j < bit_length w"
    using bit_length_le_iff [of w "bit_length w"] j(1) bit_imp_le_length by auto
  ultimately show "bit w (bit_length w - 1)"
    by (metis One_nat_def Suc_pred le_antisym less_Suc_eq_le pos)
qed

lemma bit_less_bit_length: "bit (w :: 'a::len word) i \<Longrightarrow> i < bit_length w"
  using bit_length_le_iff [of w "bit_length w"] bit_imp_le_length by auto

lemma leading_zeros_diff:
  "leading_zeros (p :: 'a::len word) - leading_zeros (q :: 'a word) = bit_length q - bit_length p"
  using leading_zeros_le [of p] leading_zeros_le [of q] by (simp add: bit_length_def)

lemma gf_reduce_step:
  fixes G p
  defines "s \<equiv> leading_zeros (gf_poly G) - leading_zeros p"
  defines "p' \<equiv> p XOR push_bit s (gf_poly G)"
  assumes "gf_poly G \<noteq> 0" and "bit_length (gf_poly G) \<le> Suc (gf_bits G)" and "gf_bits G < bit_length p"
  shows "bit_length p' < bit_length p" and "cong_poly (gf_modulus G) (unat p) (unat p')"
proof -
  let ?f = "gf_poly G" and ?L = "bit_length p"
  have s: "s = ?L - bit_length ?f" by (simp add: s_def leading_zeros_diff)
  have L: "bit_length ?f \<le> ?L" "?L \<le> 128"
    using assms(4,5) bit_length_le_LENGTH [of p] by simp_all
  have f: "0 < bit_length ?f" "bit ?f (bit_length ?f - 1)" using bit_length_top assms(3) by auto
  have "p \<noteq> 0" using assms(5) bit_length_le_iff [of p 0] by auto
  then have p: "bit p (?L - 1)" by (rule bit_length_top)
  have shift: "bit (push_bit s ?f) i \<Longrightarrow> i < ?L" for i
    using bit_less_bit_length [of ?f "i - s"] L s by (auto simp: bit_push_bit_iff)
  have idx: "?L - 1 - s = bit_length ?f - 1" "s \<le> ?L - 1" "?L - 1 < 128" "0 < ?L"
    using f(1) L s by linarith+
  have top: "bit (push_bit s ?f) (?L - 1)"
    unfolding bit_push_bit_iff idx(1) using f(2) idx(2,3) by simp
  have "bit_length p' \<le> ?L - 1"
    unfolding bit_length_le_iff p'_def bit_xor_iff
    using p top shift bit_less_bit_length [of p] idx(4)
    by (metis One_nat_def Suc_pred less_SucE)
  then show "bit_length p' < ?L" using idx(4) by simp
  have "unat ?f < 2 ^ bit_length ?f"
    by (rule nat_less_if_bits) (metis bit_less_bit_length bit_unsigned_iff not_less)
  then have "push_bit s (unat ?f) < 2 ^ bit_length ?f * 2 ^ s"
    by (simp add: push_bit_eq_mult)
  also have "\<dots> = 2 ^ ?L" using L(1) s by (simp flip: power_add)
  also have "\<dots> \<le> 2 ^ 128" using L(2) by (rule power_increasing) simp
  finally have "push_bit s (unat ?f) < 2 ^ 128" .
  then have "unat (push_bit s ?f) = push_bit s (unat ?f)"
    by (simp add: unsigned_push_bit_eq take_bit_nat_eq_self)
  moreover have "push_bit s (unat ?f) = cmul (2 ^ (s - (Suc (gf_bits G) - bit_length ?f))) (gf_modulus G)"
    using s assms(4,5) by (simp add: gf_modulus_def cmul_power2 push_bit_push_bit)
  ultimately have "unat p XOR unat p' = cmul (2 ^ (s - (Suc (gf_bits G) - bit_length ?f))) (gf_modulus G)"
    by (simp add: p'_def unsigned_xor_eq)
  then show "cong_poly (gf_modulus G) (unat p) (unat p')" by (auto simp: cong_poly_def)
qed

lemma gf_reduce_total:
  assumes "gf_poly G \<noteq> 0" and "bit_length (gf_poly G) \<le> Suc (gf_bits G)"
  shows "\<exists>t. gf_reduce G p = Some t \<and> cong_poly (gf_modulus G) (unat p) (unat t)
    \<and> bit_length t \<le> gf_bits G"
proof -
  note step = gf_reduce_step [OF assms]
  have "\<exists>t. gf_reduce G p = Some t"
    unfolding gf_reduce_def
    by (rule measure_while_option_Some [where P = "\<lambda>_. True" and f = bit_length]) (simp_all add: step)
  then obtain t where t: "gf_reduce G p = Some t" by blast
  moreover have "cong_poly (gf_modulus G) (unat p) (unat t)"
    by (rule while_option_rule [where P = "\<lambda>q. cong_poly (gf_modulus G) (unat p) (unat q)",
          OF _ t [unfolded gf_reduce_def]]) (auto intro: cong_poly_trans step)
  moreover have "bit_length t \<le> gf_bits G"
    using while_option_stop [OF t [unfolded gf_reduce_def]] by simp
  ultimately show ?thesis by blast
qed

lemma gf_mul_total:
  fixes a b :: "'w::len word"
  assumes "gf_ok (LENGTH('w)) G" and "unat b < 2 ^ gf_bits G"
  shows "\<exists>r. gf_mul G a b = Some (Inr r) \<and> unat r < 2 ^ gf_bits G
    \<and> cong_poly (gf_modulus G) (cmul (unat a) (unat b)) (unat r)"
proof -
  have G: "gf_poly G \<noteq> 0" "bit_length (gf_poly G) \<le> Suc (gf_bits G)" "gf_bits G < 128"
    using assms(1) by (auto simp: gf_ok_def)
  obtain t where t: "gf_reduce G (clmul G a b) = Some t" "bit_length t \<le> gf_bits G"
      "cong_poly (gf_modulus G) (unat (clmul G a b)) (unat t)"
    using gf_reduce_total [OF G(1,2)] by blast
  have less: "unat t < 2 ^ gf_bits G" using t(2) G(3) by (simp add: bit_length_le_iff_less)
  then have "unat (gf_truncate_from G t :: 'w word) = unat t"
    using assms(1) by (simp add: unat_gf_truncate_from)
  moreover have "gf_mul G a b = Some (Inr (gf_truncate_from G t))"
    using assms(1) t(1) less by (simp add: gf_mul_def gf_try_from_iff)
  ultimately show ?thesis
    using less t(3) unat_clmul [OF assms] by (simp add: cmul_commute)
qed

subsection \<open>Ring laws\<close>

lemma gf_modulus_top:
  assumes "gf_ok n G"
  shows "bit (gf_modulus G) (gf_bits G)" and "gf_modulus G < 2 ^ Suc (gf_bits G)"
proof -
  let ?f = "gf_poly G" and ?d = "Suc (gf_bits G) - bit_length (gf_poly G)"
  have L: "?f \<noteq> 0" "bit_length ?f \<le> Suc (gf_bits G)" using assms by (simp_all add: gf_ok_def)
  have f: "0 < bit_length ?f" "bit ?f (bit_length ?f - 1)" using L(1) by (rule bit_length_top)+
  have idx: "gf_bits G - ?d = bit_length ?f - 1" "?d \<le> gf_bits G" using f(1) L(2) by linarith+
  show "bit (gf_modulus G) (gf_bits G)"
    unfolding gf_modulus_def bit_push_bit_iff idx(1) using f(2) idx(2)
    by (simp add: bit_unsigned_iff bit_imp_le_length)
  show "gf_modulus G < 2 ^ Suc (gf_bits G)"
  proof (rule nat_less_if_bits)
    fix i assume "Suc (gf_bits G) \<le> i"
    then show "\<not> bit (gf_modulus G) i"
      using bit_less_bit_length [of ?f "i - ?d"] L(2)
      by (auto simp: gf_modulus_def bit_push_bit_iff bit_unsigned_iff)
  qed
qed

lemma gf_mul_eqI:
  fixes a b r :: "'w::len word"
  assumes "gf_ok (LENGTH('w)) G" and "unat b < 2 ^ gf_bits G" and "unat r < 2 ^ gf_bits G"
    and "cong_poly (gf_modulus G) (cmul (unat a) (unat b)) (unat r)"
  shows "gf_mul G a b = Some (Inr r)"
proof -
  obtain r' where r': "gf_mul G a b = Some (Inr r')" "unat r' < 2 ^ gf_bits G"
      "cong_poly (gf_modulus G) (cmul (unat a) (unat b)) (unat r')"
    using gf_mul_total [OF assms(1,2)] by blast
  have "cong_poly (gf_modulus G) (unat r) (unat r')"
    using assms(4) r'(3) by (blast intro: cong_poly_trans cong_poly_sym)
  then have "unat r = unat r'"
    using assms(3) r'(2) gf_modulus_top [OF assms(1)] by (rule cong_poly_unique)
  with r'(1) show ?thesis by (simp add: word_unat_eq_iff)
qed

lemma gf_mul_eq_zeroI:
  fixes a b :: "'w::len word"
  assumes "gf_ok (LENGTH('w)) G" and "unat b < 2 ^ gf_bits G"
    and "cmul (unat a) (unat b) = gf_modulus G"
  shows "gf_mul G a b = Some (Inr 0)"
  using assms
  by (intro gf_mul_eqI) (auto simp: cong_poly_def intro: exI [of _ "Suc 0"])

lemma bit_length_eqI:
  fixes w :: "'a::len word"
  assumes "0 < k" and "k < LENGTH('a)" and "unat w < 2 ^ k" and "2 ^ (k - 1) \<le> unat w"
  shows "bit_length w = k"
proof -
  have "bit_length w \<le> k" "\<not> bit_length w \<le> k - 1"
    using bit_length_le_iff_less [of k w] bit_length_le_iff_less [of "k - 1" w] assms by simp_all
  then show ?thesis by linarith
qed

lemma gf_params_ok:
  "gf_ok 40 gf40bit" "gf_ok 32 gf32bit" "gf_ok 24 gf20bit" "gf_ok 8 gf8bit" "gf_ok 16 gf9bit"
  "gf_ok 8 gf5bit" "gf_ok 8 gf3bit" "gf_ok 8 gf2"
  by (simp_all add: gf_ok_def bit_length_le_iff_less gf40bit_def gf32bit_def gf20bit_def gf8bit_def
      gf9bit_def gf5bit_def gf3bit_def gf2_def)

lemma gf_mul_laws:
  fixes a b c :: "'w::len word"
  assumes "gf_ok (LENGTH('w)) G"
    and "unat a < 2 ^ gf_bits G" and "unat b < 2 ^ gf_bits G" and "unat c < 2 ^ gf_bits G"
  shows "\<exists>ab bc ac abc. gf_mul G a b = Some (Inr ab) \<and> unat ab < 2 ^ gf_bits G
    \<and> gf_mul G b a = Some (Inr ab)
    \<and> gf_mul G b c = Some (Inr bc) \<and> gf_mul G ab c = Some (Inr abc) \<and> gf_mul G a bc = Some (Inr abc)
    \<and> gf_mul G a c = Some (Inr ac) \<and> gf_mul G a (gf_add b c) = Some (Inr (gf_add ab ac))
    \<and> gf_mul G a 1 = Some (Inr a)"
proof -
  note mul = gf_mul_total [OF assms(1)] and eqI = gf_mul_eqI [OF assms(1)]
  obtain ab where ab: "gf_mul G a b = Some (Inr ab)" "unat ab < 2 ^ gf_bits G"
      "cong_poly (gf_modulus G) (cmul (unat a) (unat b)) (unat ab)"
    using mul [OF assms(3), of a] by blast
  obtain bc where bc: "gf_mul G b c = Some (Inr bc)" "unat bc < 2 ^ gf_bits G"
      "cong_poly (gf_modulus G) (cmul (unat b) (unat c)) (unat bc)"
    using mul [OF assms(4), of b] by blast
  obtain ac where ac: "gf_mul G a c = Some (Inr ac)" "unat ac < 2 ^ gf_bits G"
      "cong_poly (gf_modulus G) (cmul (unat a) (unat c)) (unat ac)"
    using mul [OF assms(4), of a] by blast
  obtain abc where abc: "gf_mul G ab c = Some (Inr abc)" "unat abc < 2 ^ gf_bits G"
      "cong_poly (gf_modulus G) (cmul (unat ab) (unat c)) (unat abc)"
    using mul [OF assms(4), of ab] by blast
  have "gf_mul G b a = Some (Inr ab)"
    using ab(3) by (intro eqI [OF assms(2) ab(2)]) (simp add: cmul_commute)
  moreover have "gf_mul G a bc = Some (Inr abc)"
  proof (rule eqI [OF bc(2) abc(2)])
    have "cong_poly (gf_modulus G) (cmul (unat a) (unat bc)) (cmul (unat a) (cmul (unat b) (unat c)))"
      by (rule cong_poly_cmul(2) [OF cong_poly_sym [OF bc(3)]])
    moreover have "cong_poly (gf_modulus G) (cmul (unat a) (cmul (unat b) (unat c))) (cmul (unat ab) (unat c))"
      using cong_poly_cmul(1) [OF ab(3)] by (simp add: cmul_assoc)
    ultimately show "cong_poly (gf_modulus G) (cmul (unat a) (unat bc)) (unat abc)"
      using abc(3) by (blast intro: cong_poly_trans)
  qed
  moreover have "gf_mul G a (gf_add b c) = Some (Inr (gf_add ab ac))"
    using xor_less_power [OF assms(3,4)] xor_less_power [OF ab(2) ac(2)] cong_poly_xor [OF ab(3) ac(3)]
    by (intro eqI) (simp_all add: gf_add_def unsigned_xor_eq cmul_xor_right)
  moreover have "gf_mul G a 1 = Some (Inr a)"
    using assms(1) one_less_power [of "2 :: nat" "gf_bits G"]
    by (intro eqI assms(2)) (simp_all add: gf_ok_def)
  ultimately show ?thesis using ab(1,2) bc(1) ac(1) abc(1) by blast
qed



text \<open>C15: Three of the expansions are not fields, because the polynomial they reduce by is not
  irreducible: \<open>Gf5Bit\<close>, \<open>Gf20Bit\<close> (whose polynomial has degree 19, not 20 as its comment says)
  and \<open>Gf40Bit\<close> each have two non-zero elements whose product is zero.\<close>

theorem gf_zero_divisors:
  "gf_mul gf5bit (3 :: 8 word) 21 = Some (Inr 0)
    \<and> bit_length (gf_poly gf20bit) = 20 \<and> gf_mul gf20bit (2 :: 24 word) 0x8008D = Some (Inr 0)
    \<and> gf_mul gf40bit (0xD :: 40 word) 0x3A74E9D3A1 = Some (Inr 0)"
proof (intro conjI)
  have len5: "bit_length (gf_poly gf5bit) = 6" and len40: "bit_length (gf_poly gf40bit) = 41"
    by (rule bit_length_eqI; simp add: gf5bit_def gf40bit_def)+
  show len20: "bit_length (gf_poly gf20bit) = 20"
    by (rule bit_length_eqI) (simp_all add: gf20bit_def)
  show "gf_mul gf5bit (3 :: 8 word) 21 = Some (Inr 0)"
    using gf_params_ok(6) len5
    by (intro gf_mul_eq_zeroI) (simp_all add: gf5bit_def gf_modulus_def cmul.simps)
  show "gf_mul gf20bit (2 :: 24 word) 0x8008D = Some (Inr 0)"
    using gf_params_ok(3) len20
    by (intro gf_mul_eq_zeroI) (simp_all add: gf20bit_def gf_modulus_def cmul.simps)
  show "gf_mul gf40bit (0xD :: 40 word) 0x3A74E9D3A1 = Some (Inr 0)"
    using gf_params_ok(1) len40
    by (intro gf_mul_eq_zeroI) (simp_all add: gf40bit_def gf_modulus_def cmul.simps)
qed

lemma length_gf_serialize: "length (gf_serialize (a :: 'w::len word)) = LENGTH('w) div 8"
  by (simp add: gf_serialize_def)

lemma gf_deserialize_serialize:
  fixes a :: "'w::len word"
  assumes "8 dvd LENGTH('w)"
  shows "gf_deserialize (gf_serialize a) = a"
proof -
  have "gf_deserialize (gf_serialize a) = take_bit (8 * (LENGTH('w) div 8)) a"
    by (simp add: gf_deserialize_def gf_serialize_def to_le_bytes_def from_le_bytes_of_bytes)
  then show ?thesis using assms by (simp add: take_bit_word_eq_self)
qed

text \<open>C16: Serialisation of a Galois field element is a bijection between bit stores and buffers
  of the store's size: reading back what was written gives the element, writing what was read
  gives the buffer. In particular reading does not clear the store's unused high bits, so a
  buffer whose unused bits are set yields a value that is not canonical.\<close>

theorem gf_serde_bijection:
  fixes a :: "'w::len word" and buf :: "u8 list"
  assumes "8 dvd LENGTH('w)" and "length buf = LENGTH('w) div 8"
  shows "gf_deserialize (gf_serialize a) = a
    \<and> gf_serialize (gf_deserialize buf :: 'w word) = buf"
proof -
  let ?n = "LENGTH('w) div 8"
  have n: "8 * ?n = LENGTH('w)" using assms(1) by simp
  have 1: "gf_deserialize (gf_serialize a) = a"
    using assms(1) by (rule gf_deserialize_serialize)
  have nth: "to_le_bytes (from_le_bytes bs :: 'w word) ! i = bs ! i"
    if "i < length bs" "length bs \<le> ?n" for bs i
  proof -
    have "ucast (drop_bit (8 * i) (from_le_bytes bs :: 'w word)) = bs ! i"
      using that
    proof (induction bs arbitrary: i)
      case (Cons b bs)
      have w: "8 \<le> LENGTH('w)" using Cons.prems n by (cases ?n) auto
      show ?case
      proof (cases i)
        case 0
        then show ?thesis using w
          by (intro bit_eqI) (auto simp: from_le_bytes_Cons bit_unsigned_iff bit_or_iff bit_push_bit_iff)
      next
        case (Suc j)
        have "drop_bit (8 * i) (ucast b OR push_bit 8 (from_le_bytes bs :: 'w word))
          = drop_bit (8 * j) (take_bit (LENGTH('w) - 8) (from_le_bytes bs))"
          unfolding Suc
          by (intro bit_eqI)
             (auto simp: bit_drop_bit_eq bit_or_iff bit_push_bit_iff bit_unsigned_iff bit_take_bit_iff
                   dest: bit_imp_le_length)
        moreover have "take_bit (LENGTH('w) - 8) (from_le_bytes bs :: 'w word) = from_le_bytes bs"
        proof -
          have "8 * length bs < LENGTH('w)" "8 * length bs \<le> LENGTH('w) - 8"
            using Cons.prems n by auto
          then have "unat (from_le_bytes bs :: 'w word) < 2 ^ (LENGTH('w) - 8)"
            using unat_from_le_bytes_less [of bs, where 'a = 'w]
            by (meson order_less_le_trans one_le_numeral power_increasing)
          then show ?thesis
            by (metis take_bit_nat_eq_self unsigned_take_bit_eq unsigned_word_eqI)
        qed
        ultimately show ?thesis
          using Cons.IH [of j] Cons.prems Suc by (simp add: from_le_bytes_Cons)
      qed
    qed simp
    with that show ?thesis by (simp add: to_le_bytes_def)
  qed
  have "gf_serialize (gf_deserialize buf :: 'w word) = buf"
    unfolding gf_serialize_def gf_deserialize_def
    using assms(2) nth by (intro nth_equalityI) simp_all
  with 1 show ?thesis by simp
qed

theorem gf_serde_bijection_witness:
  "gf_deserialize (gf_serialize (0x1F :: 8 word)) = (0x1F :: 8 word)
    \<and> gf_serialize (gf_deserialize [255] :: 8 word) = [255]
    \<and> \<not> unat (gf_deserialize [255] :: 8 word) < 2 ^ gf_bits gf5bit"
  using gf_serde_bijection [of "[255]" "0x1F :: 8 word"]
  by (simp add: gf_deserialize_def from_le_bytes_def gf5bit_def)

end
