(* ===== verification/Secret_Sharing.thy ===== *)
theory Secret_Sharing
  imports Helpers Prime_Field Galois_Field
begin

text \<open>
  Replicated secret sharing, \<open>src/secret_sharing/\<close>. One helper holds an \<open>AdditiveShare\<close>, a pair
  of a left and a right value. A sharing is what the three helpers hold together, a function
  from roles to shares; it is \<open>consistent\<close> when the right value of every helper is the left
  value of its right neighbour, and then the shared secret is the sum of the three left values
  (\<open>reconstruct\<close>). Malicious shares pair a share of \<open>x\<close> with one of \<open>r * x\<close>.
\<close>

subsection \<open>Semi-honest shares\<close>

datatype 'v AdditiveShare = AdditiveShare (left: 'v) (right: 'v)

definition share_zero :: "'v::ab_group_add AdditiveShare" where
  "share_zero = AdditiveShare 0 0"

definition share_add :: "'v::ab_group_add AdditiveShare \<Rightarrow> 'v AdditiveShare \<Rightarrow> 'v AdditiveShare" where
  "share_add s t = AdditiveShare (left s + left t) (right s + right t)"

definition share_neg :: "'v::ab_group_add AdditiveShare \<Rightarrow> 'v AdditiveShare" where
  "share_neg s = AdditiveShare (- left s) (- right s)"

definition share_sub :: "'v::ab_group_add AdditiveShare \<Rightarrow> 'v AdditiveShare \<Rightarrow> 'v AdditiveShare" where
  "share_sub s t = AdditiveShare (left s - left t) (right s - right t)"

definition share_mul :: "'v::comm_ring_1 AdditiveShare \<Rightarrow> 'v \<Rightarrow> 'v AdditiveShare" where
  "share_mul s c = AdditiveShare (left s * c) (right s * c)"

lemmas share_op_defs = share_zero_def share_add_def share_neg_def share_sub_def share_mul_def

instantiation AdditiveShare :: (ab_group_add) ab_group_add
begin

definition zero_AdditiveShare :: "'a AdditiveShare" where "zero_AdditiveShare = share_zero"

definition plus_AdditiveShare :: "'a AdditiveShare \<Rightarrow> 'a AdditiveShare \<Rightarrow> 'a AdditiveShare"
  where "plus_AdditiveShare = share_add"

definition minus_AdditiveShare :: "'a AdditiveShare \<Rightarrow> 'a AdditiveShare \<Rightarrow> 'a AdditiveShare"
  where "minus_AdditiveShare = share_sub"

definition uminus_AdditiveShare :: "'a AdditiveShare \<Rightarrow> 'a AdditiveShare"
  where "uminus_AdditiveShare = share_neg"

instance
  by standard
     (auto simp: zero_AdditiveShare_def plus_AdditiveShare_def minus_AdditiveShare_def
        uminus_AdditiveShare_def share_op_defs ac_simps intro: AdditiveShare.expand)

end

lemma AdditiveShare_sel_ops [simp, share_simps]:
  "left 0 = 0" "right 0 = 0"
  "left (s + t) = left s + left t" "right (s + t) = right s + right t"
  "left (s - t) = left s - left t" "right (s - t) = right s - right t"
  "left (- s) = - left s" "right (- s) = - right s"
  "left (share_mul u c) = left u * c" "right (share_mul u c) = right u * c"
  by (simp_all add: zero_AdditiveShare_def plus_AdditiveShare_def minus_AdditiveShare_def
      uminus_AdditiveShare_def share_op_defs)

subsection \<open>Sharings of the three helpers\<close>

type_synonym 's world = "role \<Rightarrow> 's"

text \<open>\<open>IntoShares::share_with\<close>, with the two random values drawn from the generator as
  arguments.\<close>

fun share_with :: "'v::ab_group_add \<Rightarrow> 'v \<Rightarrow> 'v \<Rightarrow> 'v AdditiveShare world" where
  "share_with v x1 x2 H1 = AdditiveShare x1 x2"
| "share_with v x1 x2 H2 = AdditiveShare x2 (v - (x1 + x2))"
| "share_with v x1 x2 H3 = AdditiveShare (v - (x1 + x2)) x1"

definition consistent :: "'v AdditiveShare world \<Rightarrow> bool" where
  "consistent s \<longleftrightarrow> right (s H1) = left (s H2) \<and> right (s H2) = left (s H3) \<and> right (s H3) = left (s H1)"

definition reconstruct :: "'v::ab_group_add AdditiveShare world \<Rightarrow> 'v" where
  "reconstruct s = left (s H1) + left (s H2) + left (s H3)"

text \<open>The checked reconstruction: an assertion fails when the three shares do not fit.\<close>

definition reconstruct_checked :: "'v::ab_group_add AdditiveShare world \<Rightarrow> 'v res" where
  "reconstruct_checked s =
     (if left (s H1) + left (s H2) + left (s H3) \<noteq> right (s H1) + right (s H2) + right (s H3) then Inl Panic
      else if right (s H1) \<noteq> left (s H2) then Inl Panic
      else if right (s H2) \<noteq> left (s H3) then Inl Panic
      else if right (s H3) \<noteq> left (s H1) then Inl Panic
      else Inr (left (s H1) + left (s H2) + left (s H3)))"

lemma consistent_alt: "consistent s \<longleftrightarrow> (\<forall>r. right (s r) = left (s (peer r Right)))"
  by (simp add: consistent_def role_all)

lemma consistentD: "consistent s \<Longrightarrow> right (s r) = left (s (peer r Right))"
  by (simp add: consistent_alt)

lemma reconstruct_rotate:
  "reconstruct s = left (s r) + left (s (peer r Right)) + left (s (peer r Left))"
  by (cases r) (simp_all add: reconstruct_def ac_simps)

lemma reconstruct_checked_eq: "consistent s \<Longrightarrow> reconstruct_checked s = Inr (reconstruct s)"
  by (simp add: reconstruct_checked_def consistent_def reconstruct_def ac_simps)

lemma reconstruct_checked_iff: "(\<exists>v. reconstruct_checked s = Inr v) \<longleftrightarrow> consistent s"
  by (auto simp: reconstruct_checked_def consistent_def ac_simps)

lemma reconstruct_share_with [simp]: "reconstruct (share_with v x1 x2) = v"
  by (simp add: reconstruct_def)

lemma consistent_share_with [simp]: "consistent (share_with v x1 x2)"
  by (simp add: consistent_def)

lemma consistent_ops [simp, intro]:
  "consistent (\<lambda>_. 0)"
  "consistent s \<Longrightarrow> consistent t \<Longrightarrow> consistent (\<lambda>r. s r + t r)"
  "consistent s \<Longrightarrow> consistent t \<Longrightarrow> consistent (\<lambda>r. s r - t r)"
  "consistent s \<Longrightarrow> consistent (\<lambda>r. - s r)"
  "consistent u \<Longrightarrow> consistent (\<lambda>r. share_mul (u r) c)"
  by (simp_all add: consistent_def)

lemma reconstruct_ops [simp]:
  "reconstruct (\<lambda>_. 0) = 0"
  "reconstruct (\<lambda>r. s r + t r) = reconstruct s + reconstruct t"
  "reconstruct (\<lambda>r. s r - t r) = reconstruct s - reconstruct t"
  "reconstruct (\<lambda>r. - s r) = - reconstruct s"
  "reconstruct (\<lambda>r. share_mul (u r) c) = reconstruct u * c"
  by (simp_all add: reconstruct_def algebra_simps)

subsection \<open>Malicious shares\<close>

datatype ('v, 'e) MaliciousShare = MaliciousShare (x_share: "'v AdditiveShare") (rx_share: "'e AdditiveShare")

definition mal_zero :: "('v::ab_group_add, 'e::ab_group_add) MaliciousShare" where
  "mal_zero = MaliciousShare share_zero share_zero"

definition mal_add :: "('v::ab_group_add, 'e::ab_group_add) MaliciousShare \<Rightarrow> ('v, 'e) MaliciousShare \<Rightarrow> ('v, 'e) MaliciousShare" where
  "mal_add s t = MaliciousShare (x_share s + x_share t) (rx_share s + rx_share t)"

definition mal_neg :: "('v::ab_group_add, 'e::ab_group_add) MaliciousShare \<Rightarrow> ('v, 'e) MaliciousShare" where
  "mal_neg s = MaliciousShare (- x_share s) (- rx_share s)"

definition mal_sub :: "('v::ab_group_add, 'e::ab_group_add) MaliciousShare \<Rightarrow> ('v, 'e) MaliciousShare \<Rightarrow> ('v, 'e) MaliciousShare" where
  "mal_sub s t = MaliciousShare (x_share s - x_share t) (rx_share s - rx_share t)"

text \<open>\<open>to_extended\<close> of the trait \<open>ExtendableField\<close> is the argument \<open>ext\<close>; on prime fields it is
  the identity.\<close>

definition mal_mul :: "('v \<Rightarrow> 'e) \<Rightarrow> ('v::comm_ring_1, 'e::comm_ring_1) MaliciousShare \<Rightarrow> 'v \<Rightarrow> ('v, 'e) MaliciousShare" where
  "mal_mul ext s c = MaliciousShare (share_mul (x_share s) c) (share_mul (rx_share s) (ext c))"

definition downgrade :: "('v, 'e) MaliciousShare \<Rightarrow> 'v AdditiveShare" where
  "downgrade s = x_share s"

lemmas mal_op_defs = mal_zero_def mal_add_def mal_neg_def mal_sub_def mal_mul_def

instantiation MaliciousShare :: (ab_group_add, ab_group_add) ab_group_add
begin

definition zero_MaliciousShare :: "('a, 'b) MaliciousShare" where "zero_MaliciousShare = mal_zero"

definition plus_MaliciousShare :: "('a, 'b) MaliciousShare \<Rightarrow> ('a, 'b) MaliciousShare \<Rightarrow> ('a, 'b) MaliciousShare"
  where "plus_MaliciousShare = mal_add"

definition minus_MaliciousShare :: "('a, 'b) MaliciousShare \<Rightarrow> ('a, 'b) MaliciousShare \<Rightarrow> ('a, 'b) MaliciousShare"
  where "minus_MaliciousShare = mal_sub"

definition uminus_MaliciousShare :: "('a, 'b) MaliciousShare \<Rightarrow> ('a, 'b) MaliciousShare"
  where "uminus_MaliciousShare = mal_neg"

instance
  by standard
     (auto simp: zero_MaliciousShare_def plus_MaliciousShare_def minus_MaliciousShare_def
        uminus_MaliciousShare_def mal_op_defs share_zero_def zero_AdditiveShare_def [symmetric]
        plus_AdditiveShare_def share_add_def ac_simps
        intro: MaliciousShare.expand AdditiveShare.expand)

end

lemma MaliciousShare_sel_ops [simp, share_simps]:
  "x_share 0 = 0" "rx_share 0 = 0"
  "x_share (s + t) = x_share s + x_share t" "rx_share (s + t) = rx_share s + rx_share t"
  "x_share (s - t) = x_share s - x_share t" "rx_share (s - t) = rx_share s - rx_share t"
  "x_share (- s) = - x_share s" "rx_share (- s) = - rx_share s"
  "x_share (mal_mul ext u c) = share_mul (x_share u) c"
  "rx_share (mal_mul ext u c) = share_mul (rx_share u) (ext c)"
  by (simp_all add: zero_MaliciousShare_def plus_MaliciousShare_def minus_MaliciousShare_def
      uminus_MaliciousShare_def mal_op_defs zero_AdditiveShare_def)

subsection \<open>Bit decompositions\<close>

text \<open>\<open>BitDecomposed\<close> wraps a vector of at most \<open>MAX\<close> bits, least significant first.\<close>

type_synonym 's BitDecomposed = "'s list"

definition BitDecomposed_MAX :: nat where "BitDecomposed_MAX = 64"

definition bd_new :: "'s list \<Rightarrow> 's BitDecomposed res" where
  "bd_new bits = (if length bits \<le> BitDecomposed_MAX then Inr bits else Inl Panic)"

definition bd_try_from :: "'s list \<Rightarrow> 's BitDecomposed res" where
  "bd_try_from bits = (if length bits \<le> BitDecomposed_MAX then Inr bits else Inl Internal)"

text \<open>The counter is converted to \<open>u8\<close>, which panics from 256 on.\<close>

definition bd_decompose :: "nat \<Rightarrow> (nat \<Rightarrow> 's) \<Rightarrow> 's BitDecomposed res" where
  "bd_decompose n f =
     (if n \<ge> 256 then Inl Panic
      else if n > BitDecomposed_MAX then Inl Panic
      else case bd_try_from (map f [0..<n]) of Inl _ \<Rightarrow> Inl Panic | Inr b \<Rightarrow> Inr b)"

text \<open>\<open>Vec::with_capacity(self.len() - idx)\<close> underflows, and panics, when \<open>idx\<close> exceeds the length.\<close>

definition bd_split_at :: "'s BitDecomposed \<Rightarrow> nat \<Rightarrow> ('s BitDecomposed \<times> 's BitDecomposed) res" where
  "bd_split_at bits idx =
     (if idx > length bits then Inl Panic
      else bind_res (bd_new (map snd (filter (\<lambda>(i, b). i < idx) (enumerate 0 bits)))) (\<lambda>l.
           bind_res (bd_new (map snd (filter (\<lambda>(i, b). \<not> i < idx) (enumerate 0 bits)))) (\<lambda>r.
           Inr (l, r))))"

end
