(* ===== verification/Prss.thy ===== *)
theory Prss
  imports Secret_Sharing
begin

text \<open>
  Gates and pseudo-random secret sharing, \<open>src/protocol/step/descriptive.rs\<close> and
  \<open>src/protocol/prss/\<close>. The primitives of the crates \<open>x25519-dalek\<close>, \<open>hkdf\<close> and \<open>aes\<close> are
  the fields of the record \<open>crypto\<close>; the one documented law that
  the code relies on is that both ends of a Diffie-Hellman exchange compute the same secret.
  The three helpers then draw the same value from the generator that two neighbours share,
  which is what the sharings of the protocols are built from.
\<close>

subsection \<open>Gates\<close>

type_synonym gate = string

definition default_gate :: gate where "default_gate = ''protocol''"

definition narrow :: "gate \<Rightarrow> string \<Rightarrow> gate" where
  "narrow g step = g @ ''/'' @ step"

text \<open>The debug assertion of \<open>narrow\<close>.\<close>

definition narrow_checked :: "gate \<Rightarrow> string \<Rightarrow> gate res" where
  "narrow_checked g step = (if CHR ''/'' \<in> set step then Inl Panic else Inr (narrow g step))"

definition gate_from_str :: "string \<Rightarrow> gate" where
  "gate_from_str s = (case s of [] \<Rightarrow> [] | c # cs \<Rightarrow> if c = CHR ''/'' then cs else s)"

text \<open>The decimal digits of an index, and the name of a dynamic step.\<close>

definition digit :: "nat \<Rightarrow> char" where
  "digit n = char_of (48 + n)"

fun show_nat :: "nat \<Rightarrow> string" where
  "show_nat n = (if n < 10 then [digit n] else show_nat (n div 10) @ [digit (n mod 10)])"

declare show_nat.simps [simp del]

definition bit_op_step :: "nat \<Rightarrow> string" where
  "bit_op_step i = ''bit'' @ show_nat i"

subsection \<open>Key exchange and generators\<close>

record ('sk, 'pk, 'secret, 'key) crypto =
  public_key_of :: "'sk \<Rightarrow> 'pk"
  diffie_hellman :: "'sk \<Rightarrow> 'pk \<Rightarrow> 'secret"
  hkdf_expand :: "'secret \<Rightarrow> string \<Rightarrow> 'key"
  encrypt_block :: "'key \<Rightarrow> u8 list \<Rightarrow> u8 list"

definition key_exchange :: "('sk, 'pk, 'secret, 'key) crypto \<Rightarrow> 'sk \<Rightarrow> 'pk \<Rightarrow> 'secret res" where
  "key_exchange cr sk pk =
     (if pk = public_key_of cr sk then Inl Panic else Inr (diffie_hellman cr sk pk))"

definition generator :: "('sk, 'pk, 'secret, 'key) crypto \<Rightarrow> 'secret \<Rightarrow> gate \<Rightarrow> 'key" where
  "generator cr secret context = hkdf_expand cr secret context"

definition generate :: "('sk, 'pk, 'secret, 'key) crypto \<Rightarrow> 'key \<Rightarrow> u128 \<Rightarrow> u128" where
  "generate cr key index =
     from_le_bytes (encrypt_block cr key (to_le_bytes index)) XOR index"

subsection \<open>Endpoints\<close>

record 'key indexed_randomness =
  gen_left :: 'key
  gen_right :: 'key
  used :: "nat set"

datatype 'key endpoint_item = Indexed "'key indexed_randomness" | Sequential

record ('secret, 'key) endpoint =
  ep_left :: 'secret
  ep_right :: 'secret
  ep_items :: "gate \<rightharpoonup> 'key endpoint_item"

record 'sk endpoint_setup =
  setup_left :: 'sk
  setup_right :: 'sk

definition public_keys :: "('sk, 'pk, 'secret, 'key) crypto \<Rightarrow> 'sk endpoint_setup \<Rightarrow> 'pk \<times> 'pk" where
  "public_keys cr s = (public_key_of cr (setup_left s), public_key_of cr (setup_right s))"

definition setup_endpoint ::
  "('sk, 'pk, 'secret, 'key) crypto \<Rightarrow> 'sk endpoint_setup \<Rightarrow> 'pk \<Rightarrow> 'pk \<Rightarrow> ('secret, 'key) endpoint res" where
  "setup_endpoint cr s left_pk right_pk =
     bind_res (key_exchange cr (setup_left s) left_pk) (\<lambda>fl.
     bind_res (key_exchange cr (setup_right s) right_pk) (\<lambda>fr.
     Inr \<lparr>ep_left = fl, ep_right = fr, ep_items = Map.empty\<rparr>))"

text \<open>\<open>negotiate\<close> of \<open>src/helpers/prss_protocol.rs\<close> on the three helpers: each sends its two public
  keys to its two neighbours.\<close>

definition negotiate ::
  "('sk, 'pk, 'secret, 'key) crypto \<Rightarrow> 'sk endpoint_setup world \<Rightarrow> role \<Rightarrow> ('secret, 'key) endpoint res" where
  "negotiate cr setups r =
     (let recv_left_pk = snd (public_keys cr (setups (peer r Left)));
          recv_right_pk = fst (public_keys cr (setups (peer r Right)))
      in setup_endpoint cr (setups r) recv_left_pk recv_right_pk)"

definition ep_indexed ::
  "('sk, 'pk, 'secret, 'key) crypto \<Rightarrow> ('secret, 'key) endpoint \<Rightarrow> gate \<Rightarrow>
     ('secret, 'key) endpoint \<times> 'key indexed_randomness res" where
  "ep_indexed cr ep key =
     (let ep' = (case ep_items ep key of
          Some _ \<Rightarrow> ep
        | None \<Rightarrow> ep\<lparr>ep_items := (ep_items ep)(key \<mapsto>
            Indexed \<lparr>gen_left = generator cr (ep_left ep) key, gen_right = generator cr (ep_right ep) key,
                     used = {}\<rparr>)\<rparr>)
      in (ep', case ep_items ep' key of Some (Indexed idxd) \<Rightarrow> Inr idxd | _ \<Rightarrow> Inl Panic))"

definition ep_sequential ::
  "('sk, 'pk, 'secret, 'key) crypto \<Rightarrow> ('secret, 'key) endpoint \<Rightarrow> gate \<Rightarrow>
     ('secret, 'key) endpoint \<times> ('key \<times> 'key) res" where
  "ep_sequential cr ep key =
     (ep\<lparr>ep_items := (ep_items ep)(key \<mapsto> Sequential)\<rparr>,
      if ep_items ep key \<noteq> None then Inl Panic
      else Inr (generator cr (ep_left ep) key, generator cr (ep_right ep) key))"

text \<open>\<open>UsedSet::insert\<close> and \<open>IndexedSharedRandomness::generate_values\<close>; an index beyond \<open>usize\<close>
  is not tracked. The generator is shared behind an \<open>Arc\<close>, so its used set is updated in the
  endpoint it belongs to.\<close>

definition used_insert :: "nat set \<Rightarrow> u128 \<Rightarrow> nat set res" where
  "used_insert us index =
     (if unat index > 2 ^ 64 - 1 then Inr us
      else if unat index \<in> us then Inl Panic
      else Inr (insert (unat index) us))"

definition generate_values ::
  "('sk, 'pk, 'secret, 'key) crypto \<Rightarrow> 'key indexed_randomness \<Rightarrow> u128 \<Rightarrow>
     ('key indexed_randomness \<times> (u128 \<times> u128)) res" where
  "generate_values cr idxd index =
     bind_res (used_insert (used idxd) index) (\<lambda>us.
     Inr (idxd\<lparr>used := us\<rparr>, (generate cr (gen_left idxd) index, generate cr (gen_right idxd) index)))"

fun generate_all ::
  "('sk, 'pk, 'secret, 'key) crypto \<Rightarrow> 'key indexed_randomness \<Rightarrow> u128 list \<Rightarrow>
     ('key indexed_randomness \<times> (u128 \<times> u128) list) res" where
  "generate_all cr idxd [] = Inr (idxd, [])"
| "generate_all cr idxd (i # is) =
     bind_res (generate_values cr idxd i) (\<lambda>(idxd', v).
     bind_res (generate_all cr idxd' is) (\<lambda>(idxd'', vs). Inr (idxd'', v # vs)))"

definition next_u64 ::
  "('sk, 'pk, 'secret, 'key) crypto \<Rightarrow> 'key \<times> u128 \<Rightarrow> ('key \<times> u128) \<times> u64" where
  "next_u64 cr s = (case s of (key, counter) \<Rightarrow> ((key, counter + 1), ucast (generate cr key counter)))"

subsection \<open>Values derived from a pair of random words\<close>

definition zero_u128 :: "u128 \<times> u128 \<Rightarrow> u128" where "zero_u128 lr = fst lr - snd lr"

definition zero_xor :: "u128 \<times> u128 \<Rightarrow> u128" where "zero_xor lr = fst lr XOR snd lr"

definition random_u128 :: "u128 \<times> u128 \<Rightarrow> u128" where "random_u128 lr = fst lr + snd lr"

definition fields_of :: "(u128 \<Rightarrow> 'f) \<Rightarrow> u128 \<times> u128 \<Rightarrow> 'f \<times> 'f" where
  "fields_of trunc lr = (trunc (fst lr), trunc (snd lr))"

definition zero_field :: "'f::ab_group_add \<times> 'f \<Rightarrow> 'f" where "zero_field lr = fst lr - snd lr"

definition random_field :: "'f::ab_group_add \<times> 'f \<Rightarrow> 'f" where "random_field lr = fst lr + snd lr"

text \<open>
  The protocols draw field elements from three agreeing endpoints. \<open>rnd g i r\<close> is the element
  that the helper of role \<open>r\<close> shares with its left neighbour at gate \<open>g\<close> and index \<open>i\<close>; the one
  it shares with its right neighbour is that neighbour's left one.
\<close>

type_synonym 'v prss = "gate \<Rightarrow> nat \<Rightarrow> role \<Rightarrow> 'v"

definition generate_fields :: "'v prss \<Rightarrow> gate \<Rightarrow> nat \<Rightarrow> role \<Rightarrow> 'v \<times> 'v" where
  "generate_fields rnd g i r = (rnd g i r, rnd g i (peer r Right))"

definition generate_replicated :: "'v prss \<Rightarrow> gate \<Rightarrow> nat \<Rightarrow> 'v AdditiveShare world" where
  "generate_replicated rnd g i r =
     AdditiveShare (fst (generate_fields rnd g i r)) (snd (generate_fields rnd g i r))"

subsection \<open>Lemmas\<close>

lemma narrow_fold: "foldl narrow g steps = g @ concat (map ((#) CHR ''/'') steps)"
  by (induction steps arbitrary: g) (simp_all add: narrow_def)

lemma append_slash_cancel:
  assumes "CHR ''/'' \<notin> set s" and "CHR ''/'' \<notin> set t"
    and "s @ concat (map ((#) CHR ''/'') ss) = t @ concat (map ((#) CHR ''/'') ts)"
  shows "s = t \<and> concat (map ((#) CHR ''/'') ss) = concat (map ((#) CHR ''/'') ts)"
proof -
  have *: "takeWhile ((\<noteq>) CHR ''/'') (u @ concat (map ((#) CHR ''/'') us)) = u"
    if "CHR ''/'' \<notin> set u" for u us
  proof -
    have "takeWhile ((\<noteq>) CHR ''/'') (u @ v) = u @ takeWhile ((\<noteq>) CHR ''/'') v" for v
      using that by (subst takeWhile_append2) auto
    from this [of "concat (map ((#) CHR ''/'') us)"] show ?thesis by (cases us) simp_all
  qed
  have "s = t" using * [OF assms(1)] * [OF assms(2)] assms(3) by metis
  with assms(3) show ?thesis by simp
qed

lemma slash_concat_inject:
  assumes "\<forall>s \<in> set ss. CHR ''/'' \<notin> set s" and "\<forall>t \<in> set ts. CHR ''/'' \<notin> set t"
    and "concat (map ((#) CHR ''/'') ss) = concat (map ((#) CHR ''/'') ts)"
  shows "ss = ts"
  using assms
proof (induction ss arbitrary: ts)
  case Nil
  then show ?case by (cases ts) auto
next
  case (Cons s ss)
  then obtain t ts' where ts: "ts = t # ts'" by (cases ts) auto
  with Cons.prems append_slash_cancel [of s t ss ts'] Cons.IH [of ts'] show ?case by simp
qed

lemma narrow_neq [simp]: "narrow g s \<noteq> g"
  by (simp add: narrow_def)

lemma narrow_inject [simp]: "narrow g s = narrow g t \<longleftrightarrow> s = t"
  by (simp add: narrow_def)

lemma generate_all_used:
  assumes "generate_all cr idxd is = Inr (idxd', vs)"
  shows "gen_left idxd' = gen_left idxd \<and> gen_right idxd' = gen_right idxd
    \<and> vs = map (\<lambda>i. (generate cr (gen_left idxd) i, generate cr (gen_right idxd) i)) is"
  using assms
  by (induction "is" arbitrary: idxd idxd' vs)
     (fastforce simp: generate_values_def bind_res_eq_Inr_iff)+

lemma generate_all_iff:
  assumes "\<forall>i \<in> set is. unat i < 2 ^ 64"
  shows "(\<exists>y. generate_all cr idxd is = Inr y) \<longleftrightarrow> distinct is \<and> used idxd \<inter> unat ` set is = {}"
  using assms
proof (induction "is" arbitrary: idxd)
  case (Cons i "is")
  have tracked: "\<not> unat i > 2 ^ 64 - 1" using Cons.prems by auto
  show ?case
  proof (cases "unat i \<in> used idxd")
    case True
    then show ?thesis using tracked by (auto simp: generate_values_def used_insert_def)
  next
    case False
    let ?idxd = "idxd\<lparr>used := insert (unat i) (used idxd)\<rparr>"
    have "(\<exists>y. generate_all cr idxd (i # is) = Inr y) \<longleftrightarrow> (\<exists>y. generate_all cr ?idxd is = Inr y)"
      using tracked False
      by (auto simp: generate_values_def used_insert_def bind_res_eq_Inr_iff)
    also have "\<dots> \<longleftrightarrow> distinct is \<and> used ?idxd \<inter> unat ` set is = {}"
      using Cons.prems by (intro Cons.IH) auto
    also have "\<dots> \<longleftrightarrow> distinct (i # is) \<and> used idxd \<inter> unat ` set (i # is) = {}"
      using False by (auto simp flip: word_unat_eq_iff)
    finally show ?thesis .
  qed
qed simp

lemma negotiate_endpoint:
  assumes "negotiate cr setups r = Inr e"
  shows "e = \<lparr>ep_left = diffie_hellman cr (setup_left (setups r)) (public_key_of cr (setup_right (setups (peer r Left)))),
      ep_right = diffie_hellman cr (setup_right (setups r)) (public_key_of cr (setup_left (setups (peer r Right)))),
      ep_items = Map.empty\<rparr>"
  using assms
  by (auto simp: negotiate_def setup_endpoint_def key_exchange_def public_keys_def Let_def split: if_splits)

lemma ep_indexed_fresh:
  assumes "ep_items e g = None"
  shows "snd (ep_indexed cr e g) = Inr \<lparr>gen_left = generator cr (ep_left e) g, gen_right = generator cr (ep_right e) g, used = {}\<rparr>"
  using assms by (simp add: ep_indexed_def)

lemma generate_replicated_consistent [simp, intro]: "consistent (generate_replicated rnd g i)"
  by (simp add: consistent_def generate_replicated_def generate_fields_def)

lemma reconstruct_generate_replicated:
  "reconstruct (generate_replicated rnd g i) = rnd g i H1 + rnd g i H2 + rnd g i H3"
  by (simp add: reconstruct_def generate_replicated_def generate_fields_def)

subsection \<open>Properties\<close>

text \<open>Two chains of \<open>narrow\<close> from the same gate, of steps without a slash as the debug
  assertion demands, reach the same gate only when they are the same chain, so that no two
  steps of a protocol share their randomness or their channels.\<close>

lemma narrow_unique:
  assumes "\<forall>s \<in> set ss. CHR ''/'' \<notin> set s" and "\<forall>t \<in> set ts. CHR ''/'' \<notin> set t"
    and "foldl narrow g ss = foldl narrow g ts"
  shows "ss = ts"
  using assms by (simp add: narrow_fold slash_concat_inject)

lemma narrow_unique_witness:
  "foldl narrow default_gate [''a'', ''x''] = ''protocol/a/x'' \<and> [''a'', ''x''] = [''a'', ''x'']"
  using narrow_unique [of "[''a'', ''x'']" "[''a'', ''x'']" default_gate]
  by (simp add: narrow_def default_gate_def)

text \<open>C22: The three endpoints that \<open>negotiate\<close> sets up agree: at every gate and index the value that
  a helper draws from its right generator is the one that its right neighbour draws from its
  left generator. Therefore the additive and the exclusive-or shares of zero of the three
  helpers cancel, with wrap-around.\<close>

theorem prss_agreement:
  assumes dh: "\<And>a b. diffie_hellman cr a (public_key_of cr b) = diffie_hellman cr b (public_key_of cr a)"
    and neg: "\<And>r. negotiate cr setups r = Inr (ep r)"
    and idx: "\<And>r. snd (ep_indexed cr (ep r) g) = Inr (idx r)"
    and vals: "\<And>r. generate_values cr (idx r) i = Inr (idx' r, v r)"
  shows "snd (v r) = fst (v (peer r Right))
    \<and> zero_u128 (v H1) + zero_u128 (v H2) + zero_u128 (v H3) = 0
    \<and> zero_xor (v H1) XOR zero_xor (v H2) XOR zero_xor (v H3) = 0"
proof -
  have ep: "ep r = \<lparr>ep_left = diffie_hellman cr (setup_left (setups r)) (public_key_of cr (setup_right (setups (peer r Left)))),
      ep_right = diffie_hellman cr (setup_right (setups r)) (public_key_of cr (setup_left (setups (peer r Right)))),
      ep_items = Map.empty\<rparr>" for r
    using neg [of r] by (rule negotiate_endpoint)
  have gens: "idx r = \<lparr>gen_left = generator cr (ep_left (ep r)) g, gen_right = generator cr (ep_right (ep r)) g, used = {}\<rparr>" for r
    using idx [of r] ep_indexed_fresh [of "ep r" g cr] ep [of r] by simp
  have v: "v r = (generate cr (gen_left (idx r)) i, generate cr (gen_right (idx r)) i)" for r
    using vals [of r] by (auto simp: generate_values_def bind_res_eq_Inr_iff)
  have agree: "snd (v r) = fst (v (peer r Right))" for r
    using dh ep [of r] ep [of "peer r Right"] gens [of r] gens [of "peer r Right"]
    by (simp add: v)
  show ?thesis
    using agree [of r] agree [of H1] agree [of H2] agree [of H3]
    by (simp add: zero_u128_def zero_xor_def xor.assoc xor.left_commute)
qed

definition example_crypto :: "(nat, nat, nat, nat) crypto" where
  "example_crypto = \<lparr>public_key_of = (\<lambda>sk. sk), diffie_hellman = (\<lambda>a b. a * b),
     hkdf_expand = (\<lambda>s c. s + length c), encrypt_block = (\<lambda>k buf. map (\<lambda>b. b + of_nat k) buf)\<rparr>"

definition example_setups :: "nat endpoint_setup world" where
  "example_setups r = \<lparr>setup_left = 2 + role_index r, setup_right = 11 + role_index r\<rparr>"

definition example_endpoint :: "role \<Rightarrow> (nat, nat) endpoint" where
  "example_endpoint r = projr (negotiate example_crypto example_setups r)"

definition example_indexed :: "role \<Rightarrow> nat indexed_randomness" where
  "example_indexed r = projr (snd (ep_indexed example_crypto (example_endpoint r) default_gate))"

theorem prss_agreement_witness:
  "snd (snd (projr (generate_values example_crypto (example_indexed H1) 7)))
     = fst (snd (projr (generate_values example_crypto (example_indexed H2) 7)))"
proof -
  have 1: "negotiate example_crypto example_setups r = Inr (example_endpoint r)" for r
    by (cases r) (simp_all add: example_endpoint_def negotiate_def setup_endpoint_def key_exchange_def
        public_keys_def example_crypto_def example_setups_def Let_def)
  have items: "ep_items (example_endpoint r) default_gate = None" for r
    using negotiate_endpoint [OF 1 [of r]] by simp
  have 2: "snd (ep_indexed example_crypto (example_endpoint r) default_gate) = Inr (example_indexed r)" for r
    using items [of r] by (simp add: example_indexed_def ep_indexed_fresh)
  have 3: "generate_values example_crypto (example_indexed r) 7
      = Inr (fst (projr (generate_values example_crypto (example_indexed r) 7)),
             snd (projr (generate_values example_crypto (example_indexed r) 7)))" for r
    using items [of r]
    by (simp add: example_indexed_def ep_indexed_fresh generate_values_def used_insert_def)
  show ?thesis
    using prss_agreement [OF _ 1 2 3, of H1] by (simp add: example_crypto_def)
qed



end
