(* ===== verification/Basics.thy ===== *)
theory Basics
  imports Prss
begin

text \<open>
  The basic protocols on replicated shares, \<open>src/protocol/basics/\<close>. Every protocol is written
  per helper, as a function of the role, of what the helper holds and of the messages it
  receives, and then run on the three helpers in lock step, where the message that a helper
  receives is the one that the code of its peer sends. Debug assertions are part of the model.
\<close>

subsection \<open>Running the three helpers\<close>

definition by_role :: "'a \<Rightarrow> 'a \<Rightarrow> 'a \<Rightarrow> 'a world" where
  "by_role u v w r = (case r of H1 \<Rightarrow> u | H2 \<Rightarrow> v | H3 \<Rightarrow> w)"

definition run3 :: "'a res world \<Rightarrow> 'a world res" where
  "run3 f = bind_res (f H1) (\<lambda>u. bind_res (f H2) (\<lambda>v. bind_res (f H3) (\<lambda>w. Inr (by_role u v w))))"

text \<open>A value that every helper learned; the lock step goes on only when they agree on it.\<close>

definition public :: "'a res world \<Rightarrow> 'a res" where
  "public f = bind_res (run3 f) (\<lambda>v. if v H1 = v H2 \<and> v H2 = v H3 then Inr (v H1) else Inl Panic)"

lemma by_role_simps [simp]: "by_role u v w H1 = u" "by_role u v w H2 = v" "by_role u v w H3 = w"
  by (simp_all add: by_role_def)

lemma by_role_eta: "by_role (f H1) (f H2) (f H3) = f"
  by (rule ext) (simp add: by_role_def split: role.split)

lemma run3_Inr: "(\<And>r. f r = Inr (v r)) \<Longrightarrow> run3 f = Inr v"
  by (simp add: run3_def by_role_eta)

lemma run3_eq_Inr_iff: "run3 f = Inr v \<longleftrightarrow> (\<forall>r. f r = Inr (v r))"
proof
  assume "run3 f = Inr v"
  then show "\<forall>r. f r = Inr (v r)" by (auto simp: run3_def bind_res_eq_Inr_iff role_all)
qed (simp add: run3_Inr)

lemma public_Inr: "(\<And>r. f r = Inr v) \<Longrightarrow> public f = Inr v"
  using run3_Inr [of f "\<lambda>_. v"] by (simp add: public_def)

subsection \<open>Known zeros in the operands of a multiplication\<close>

datatype ZeroPositions = Pvvv | Pzzv | Pzvz | Pvzz | Pvvz | Pvzv | Pzvv

type_synonym MultiplyZeroPositions = "ZeroPositions \<times> ZeroPositions"

definition zp_NONE :: MultiplyZeroPositions where "zp_NONE = (Pvvv, Pvvv)"
definition AVVV_BZZV :: MultiplyZeroPositions where "AVVV_BZZV = (Pvvv, Pzzv)"
definition AVZZ_BZVZ :: MultiplyZeroPositions where "AVZZ_BZVZ = (Pvzz, Pzvz)"
definition AVVZ_BZZV :: MultiplyZeroPositions where "AVVZ_BZZV = (Pvvz, Pzzv)"

definition work :: "MultiplyZeroPositions \<Rightarrow> (bool \<times> bool \<times> bool) res" where
  "work zeros_at =
     (if zeros_at \<in> {(Pvzz, Pvzz), (Pzvz, Pzvz), (Pzzv, Pzzv)} then Inl Panic
      else if zeros_at \<in> {Pzvv, Pzvz, Pzzv} \<times> {Pzvv} \<or> zeros_at \<in> {Pzvv, Pzzv} \<times> {Pzvz}
           \<or> zeros_at \<in> {Pzvv, Pzvz} \<times> {Pzzv} then Inr (False, False, True)
      else if zeros_at \<in> {Pvvz, Pvzz, Pzvz} \<times> {Pvvz} \<or> zeros_at \<in> {Pvvz, Pzvz} \<times> {Pvzz}
           \<or> zeros_at \<in> {Pvvz, Pvzz} \<times> {Pzvz} then Inr (False, True, False)
      else if zeros_at \<in> {Pvvv, Pvzv} \<times> {Pzvz} \<or> zeros_at \<in> {Pzvz} \<times> {Pvvv, Pvzv}
           then Inr (False, True, True)
      else if zeros_at \<in> {Pvzv, Pvzz, Pzzv} \<times> {Pvzv} \<or> zeros_at \<in> {Pvzv, Pzzv} \<times> {Pvzz}
           \<or> zeros_at \<in> {Pvzv, Pvzz} \<times> {Pzzv} then Inr (True, False, False)
      else if zeros_at \<in> {Pvvv, Pvvz} \<times> {Pzzv} \<or> zeros_at \<in> {Pzzv} \<times> {Pvvv, Pvvz}
           then Inr (True, False, True)
      else if zeros_at \<in> {Pvvv, Pzvv} \<times> {Pvzz} \<or> zeros_at \<in> {Pvzz} \<times> {Pvvv, Pzvv}
           then Inr (True, True, False)
      else Inr (True, True, True))"

definition is_pointless :: "MultiplyZeroPositions \<Rightarrow> bool" where
  "is_pointless zeros_at \<longleftrightarrow> fst zeros_at = snd zeros_at \<and> fst zeros_at \<in> {Pvzz, Pzvz, Pzzv}"

definition mul_output :: "MultiplyZeroPositions \<Rightarrow> ZeroPositions res" where
  "mul_output zeros_at = bind_res (work zeros_at) (\<lambda>w. Inr (
     if w = (False, False, True) then Pzvv
     else if w = (False, True, False) then Pvvz
     else if w = (True, False, False) then Pvzv
     else Pvvv))"

text \<open>\<open>From<ZeroPositions> for [bool; 3]\<close>, indexed by a role.\<close>

fun zp_flags :: "ZeroPositions \<Rightarrow> bool \<times> bool \<times> bool" where
  "zp_flags Pvvv = (False, False, False)"
| "zp_flags Pzzv = (True, True, False)"
| "zp_flags Pzvz = (True, False, True)"
| "zp_flags Pvzz = (False, True, True)"
| "zp_flags Pvvz = (False, False, True)"
| "zp_flags Pvzv = (False, True, False)"
| "zp_flags Pzvv = (True, False, False)"

fun flag_at :: "bool \<times> bool \<times> bool \<Rightarrow> nat \<Rightarrow> bool" where
  "flag_at (u, v, w) i = (if i = 0 then u else if i = 1 then v else w)"

definition zp_check :: "ZeroPositions \<Rightarrow> role \<Rightarrow> 'v::comm_ring_1 AdditiveShare \<Rightarrow> unit res" where
  "zp_check z role v =
     (if flag_at (zp_flags z) (role_index role) \<and> left v \<noteq> 0 then Inl Panic
      else if flag_at (zp_flags z) (role_index (peer role Right)) \<and> right v \<noteq> 0 then Inl Panic
      else Inr ())"

definition work_for :: "MultiplyZeroPositions \<Rightarrow> role \<Rightarrow> (bool \<times> bool \<times> bool) res" where
  "work_for zeros role = bind_res (work zeros) (\<lambda>w.
     let i = role_index role;
         need_to_recv = flag_at w (i mod 3);
         need_to_send = flag_at w ((i + 1) mod 3);
         need_random_right = flag_at w ((i + 2) mod 3)
     in Inr (need_to_recv, need_to_send, need_random_right))"

subsection \<open>Multiplication\<close>

definition mul_right_d :: "'v::comm_ring_1 \<times> 'v \<Rightarrow> 'v AdditiveShare \<Rightarrow> 'v AdditiveShare \<Rightarrow> 'v" where
  "mul_right_d s a b = left a * right b + right a * left b - fst s"

text \<open>What the helper sends to its right, if anything.\<close>

definition mul_send ::
  "MultiplyZeroPositions \<Rightarrow> role \<Rightarrow> 'v::comm_ring_1 \<times> 'v \<Rightarrow> 'v AdditiveShare \<Rightarrow> 'v AdditiveShare \<Rightarrow> 'v option" where
  "mul_send zeros role s a b =
     (case work_for zeros role of
        Inr (_, True, _) \<Rightarrow> Some (mul_right_d s a b)
      | _ \<Rightarrow> None)"

text \<open>The code of one helper; \<open>left_d\<close> is what the left helper sent. A helper that waits for a
  message that is never sent is stuck, which is the error \<open>InfraError\<close> here.\<close>

definition mul_helper ::
  "MultiplyZeroPositions \<Rightarrow> role \<Rightarrow> 'v::comm_ring_1 \<times> 'v \<Rightarrow> 'v AdditiveShare \<Rightarrow> 'v AdditiveShare
     \<Rightarrow> 'v option \<Rightarrow> 'v AdditiveShare res" where
  "mul_helper zeros role s a b left_d =
     bind_res (work_for zeros role) (\<lambda>(need_to_recv, need_to_send, need_random_right).
     bind_res (zp_check (fst zeros) role a) (\<lambda>_.
     bind_res (zp_check (snd zeros) role b) (\<lambda>_.
     if \<not> need_to_send \<and> left a * right b + right a * left b \<noteq> 0 then Inl Panic
     else
       let rhs = right a * right b + (if need_to_send then mul_right_d s a b else 0)
             + (if need_random_right then snd s else 0)
       in bind_res (if need_to_recv then case left_d of Some d \<Rightarrow> Inr (left a * left b + d) | None \<Rightarrow> Inl InfraError
                    else Inr (left a * left b)) (\<lambda>lhs.
          Inr (AdditiveShare (lhs + (if need_to_send then fst s else 0)) rhs)))))"

definition multiply_sparse ::
  "MultiplyZeroPositions \<Rightarrow> 'v::comm_ring_1 prss \<Rightarrow> gate \<Rightarrow> record_id \<Rightarrow> 'v AdditiveShare world
     \<Rightarrow> 'v AdditiveShare world \<Rightarrow> 'v AdditiveShare world res" where
  "multiply_sparse zeros rnd g rid a b =
     run3 (\<lambda>r. mul_helper zeros r (generate_fields rnd g rid r) (a r) (b r)
       (mul_send zeros (peer r Left) (generate_fields rnd g rid (peer r Left)) (a (peer r Left)) (b (peer r Left))))"

text \<open>With no known zeros nothing can fail; this is the value of \<open>multiply\<close>.\<close>

definition multiply ::
  "'v::comm_ring_1 prss \<Rightarrow> gate \<Rightarrow> record_id \<Rightarrow> 'v AdditiveShare world \<Rightarrow> 'v AdditiveShare world
     \<Rightarrow> 'v AdditiveShare world" where
  "multiply rnd g rid a b r =
     (let s = generate_fields rnd g rid r;
          left_d = mul_right_d (generate_fields rnd g rid (peer r Left)) (a (peer r Left)) (b (peer r Left))
      in AdditiveShare (left (a r) * left (b r) + left_d + fst s)
           (right (a r) * right (b r) + mul_right_d s (a r) (b r) + snd s))"

subsection \<open>Sum of products\<close>

text \<open>\<open>right_sops\<close> starts from \<open>- s0\<close>; the two loops run over the zipped vectors, whose lengths
  the assertion has made equal.\<close>

definition sop_right :: "'v::comm_ring_1 \<times> 'v \<Rightarrow> ('v AdditiveShare \<times> 'v AdditiveShare) list \<Rightarrow> 'v" where
  "sop_right s ab = foldl (\<lambda>acc (a, b). acc + (left a * right b + right a * left b)) (- fst s) ab"

definition sop_helper ::
  "'v::comm_ring_1 \<times> 'v \<Rightarrow> ('v AdditiveShare \<times> 'v AdditiveShare) list \<Rightarrow> 'v \<Rightarrow> 'v AdditiveShare" where
  "sop_helper s ab left_sops =
     AdditiveShare (foldl (\<lambda>acc (a, b). acc + left a * left b) (left_sops + fst s) ab)
       (foldl (\<lambda>acc (a, b). acc + right a * right b) (sop_right s ab + snd s) ab)"

definition at_role :: "'s world list \<Rightarrow> role \<Rightarrow> 's list" where
  "at_role xs r = map (\<lambda>s. s r) xs"

definition sum_of_products ::
  "'v::comm_ring_1 prss \<Rightarrow> gate \<Rightarrow> record_id \<Rightarrow> 'v AdditiveShare world list \<Rightarrow> 'v AdditiveShare world list
     \<Rightarrow> 'v AdditiveShare world res" where
  "sum_of_products rnd g rid a b =
     (if length a \<noteq> length b then Inl Panic
      else Inr (\<lambda>r. sop_helper (generate_fields rnd g rid r) (zip (at_role a r) (at_role b r))
             (sop_right (generate_fields rnd g rid (peer r Left))
                (zip (at_role a (peer r Left)) (at_role b (peer r Left))))))"

subsection \<open>Opening a share\<close>

definition reveal_helper :: "'v::ab_group_add AdditiveShare \<Rightarrow> 'v \<Rightarrow> 'v res" where
  "reveal_helper s share = Inr (left s + right s + share)"

definition reveal :: "'v::ab_group_add AdditiveShare world \<Rightarrow> 'v res" where
  "reveal s = public (\<lambda>r. reveal_helper (s r) (left (s (peer r Left))))"

definition mal_reveal_helper :: "('v::ab_group_add, 'e) MaliciousShare \<Rightarrow> 'v \<Rightarrow> 'v \<Rightarrow> 'v res" where
  "mal_reveal_helper s share_from_left share_from_right =
     (if share_from_left = share_from_right
      then Inr (left (x_share s) + right (x_share s) + share_from_left)
      else Inl MaliciousRevealFailed)"

definition mal_reveal :: "('v::ab_group_add, 'e) MaliciousShare world \<Rightarrow> 'v res" where
  "mal_reveal s = public (\<lambda>r. mal_reveal_helper (s r)
     (left (x_share (s (peer r Left)))) (right (x_share (s (peer r Right)))))"

subsection \<open>Other basic protocols\<close>

definition share_known_value :: "'v::comm_ring_1 \<Rightarrow> 'v AdditiveShare world" where
  "share_known_value v r =
     (case r of H1 \<Rightarrow> AdditiveShare v 0 | H2 \<Rightarrow> AdditiveShare 0 0 | H3 \<Rightarrow> AdditiveShare 0 v)"

definition reshare_part1 :: "'v::ab_group_add \<times> 'v \<Rightarrow> 'v AdditiveShare \<Rightarrow> 'v" where
  "reshare_part1 rr s = left s + right s - snd rr"

definition reshare_part2 :: "'v::ab_group_add \<times> 'v \<Rightarrow> 'v AdditiveShare \<Rightarrow> 'v" where
  "reshare_part2 rr s = left s - fst rr"

definition reshare ::
  "'v::ab_group_add prss \<Rightarrow> gate \<Rightarrow> record_id \<Rightarrow> role \<Rightarrow> 'v AdditiveShare world \<Rightarrow> 'v AdditiveShare world" where
  "reshare rnd g rid to_helper s r =
     (let rr = generate_fields rnd g rid; lt = peer to_helper Left; rt = peer to_helper Right in
      if r = lt then AdditiveShare (reshare_part1 (rr r) (s r) + reshare_part2 (rr rt) (s rt)) (snd (rr r))
      else if r = rt then AdditiveShare (fst (rr r)) (reshare_part1 (rr lt) (s lt) + reshare_part2 (rr r) (s r))
      else AdditiveShare (fst (rr r)) (snd (rr r)))"

definition check_zero ::
  "'v::comm_ring_1 prss \<Rightarrow> gate \<Rightarrow> record_id \<Rightarrow> 'v AdditiveShare world \<Rightarrow> bool res" where
  "check_zero rnd g rid v =
     (let r_sharing = generate_replicated rnd g rid;
          rv_share = multiply rnd (narrow g ''multiply_with_r'') rid r_sharing v
      in bind_res (reveal rv_share) (\<lambda>rv. Inr (rv = 0)))"

subsection \<open>Who has to send\<close>

lemma work_for_cases:
  "work_for zeros r = (if is_pointless zeros then Inl Panic
     else let send = (\<lambda>q. \<not> ((flag_at (zp_flags (fst zeros)) (role_index q) \<or> flag_at (zp_flags (snd zeros)) (role_index (peer q Right)))
                       \<and> (flag_at (zp_flags (fst zeros)) (role_index (peer q Right)) \<or> flag_at (zp_flags (snd zeros)) (role_index q))))
          in Inr (send (peer r Left), send r, send (peer r Right)))"
  by (cases zeros; cases "fst zeros"; cases "snd zeros"; cases r)
     (simp_all add: work_for_def work_def is_pointless_def)

lemma work_for_NONE: "work_for zp_NONE r = Inr (True, True, True)"
  by (simp add: work_for_cases is_pointless_def zp_NONE_def)

lemma zp_check_NONE: "zp_check (fst zp_NONE) r v = Inr ()" "zp_check (snd zp_NONE) r v = Inr ()"
  by (simp_all add: zp_check_def zp_NONE_def)

lemma multiply_sparse_NONE: "multiply_sparse zp_NONE rnd g rid a b = Inr (multiply rnd g rid a b)"
  unfolding multiply_sparse_def
  by (rule run3_Inr)
     (simp add: mul_helper_def mul_send_def work_for_NONE zp_check_NONE multiply_def Let_def)

text \<open>A sharing has its zeros at the marked positions.\<close>

definition zeros_match :: "ZeroPositions \<Rightarrow> 'v::comm_ring_1 AdditiveShare world \<Rightarrow> bool" where
  "zeros_match z s \<longleftrightarrow> (\<forall>r. flag_at (zp_flags z) (role_index r) \<longrightarrow> left (s r) = 0)"

lemma zp_check_ok:
  assumes "zeros_match z s" and "consistent s"
  shows "zp_check z r (s r) = Inr ()"
  using assms consistentD [OF assms(2), of r]
  by (simp add: zp_check_def zeros_match_def)

text \<open>The value of a multiplication where some messages are left out: the ones that are left out
  are zero.\<close>

lemma cross_zero:
  assumes "zeros_match (fst z) a" and "zeros_match (snd z) b" and "consistent a" and "consistent b"
    and "work_for z r = Inr (rcv, False, rnd)"
  shows "left (a r) * right (b r) + right (a r) * left (b r) = 0"
  using assms(1,2,5) consistentD [OF assms(3), of r] consistentD [OF assms(4), of r]
  by (auto simp: work_for_cases zeros_match_def Let_def split: if_splits)

lemma multiply_sparse_ok:
  assumes "zeros_match (fst z) a" and "zeros_match (snd z) b" and "consistent a" and "consistent b"
    and "\<not> is_pointless z"
  obtains c where "multiply_sparse z rnd g rid a b = Inr c" and "consistent c"
    and "reconstruct c = reconstruct a * reconstruct b"
proof -
  let ?s = "\<lambda>r. generate_fields rnd g rid r"
  let ?snd = "\<lambda>r. fst (snd (projr (work_for z r)))"
  let ?d = "\<lambda>r. if ?snd r then mul_right_d (?s r) (a r) (b r) else 0"
  define c where "c r = AdditiveShare
      (left (a r) * left (b r) + ?d (peer r Left) + (if ?snd r then fst (?s r) else 0))
      (right (a r) * right (b r) + ?d r + (if ?snd (peer r Right) then snd (?s r) else 0))" for r
  have w: "work_for z r = Inr (?snd (peer r Left), ?snd r, ?snd (peer r Right))" for r
    using assms(5) by (simp add: work_for_cases Let_def)
  have cross: "\<not> ?snd r \<Longrightarrow> left (a r) * right (b r) + right (a r) * left (b r) = 0" for r
    using cross_zero [OF assms(1-4), of r] w [of r] by simp
  have "multiply_sparse z rnd g rid a b = Inr c"
    unfolding multiply_sparse_def
  proof (rule run3_Inr)
    fix r
    show "mul_helper z r (?s r) (a r) (b r) (mul_send z (peer r Left) (?s (peer r Left)) (a (peer r Left)) (b (peer r Left))) = Inr (c r)"
      using cross [of r] zp_check_ok [OF assms(1,3), of r] zp_check_ok [OF assms(2,4), of r]
      by (subst mul_helper_def, subst mul_send_def, subst (1 2) w) (auto simp: c_def Let_def split: bool.split)
  qed
  moreover have "consistent c"
    using consistentD [OF assms(3)] consistentD [OF assms(4)]
    by (auto simp: consistent_alt c_def generate_fields_def)
  moreover have "reconstruct c = reconstruct a * reconstruct b"
  proof -
    define m where "m r = (if ?snd r then fst (?s r) else 0)" for r
    define lr where "lr r = left (a r) * right (b r) + right (a r) * left (b r)" for r
    have "?d r = lr r - m r" for r
      using cross [of r] by (simp add: mul_right_d_def m_def lr_def)
    then have "left (c r) = left (a r) * left (b r) + (lr (peer r Left) - m (peer r Left)) + m r" for r
      by (simp add: c_def m_def)
    then have "reconstruct c = left (a H1) * left (b H1) + left (a H2) * left (b H2) + left (a H3) * left (b H3)
        + lr H1 + lr H2 + lr H3"
      by (simp add: reconstruct_def)
    then show ?thesis
      using assms(3,4) by (simp add: reconstruct_def lr_def consistent_def algebra_simps)
  qed
  ultimately show thesis by (rule that)
qed

lemma multiply_ok [simp]:
  assumes "consistent a" and "consistent b"
  shows "consistent (multiply rnd g rid a b)"
    and "reconstruct (multiply rnd g rid a b) = reconstruct a * reconstruct b"
proof -
  have "zeros_match (fst zp_NONE) a" "zeros_match (snd zp_NONE) b" "\<not> is_pointless zp_NONE"
    by (simp_all add: zeros_match_def zp_NONE_def is_pointless_def)
  from multiply_sparse_ok [OF this(1,2) assms this(3), of rnd g rid]
  show "consistent (multiply rnd g rid a b)"
    and "reconstruct (multiply rnd g rid a b) = reconstruct a * reconstruct b"
    by (auto simp: multiply_sparse_NONE)
qed

lemma mul_output_flags:
  "case mul_output (za, zb) of Inl _ \<Rightarrow> True
   | Inr zo \<Rightarrow> flag_at (zp_flags zo) (role_index r) \<longrightarrow>
       (case work_for (za, zb) r of Inr (rcv, snt, _) \<Rightarrow> \<not> rcv \<and> \<not> snt | Inl _ \<Rightarrow> False)
       \<and> (flag_at (zp_flags za) (role_index r) \<or> flag_at (zp_flags zb) (role_index r))"
  by (cases za; cases zb; cases r) (simp_all add: mul_output_def work_for_def work_def)

lemma mul_output_zero:
  assumes "zeros_match (fst z) a" and "zeros_match (snd z) b"
    and "multiply_sparse z rnd g rid a b = Inr c" and "mul_output z = Inr zo"
  shows "zeros_match zo c"
  unfolding zeros_match_def
proof (intro allI impI)
  fix r
  assume flag: "flag_at (zp_flags zo) (role_index r)"
  obtain rr where w: "work_for z r = Inr (False, False, rr)"
    and z: "flag_at (zp_flags (fst z)) (role_index r) \<or> flag_at (zp_flags (snd z)) (role_index r)"
    using flag assms(4) mul_output_flags [where za = "fst z" and zb = "snd z" and r = r] by (auto split: sum.splits)
  have "mul_helper z r (generate_fields rnd g rid r) (a r) (b r)
      (mul_send z (peer r Left) (generate_fields rnd g rid (peer r Left)) (a (peer r Left)) (b (peer r Left))) = Inr (c r)"
    using assms(3) by (auto simp: multiply_sparse_def run3_eq_Inr_iff)
  then have "c r = AdditiveShare (left (a r) * left (b r)) (right (a r) * right (b r) + (if rr then snd (generate_fields rnd g rid r) else 0))"
    by (subst (asm) mul_helper_def) (auto simp: w bind_res_eq_Inr_iff Let_def split: if_splits)
  then show "left (c r) = 0"
    using assms(1,2) z by (auto simp: zeros_match_def)
qed

subsection \<open>Linear sums over lists of sharings\<close>

lemma at_role_simps [simp]: "at_role [] r = []" "at_role (s # xs) r = s r # at_role xs r"
    "length (at_role xs r) = length xs"
  by (simp_all add: at_role_def)

lemma foldl_add_sum: "foldl (\<lambda>acc p. acc + f p) (z :: 'v::comm_ring_1) xs = z + (\<Sum>p\<leftarrow>xs. f p)"
  by (induction xs arbitrary: z) (simp_all add: ac_simps)

lemma sop_right_eq: "sop_right s ab = (\<Sum>(a, b)\<leftarrow>ab. left a * right b + right a * left b) - fst s"
  unfolding sop_right_def by (simp add: foldl_add_sum case_prod_beta')

lemma sop_helper_eq:
  "sop_helper s ab d = AdditiveShare ((\<Sum>(a, b)\<leftarrow>ab. left a * left b) + d + fst s)
     ((\<Sum>(a, b)\<leftarrow>ab. right a * right b) + sop_right s ab + snd s)"
  unfolding sop_helper_def by (simp add: foldl_add_sum case_prod_beta' ac_simps)

lemma sum_of_products_ok:
  assumes "length a = length b" and "\<forall>s \<in> set a. consistent s" and "\<forall>s \<in> set b. consistent s"
  obtains c where "sum_of_products rnd g rid a b = Inr c" and "consistent c"
    and "reconstruct c = (\<Sum>(u, v)\<leftarrow>zip a b. reconstruct u * reconstruct v)"
proof -
  let ?ab = "\<lambda>r. zip (at_role a r) (at_role b r)"
  define ll where "ll r = (\<Sum>(u, v)\<leftarrow>?ab r. left u * left v)" for r
  define rr where "rr r = (\<Sum>(u, v)\<leftarrow>?ab r. right u * right v)" for r
  define lr where "lr r = (\<Sum>(u, v)\<leftarrow>?ab r. left u * right v + right u * left v)" for r
  define c where "c r = sop_helper (generate_fields rnd g rid r) (?ab r)
     (sop_right (generate_fields rnd g rid (peer r Left)) (?ab (peer r Left)))" for r
  have rr: "rr r = ll (peer r Right)" for r
    using assms unfolding rr_def ll_def
    by (induction a b rule: list_induct2) (simp_all add: consistentD [of _ r])
  have sums: "ll H1 + ll H2 + ll H3 + (lr H1 + lr H2 + lr H3) = (\<Sum>(u, v)\<leftarrow>zip a b. reconstruct u * reconstruct v)"
    using assms unfolding ll_def lr_def
  proof (induction a b rule: list_induct2)
    case (Cons u us v vs)
    then show ?case by (simp add: reconstruct_def consistent_def algebra_simps)
  qed simp
  have c: "left (c r) = ll r + (lr (peer r Left) - rnd g rid (peer r Left)) + rnd g rid r"
    "right (c r) = rr r + (lr r - rnd g rid r) + rnd g rid (peer r Right)" for r
    by (simp_all add: c_def sop_helper_eq sop_right_eq ll_def rr_def lr_def generate_fields_def)
  have "sum_of_products rnd g rid a b = Inr c"
    using assms(1) by (simp add: sum_of_products_def c_def fun_eq_iff)
  moreover have "consistent c" by (simp add: consistent_alt c rr)
  moreover have "reconstruct c = (\<Sum>(u, v)\<leftarrow>zip a b. reconstruct u * reconstruct v)"
    using sums by (simp add: reconstruct_def c algebra_simps)
  ultimately show thesis by (rule that)
qed

subsection \<open>Opening and resharing\<close>

lemma reveal_ok [simp]: "consistent s \<Longrightarrow> reveal s = Inr (reconstruct s)"
  unfolding reveal_def
  by (rule public_Inr) (simp add: reveal_helper_def consistentD flip: reconstruct_rotate)

lemma mal_reveal_ok:
  assumes "consistent (\<lambda>r. x_share (s r))"
  shows "mal_reveal s = Inr (reconstruct (\<lambda>r. x_share (s r)))"
  unfolding mal_reveal_def
proof (rule public_Inr)
  fix r
  have "peer (peer r Right) Right = peer r Left" by (cases r) simp_all
  then have "right (x_share (s (peer r Right))) = left (x_share (s (peer r Left)))"
    using consistentD [OF assms, of "peer r Right"] by simp
  then show "mal_reveal_helper (s r) (left (x_share (s (peer r Left)))) (right (x_share (s (peer r Right))))
      = Inr (reconstruct (\<lambda>r. x_share (s r)))"
    using consistentD [OF assms, of r]
    by (simp add: mal_reveal_helper_def reconstruct_rotate [of _ r])
qed

lemma share_known_value_ok [simp]:
  "consistent (share_known_value v)" "reconstruct (share_known_value v) = v"
  by (simp_all add: consistent_def reconstruct_def share_known_value_def)

lemma reshare_ok [simp]:
  assumes "consistent s"
  shows "consistent (reshare rnd g rid to s)" "reconstruct (reshare rnd g rid to s) = reconstruct s"
  using assms
  by (cases to; simp add: consistent_def reconstruct_def reshare_def reshare_part1_def reshare_part2_def
      generate_fields_def Let_def algebra_simps)+

lemma check_zero_ok:
  assumes "consistent v"
  shows "check_zero rnd g rid v = Inr (reconstruct (generate_replicated rnd g rid) * reconstruct v = 0)"
  using assms by (simp add: check_zero_def Let_def)

subsection \<open>Properties\<close>



text \<open>C20: The remaining basic protocols on replicated shares compute what they promise: the sum of
  products of two vectors of equal length (and a panic otherwise), the sharing of a known value,
  and resharing towards any helper, each as a consistent sharing.\<close>

theorem basic_protocols_correct:
  assumes "\<forall>s \<in> set a. consistent s" and "\<forall>s \<in> set b. consistent s" and "consistent s"
  shows "(if length a = length b
      then \<exists>c. sum_of_products rnd g rid a b = Inr c \<and> consistent c
             \<and> reconstruct c = (\<Sum>(u, v)\<leftarrow>zip a b. reconstruct u * reconstruct v)
      else sum_of_products rnd g rid a b = Inl Panic)
    \<and> consistent (share_known_value v) \<and> reconstruct (share_known_value v) = v
    \<and> consistent (reshare rnd g rid to s) \<and> reconstruct (reshare rnd g rid to s) = reconstruct s
    \<and> reveal s = Inr (reconstruct s)"
proof (cases "length a = length b")
  case True
  then obtain c where "sum_of_products rnd g rid a b = Inr c" "consistent c"
    "reconstruct c = (\<Sum>(u, v)\<leftarrow>zip a b. reconstruct u * reconstruct v)"
    using sum_of_products_ok assms(1,2) by metis
  with True assms(3) show ?thesis by simp
next
  case False
  with assms(3) show ?thesis by (simp add: sum_of_products_def)
qed

theorem basic_protocols_correct_witness:
  "\<exists>c. sum_of_products (\<lambda>g i r. 9) default_gate 0 [share_known_value 3, share_known_value 4]
        [share_known_value 2, share_known_value 5] = Inr c \<and> reconstruct c = (26 :: fp31)"
  using basic_protocols_correct [of "[share_known_value 3, share_known_value 4]"
      "[share_known_value 2, share_known_value 5]" "share_known_value (1 :: fp31)"
      "\<lambda>g i r. 9" default_gate 0 0 H1]
  by auto

text \<open>C21: Malicious reveal detects one corrupt sender: a helper that gets the honest value from at
  least one of its two neighbours returns the secret or the error \<open>MaliciousRevealFailed\<close>,
  whatever the other neighbour sends.\<close>

theorem malicious_reveal_detects:
  assumes "consistent (\<lambda>r. x_share (s r))"
    and "from_left = left (x_share (s (peer r Left))) \<or> from_right = right (x_share (s (peer r Right)))"
  shows "mal_reveal_helper (s r) from_left from_right =
    (if from_left = from_right then Inr (reconstruct (\<lambda>r. x_share (s r))) else Inl MaliciousRevealFailed)"
proof -
  have "peer (peer r Right) Right = peer r Left" by (cases r) simp_all
  then have "right (x_share (s (peer r Right))) = left (x_share (s (peer r Left)))"
    using consistentD [OF assms(1), of "peer r Right"] by simp
  then show ?thesis
    using assms(2) consistentD [OF assms(1), of r]
    by (auto simp: mal_reveal_helper_def reconstruct_rotate [of _ r])
qed

theorem malicious_reveal_detects_witness:
  "mal_reveal_helper (MaliciousShare (share_with 7 1 2 H1) (AdditiveShare 0 0 :: fp31 AdditiveShare)) (4 :: fp31) 5
     = Inl MaliciousRevealFailed"
proof -
  have "consistent (\<lambda>r. x_share (MaliciousShare (share_with (7 :: fp31) 1 2 r) (0 :: fp31 AdditiveShare)))" by simp
  from malicious_reveal_detects [of "\<lambda>r. MaliciousShare (share_with (7 :: fp31) 1 2 r) (0 :: fp31 AdditiveShare)" 4 H1 5, OF this]
  show ?thesis by (simp add: zero_AdditiveShare_def share_zero_def)
qed

end
