(* ===== verification/Gf_Types.thy ===== *)
theory Gf_Types
  imports Galois_Field
begin

text \<open>
  The Galois fields that protocols compute in, as types: \<open>Gf2\<close> for bits and \<open>Gf32Bit\<close>, in which
  the malicious protocols carry the MACs of bits. The types hold the canonical bit stores of
  \<open>Galois_Field\<close>, with its operations, and are commutative rings.
\<close>

text \<open>The product of canonical elements, which \<open>gf_mul\<close> always returns.\<close>

definition gf_times :: "gf \<Rightarrow> 'w::len word \<Rightarrow> 'w word \<Rightarrow> 'w word" where
  "gf_times G a b = projr (the (gf_mul G a b))"

lemma gf_times_eq:
  fixes a b :: "'w::len word"
  assumes "gf_ok (LENGTH('w)) G" and "unat a < 2 ^ gf_bits G" and "unat b < 2 ^ gf_bits G"
  shows "gf_mul G a b = Some (Inr (gf_times G a b))"
    and "unat (gf_times G a b) < 2 ^ gf_bits G"
    and "gf_times G a b = gf_times G b a"
  using gf_mul_laws [OF assms assms(2)] by (auto simp: gf_times_def)

lemma gf_times_assoc:
  fixes a b c :: "'w::len word"
  assumes "gf_ok (LENGTH('w)) G"
    and "unat a < 2 ^ gf_bits G" and "unat b < 2 ^ gf_bits G" and "unat c < 2 ^ gf_bits G"
  shows "gf_times G (gf_times G a b) c = gf_times G a (gf_times G b c)"
  using gf_mul_laws [OF assms] by (auto simp: gf_times_def)

lemma gf_times_distrib:
  fixes a b c :: "'w::len word"
  assumes "gf_ok (LENGTH('w)) G"
    and "unat a < 2 ^ gf_bits G" and "unat b < 2 ^ gf_bits G" and "unat c < 2 ^ gf_bits G"
  shows "gf_times G (gf_add a b) c = gf_add (gf_times G a c) (gf_times G b c)"
proof -
  have "gf_times G c (gf_add a b) = gf_add (gf_times G c a) (gf_times G c b)"
    using gf_mul_laws [OF assms(1,4,2,3)] by (auto simp: gf_times_def)
  moreover have "unat (gf_add a b) < 2 ^ gf_bits G"
    using assms by (simp add: gf_add_def unsigned_xor_eq xor_less_power)
  ultimately show ?thesis
    using gf_times_eq(3) [OF assms(1)] assms(2-4) by metis
qed

lemma gf_times_one:
  fixes a :: "'w::len word"
  assumes "gf_ok (LENGTH('w)) G" and "unat a < 2 ^ gf_bits G"
  shows "gf_times G 1 a = a"
proof -
  have "gf_times G a 1 = a" using gf_mul_laws [OF assms assms(2) assms(2)] by (auto simp: gf_times_def)
  moreover have "unat (1 :: 'w word) < 2 ^ gf_bits G"
    using assms(1) one_less_power [of "2 :: nat" "gf_bits G"] by (simp add: gf_ok_def)
  ultimately show ?thesis using gf_times_eq(3) [OF assms] by metis
qed

lemma gf_xor_closed:
  fixes a b :: "'w::len word"
  shows "unat a < 2 ^ n \<Longrightarrow> unat b < 2 ^ n \<Longrightarrow> unat (a XOR b) < 2 ^ n"
  by (simp add: unsigned_xor_eq xor_less_power)

subsection \<open>Bits\<close>

typedef Gf2 = "{v :: u8. unat v < 2 ^ gf_bits gf2}"
  morphisms gf2_raw Gf2
  by (rule exI [of _ 0]) simp

setup_lifting type_definition_Gf2

instantiation Gf2 :: comm_ring_1
begin

lift_definition zero_Gf2 :: Gf2 is 0 by simp
lift_definition one_Gf2 :: Gf2 is 1 by (simp add: gf2_def)
lift_definition plus_Gf2 :: "Gf2 \<Rightarrow> Gf2 \<Rightarrow> Gf2" is gf_add
  by (simp add: gf_add_def gf_xor_closed)
lift_definition minus_Gf2 :: "Gf2 \<Rightarrow> Gf2 \<Rightarrow> Gf2" is gf_sub
  by (simp add: gf_sub_def gf_add_def gf_xor_closed)
lift_definition uminus_Gf2 :: "Gf2 \<Rightarrow> Gf2" is gf_neg
  by (simp add: gf_neg_def)
lift_definition times_Gf2 :: "Gf2 \<Rightarrow> Gf2 \<Rightarrow> Gf2" is "gf_times gf2"
  by (rule gf_times_eq(2)) (simp_all add: gf_params_ok)

instance
proof
  fix a b c :: Gf2
  show "a * b * c = a * (b * c)" by transfer (rule gf_times_assoc; simp add: gf_params_ok)
  show "a * b = b * a" by transfer (rule gf_times_eq(3); simp add: gf_params_ok)
  show "1 * a = a" by transfer (rule gf_times_one; simp add: gf_params_ok)
  show "(a + b) * c = a * c + b * c" by transfer (rule gf_times_distrib; simp add: gf_params_ok)
qed (transfer; simp add: gf_add_def gf_sub_def gf_neg_def ac_simps)+

end

instantiation Gf2 :: equal
begin

lift_definition equal_Gf2 :: "Gf2 \<Rightarrow> Gf2 \<Rightarrow> bool" is "(=)" .

instance by standard (transfer; simp)

end

lemma Gf2_cases: "(v :: Gf2) = 0 \<or> v = 1"
proof transfer
  fix v :: u8
  assume "unat v < 2 ^ gf_bits gf2"
  then have "unat v = 0 \<or> unat v = 1" by (simp add: gf2_def) linarith
  then show "v = 0 \<or> v = 1" by (auto simp: word_unat_eq_iff)
qed

lemma Gf2_zero_neq_one [simp]: "(0 :: Gf2) \<noteq> 1" "(1 :: Gf2) \<noteq> 0"
  by simp_all

lemma Gf2_add_self [simp]: "(v :: Gf2) + v = 0"
  by transfer (simp add: gf_add_def)

lemma Gf2_two [simp]: "(2 :: Gf2) = 0"
  using Gf2_add_self [of 1] by (simp only: one_add_one)

lemma Gf2_of_bool_add: "(of_bool a :: Gf2) + of_bool b = of_bool (a \<noteq> b)"
  by (cases a; cases b) simp_all

lemma Gf2_minus_eq_add: "(u :: Gf2) - v = u + v"
  by transfer (simp add: gf_sub_def)

lemma Gf2_neg [simp]: "- (v :: Gf2) = v"
  by transfer (simp add: gf_neg_def)

lift_definition Gf2_as_u128 :: "Gf2 \<Rightarrow> u128" is gf_into_u128 .

definition Gf2_from_bool :: "bool \<Rightarrow> Gf2" where
  "Gf2_from_bool v = Gf2 (gf2_from_bool v)"

lemma Gf2_from_bool_eq: "Gf2_from_bool v = of_bool v"
proof -
  have "gf2_from_bool v = of_bool v"
    by (rule bit_word_eqI) (auto simp: gf2_from_bool_def bit_set_bit_iff bit_unset_bit_iff bit_of_bool_iff bit_1_iff)
  then show ?thesis
    by (cases v) (simp_all add: Gf2_from_bool_def zero_Gf2_def one_Gf2_def)
qed

subsection \<open>The extension field of bits\<close>

typedef Gf32Bit = "{v :: u32. unat v < 2 ^ gf_bits gf32bit}"
  morphisms gf32bit_raw Gf32Bit
  by (rule exI [of _ 0]) simp

setup_lifting type_definition_Gf32Bit

instantiation Gf32Bit :: comm_ring_1
begin

lift_definition zero_Gf32Bit :: Gf32Bit is 0 by simp
lift_definition one_Gf32Bit :: Gf32Bit is 1 by (simp add: gf32bit_def)
lift_definition plus_Gf32Bit :: "Gf32Bit \<Rightarrow> Gf32Bit \<Rightarrow> Gf32Bit" is gf_add
  by (simp add: gf_add_def gf_xor_closed)
lift_definition minus_Gf32Bit :: "Gf32Bit \<Rightarrow> Gf32Bit \<Rightarrow> Gf32Bit" is gf_sub
  by (simp add: gf_sub_def gf_add_def gf_xor_closed)
lift_definition uminus_Gf32Bit :: "Gf32Bit \<Rightarrow> Gf32Bit" is gf_neg
  by (simp add: gf_neg_def)
lift_definition times_Gf32Bit :: "Gf32Bit \<Rightarrow> Gf32Bit \<Rightarrow> Gf32Bit" is "gf_times gf32bit"
  by (rule gf_times_eq(2)) (simp_all add: gf_params_ok)

instance
proof
  fix a b c :: Gf32Bit
  show "a * b * c = a * (b * c)" by transfer (rule gf_times_assoc; simp add: gf_params_ok)
  show "a * b = b * a" by transfer (rule gf_times_eq(3); simp add: gf_params_ok)
  show "1 * a = a" by transfer (rule gf_times_one; simp add: gf_params_ok)
  show "(a + b) * c = a * c + b * c" by transfer (rule gf_times_distrib; simp add: gf_params_ok)
qed (transfer; simp add: gf_add_def gf_sub_def gf_neg_def ac_simps)+

end

instantiation Gf32Bit :: equal
begin

lift_definition equal_Gf32Bit :: "Gf32Bit \<Rightarrow> Gf32Bit \<Rightarrow> bool" is "(=)" .

instance by standard (transfer; simp)

end

lemma Gf32Bit_add_self [simp]: "(v :: Gf32Bit) + v = 0"
  by transfer (simp add: gf_add_def)

text \<open>\<open>to_extended\<close> of \<open>Gf2\<close>: \<open>try_from\<close> and an \<open>unwrap\<close>, which does not fail.\<close>

definition Gf2_to_extended :: "Gf2 \<Rightarrow> Gf32Bit res" where
  "Gf2_to_extended v = (case gf_try_from gf32bit (Gf2_as_u128 v) of
     Inl _ \<Rightarrow> Inl Panic | Inr w \<Rightarrow> Inr (Gf32Bit w))"

lemma Gf2_to_extended_eq: "Gf2_to_extended 0 = Inr 0" "Gf2_to_extended 1 = Inr 1"
proof -
  have "Gf2_as_u128 0 = 0" "Gf2_as_u128 1 = 1"
    by (simp_all add: Gf2_as_u128.rep_eq zero_Gf2.rep_eq one_Gf2.rep_eq gf_into_u128_eq)
  moreover have "gf_try_from gf32bit n = Inr (n' :: u32)" if "unat n < 2" "unat n' = unat n" for n n'
    using that gf_params_ok(2) gf_try_from_iff [where 'w = 32 and G = gf32bit and v = n]
      unat_gf_truncate_from [where 'w = 32 and G = gf32bit and v = n]
    by (simp add: gf32bit_def word_unat_eq_iff)
  from this [of 0 0] this [of 1 1]
  have "gf_try_from gf32bit 0 = Inr (0 :: u32)" "gf_try_from gf32bit 1 = Inr (1 :: u32)"
    by simp_all
  ultimately show "Gf2_to_extended 0 = Inr 0" "Gf2_to_extended 1 = Inr 1"
    by (simp_all add: Gf2_to_extended_def zero_Gf32Bit_def one_Gf32Bit_def)
qed

end
