(* ===== verification/Malicious.thy ===== *)
theory Malicious
  imports Basics Gf_Types
begin

text \<open>
  The malicious protocols: \<open>src/protocol/basics/mul/malicious.rs\<close> and its siblings for sums of
  products and resharing, the upgraded context of \<open>src/protocol/context/malicious.rs\<close>, and the
  validator of \<open>src/protocol/context/validator.rs\<close>, whose accumulator collects a random linear
  combination of all wires twice. The locale \<open>extendable_field\<close> is the contract of the trait
  \<open>ExtendableField\<close>.
\<close>

subsection \<open>Context and accumulator\<close>

record ('v, 'e) mal_ctx =
  to_extended :: "'v \<Rightarrow> 'e"
  mc_prss :: "'v prss"
  mc_prss_e :: "'e prss"
  mc_r_share :: "'e AdditiveShare world"

record 'e AccumulatorState =
  acc_u :: 'e
  acc_w :: 'e

definition compute_dot_product_contribution :: "'e::comm_ring_1 AdditiveShare \<Rightarrow> 'e AdditiveShare \<Rightarrow> 'e" where
  "compute_dot_product_contribution a b =
     (left a + right a) * (left b + right b) - right a * right b"

definition induced_share :: "('v \<Rightarrow> 'e) \<Rightarrow> 'v AdditiveShare \<Rightarrow> 'e AdditiveShare" where
  "induced_share ext s = AdditiveShare (ext (left s)) (ext (right s))"

definition accumulate_helper ::
  "('v \<Rightarrow> 'e) \<Rightarrow> 'e::comm_ring_1 AdditiveShare \<Rightarrow> ('v, 'e) MaliciousShare \<Rightarrow> 'e AccumulatorState \<Rightarrow> 'e AccumulatorState" where
  "accumulate_helper ext random_constant input st =
     (let u_contribution = compute_dot_product_contribution random_constant (rx_share input);
          w_contribution = compute_dot_product_contribution random_constant (induced_share ext (x_share input))
      in \<lparr>acc_u = acc_u st + u_contribution, acc_w = acc_w st + w_contribution\<rparr>)"

definition accumulate_macs ::
  "('v, 'e::comm_ring_1) mal_ctx \<Rightarrow> gate \<Rightarrow> record_id \<Rightarrow> ('v, 'e) MaliciousShare world
     \<Rightarrow> 'e AccumulatorState world \<Rightarrow> 'e AccumulatorState world" where
  "accumulate_macs ctx g rid m acc r =
     accumulate_helper (to_extended ctx) (generate_replicated (mc_prss_e ctx) g rid r) (m r) (acc r)"

subsection \<open>Protocols\<close>

definition mal_share_known_value :: "('v::comm_ring_1, 'e::comm_ring_1) mal_ctx \<Rightarrow> 'v \<Rightarrow> ('v, 'e) MaliciousShare world" where
  "mal_share_known_value ctx v r =
     MaliciousShare (share_known_value v r) (share_mul (mc_r_share ctx r) (to_extended ctx v))"

definition upgrade_one ::
  "('v::comm_ring_1, 'e::comm_ring_1) mal_ctx \<Rightarrow> ZeroPositions \<Rightarrow> gate \<Rightarrow> record_id \<Rightarrow> 'v AdditiveShare world
     \<Rightarrow> 'e AccumulatorState world \<Rightarrow> (('v, 'e) MaliciousShare world \<times> 'e AccumulatorState world) res" where
  "upgrade_one ctx zeros_at g rid s acc =
     bind_res (multiply_sparse (zeros_at, Pvvv) (mc_prss_e ctx) g rid
         (\<lambda>r. induced_share (to_extended ctx) (s r)) (mc_r_share ctx)) (\<lambda>rxs.
     let m = (\<lambda>r. MaliciousShare (s r) (rxs r))
     in Inr (m, accumulate_macs ctx (narrow g ''randomness_for_validation'') rid m acc))"

definition mal_multiply ::
  "('v::comm_ring_1, 'e::comm_ring_1) mal_ctx \<Rightarrow> MultiplyZeroPositions \<Rightarrow> gate \<Rightarrow> record_id
     \<Rightarrow> ('v, 'e) MaliciousShare world \<Rightarrow> ('v, 'e) MaliciousShare world
     \<Rightarrow> 'e AccumulatorState world \<Rightarrow> (('v, 'e) MaliciousShare world \<times> 'e AccumulatorState world) res" where
  "mal_multiply ctx zeros_at g rid a b acc =
     bind_res (multiply_sparse zeros_at (mc_prss ctx) g rid (\<lambda>r. x_share (a r)) (\<lambda>r. x_share (b r))) (\<lambda>ab.
     bind_res (multiply_sparse (Pvvv, snd zeros_at) (mc_prss_e ctx) (narrow g ''duplicate_multiply'') rid
         (\<lambda>r. rx_share (a r)) (\<lambda>r. induced_share (to_extended ctx) (x_share (b r)))) (\<lambda>rab.
     let malicious_ab = (\<lambda>r. MaliciousShare (ab r) (rab r))
     in Inr (malicious_ab, accumulate_macs ctx (narrow g ''randomness_for_validation'') rid malicious_ab acc)))"

text \<open>Here the value that is sent is already the right share: \<open>s1 - s0\<close> and all products that the
  helper can form but the left ones.\<close>

definition mal_sop_right :: "'v::comm_ring_1 \<times> 'v \<Rightarrow> ('v AdditiveShare \<times> 'v AdditiveShare) list \<Rightarrow> 'v" where
  "mal_sop_right s ab =
     foldl (\<lambda>acc (a, b). acc + (right a * right b + left a * right b + right a * left b)) (snd s - fst s) ab"

definition mal_sop_world ::
  "'v::comm_ring_1 prss \<Rightarrow> gate \<Rightarrow> record_id \<Rightarrow> 'v AdditiveShare world list \<Rightarrow> 'v AdditiveShare world list
     \<Rightarrow> 'v AdditiveShare world" where
  "mal_sop_world rnd g rid a b r =
     (let sops = (\<lambda>q. mal_sop_right (generate_fields rnd g rid q) (zip (at_role a q) (at_role b q)))
      in AdditiveShare (sops (peer r Left)) (sops r))"

definition mal_sum_of_products ::
  "('v::comm_ring_1, 'e::comm_ring_1) mal_ctx \<Rightarrow> gate \<Rightarrow> record_id
     \<Rightarrow> ('v, 'e) MaliciousShare world list \<Rightarrow> ('v, 'e) MaliciousShare world list
     \<Rightarrow> 'e AccumulatorState world \<Rightarrow> (('v, 'e) MaliciousShare world \<times> 'e AccumulatorState world) res" where
  "mal_sum_of_products ctx g rid a b acc =
     (if length a \<noteq> length b then Inl Panic
      else
        let xs = mal_sop_world (mc_prss ctx) g rid (map (\<lambda>s r. x_share (s r)) a) (map (\<lambda>s r. x_share (s r)) b);
            rxs = mal_sop_world (mc_prss_e ctx) (narrow g ''duplicate_sop'') rid (map (\<lambda>s r. rx_share (s r)) a)
              (map (\<lambda>s r. induced_share (to_extended ctx) (x_share (s r))) b);
            malicious_ab = (\<lambda>r. MaliciousShare (xs r) (rxs r))
        in Inr (malicious_ab, accumulate_macs ctx (narrow g ''randomness_for_validation'') rid malicious_ab acc))"

definition mal_reshare ::
  "('v::comm_ring_1, 'e::comm_ring_1) mal_ctx \<Rightarrow> gate \<Rightarrow> record_id \<Rightarrow> role
     \<Rightarrow> ('v, 'e) MaliciousShare world \<Rightarrow> 'e AccumulatorState world
     \<Rightarrow> ('v, 'e) MaliciousShare world \<times> 'e AccumulatorState world" where
  "mal_reshare ctx g rid to_helper s acc =
     (let rxs = reshare (mc_prss_e ctx) (narrow g ''reshare_rx'') rid to_helper (\<lambda>r. rx_share (s r));
          xs = reshare (mc_prss ctx) g rid to_helper (\<lambda>r. x_share (s r));
          malicious_input = (\<lambda>r. MaliciousShare (xs r) (rxs r))
      in (malicious_input, accumulate_macs ctx (narrow g ''randomness_for_validation'') rid malicious_input acc))"

subsection \<open>The validator\<close>

record 'e validator =
  vd_r_share :: "'e AdditiveShare world"
  vd_u_and_w :: "'e AccumulatorState world"
  vd_validate_gate :: gate
  vd_protocol_gate :: gate

definition validator_new :: "'e::comm_ring_1 prss \<Rightarrow> gate \<Rightarrow> 'e validator" where
  "validator_new rnd g =
     \<lparr>vd_r_share = generate_replicated rnd g 0,
      vd_u_and_w = (\<lambda>r. \<lparr>acc_u = zero_field (generate_fields rnd g 1 r), acc_w = zero_field (generate_fields rnd g 2 r)\<rparr>),
      vd_validate_gate = narrow g ''validate'',
      vd_protocol_gate = narrow g ''malicious_protocol''\<rparr>"

text \<open>Each helper sends its local value to the right.\<close>

definition propagate :: "'e world \<Rightarrow> 'e AdditiveShare world" where
  "propagate local r = AdditiveShare (local (peer r Left)) (local r)"

definition propagate_u_and_w :: "'e validator \<Rightarrow> 'e AdditiveShare world \<times> 'e AdditiveShare world" where
  "propagate_u_and_w v = (propagate (\<lambda>r. acc_u (vd_u_and_w v r)), propagate (\<lambda>r. acc_w (vd_u_and_w v r)))"

definition validate ::
  "'e::comm_ring_1 prss \<Rightarrow> 'e validator \<Rightarrow> ('v, 'e) MaliciousShare world list \<Rightarrow> 'v AdditiveShare world list res" where
  "validate rnd v values =
     (case propagate_u_and_w v of (u_share, w_share) \<Rightarrow>
      bind_res (reveal (vd_r_share v)) (\<lambda>r.
      let t = (\<lambda>h. u_share h - share_mul (w_share h) r)
      in bind_res (check_zero rnd (narrow (vd_validate_gate v) ''check_zero'') 0 t) (\<lambda>is_valid.
      if is_valid then Inr (map (\<lambda>s h. downgrade (s h)) values)
      else Inl MaliciousSecurityCheckFailed)))"

subsection \<open>Wires that carry a valid MAC\<close>

definition mac_valid :: "('v::comm_ring_1, 'e::comm_ring_1) mal_ctx \<Rightarrow> ('v, 'e) MaliciousShare world \<Rightarrow> bool" where
  "mac_valid ctx m \<longleftrightarrow> consistent (\<lambda>r. x_share (m r)) \<and> consistent (\<lambda>r. rx_share (m r))
     \<and> reconstruct (\<lambda>r. rx_share (m r)) =
         reconstruct (mc_r_share ctx) * to_extended ctx (reconstruct (\<lambda>r. x_share (m r)))"

definition mal_value :: "('v::comm_ring_1, 'e) MaliciousShare world \<Rightarrow> 'v" where
  "mal_value m = reconstruct (\<lambda>r. x_share (m r))"

text \<open>The defect of a wire: by how much its second share misses \<open>r\<close> times the first.\<close>

definition mac_defect :: "('v::comm_ring_1, 'e::comm_ring_1) mal_ctx \<Rightarrow> ('v, 'e) MaliciousShare world \<Rightarrow> 'e" where
  "mac_defect ctx m = reconstruct (\<lambda>r. rx_share (m r))
     - reconstruct (mc_r_share ctx) * to_extended ctx (reconstruct (\<lambda>r. x_share (m r)))"

definition sum3 :: "'e::comm_ring_1 world \<Rightarrow> 'e" where
  "sum3 f = f H1 + f H2 + f H3"

text \<open>What the final check looks at: the sum of all \<open>u\<close> minus \<open>r\<close> times the sum of all \<open>w\<close>.\<close>

definition mac_balance :: "'e::comm_ring_1 AdditiveShare world \<Rightarrow> 'e AccumulatorState world \<Rightarrow> 'e" where
  "mac_balance r_share acc = sum3 (\<lambda>r. acc_u (acc r)) - reconstruct r_share * sum3 (\<lambda>r. acc_w (acc r))"

lemma sum3_dot_product:
  assumes "consistent a" and "consistent b"
  shows "sum3 (\<lambda>r. compute_dot_product_contribution (a r) (b r)) = reconstruct a * reconstruct b"
  using assms
  by (simp add: sum3_def compute_dot_product_contribution_def consistent_def reconstruct_def algebra_simps)

lemma sum3_add: "sum3 (\<lambda>r. f r + g r) = sum3 f + sum3 g"
  by (simp add: sum3_def ac_simps)

lemma zp_checkD: "zp_check z r v = Inr u \<Longrightarrow> flag_at (zp_flags z) (role_index r) \<Longrightarrow> left v = 0"
  by (simp add: zp_check_def split: if_splits)

lemma multiply_sparse_InrD:
  assumes "multiply_sparse z rnd g rid a b = Inr c" and "consistent a" and "consistent b"
  shows "consistent c" and "reconstruct c = reconstruct a * reconstruct b"
proof -
  have helper: "\<exists>d. mul_helper z r (generate_fields rnd g rid r) (a r) (b r) d = Inr (c r)" for r
    using assms(1) by (auto simp: multiply_sparse_def run3_eq_Inr_iff)
  have checks: "zp_check (fst z) r (a r) = Inr ()" "zp_check (snd z) r (b r) = Inr ()"
    "\<exists>w. work_for z r = Inr w" for r
    using helper [of r] by (auto simp: mul_helper_def bind_res_eq_Inr_iff)
  have "zeros_match (fst z) a"
    unfolding zeros_match_def using zp_checkD [OF checks(1)] by blast
  moreover have "zeros_match (snd z) b"
    unfolding zeros_match_def using zp_checkD [OF checks(2)] by blast
  moreover have "\<not> is_pointless z"
    using checks(3) [of H1] by (auto simp: work_for_cases split: if_splits)
  ultimately obtain c' where "multiply_sparse z rnd g rid a b = Inr c'" "consistent c'"
    "reconstruct c' = reconstruct a * reconstruct b"
    using multiply_sparse_ok assms(2,3) by metis
  with assms(1) show "consistent c" and "reconstruct c = reconstruct a * reconstruct b" by simp_all
qed

lemma mal_sop_right_eq:
  "mal_sop_right s ab = (\<Sum>(a, b)\<leftarrow>ab. right a * right b + left a * right b + right a * left b) + snd s - fst s"
  unfolding mal_sop_right_def by (simp add: foldl_add_sum case_prod_beta')

lemma mal_sop_world_ok:
  assumes "length a = length b" and "\<forall>s \<in> set a. consistent s" and "\<forall>s \<in> set b. consistent s"
  shows "consistent (mal_sop_world rnd g rid a b)"
    and "reconstruct (mal_sop_world rnd g rid a b) = (\<Sum>(u, v)\<leftarrow>zip a b. reconstruct u * reconstruct v)"
proof -
  show "consistent (mal_sop_world rnd g rid a b)"
    by (simp add: consistent_alt mal_sop_world_def)
  define t where "t r = (\<Sum>(u, v)\<leftarrow>zip (at_role a r) (at_role b r). right u * right v + left u * right v + right u * left v)" for r
  have "t H1 + t H2 + t H3 = (\<Sum>(u, v)\<leftarrow>zip a b. reconstruct u * reconstruct v)"
    using assms unfolding t_def
  proof (induction a b rule: list_induct2)
    case (Cons u us v vs)
    then show ?case by (simp add: reconstruct_def consistent_def algebra_simps)
  qed simp
  then show "reconstruct (mal_sop_world rnd g rid a b) = (\<Sum>(u, v)\<leftarrow>zip a b. reconstruct u * reconstruct v)"
    by (simp add: reconstruct_def mal_sop_world_def mal_sop_right_eq generate_fields_def t_def algebra_simps)
qed

subsection \<open>The contract of an extendable field\<close>

locale extendable_field =
  fixes ext :: "'v::comm_ring_1 \<Rightarrow> 'e::comm_ring_1"
  assumes ext_add: "ext (a + b) = ext a + ext b"
    and ext_mult: "ext (a * b) = ext a * ext b"
begin

lemma ext_zero: "ext 0 = 0"
  using ext_add [of 0 0] by simp

lemma ext_uminus: "ext (- a) = - ext a"
  using ext_add [of a "- a"] by (simp add: ext_zero eq_neg_iff_add_eq_0 add.commute)

lemma ext_diff: "ext (a - b) = ext a - ext b"
  using ext_add [of a "- b"] by (simp add: ext_uminus)

lemma consistent_induced: "consistent s \<Longrightarrow> consistent (\<lambda>r. induced_share ext (s r))"
  by (simp add: consistent_def induced_share_def)

lemma reconstruct_induced: "reconstruct (\<lambda>r. induced_share ext (s r)) = ext (reconstruct s)"
  by (simp add: reconstruct_def induced_share_def ext_add)

lemma ext_sum: "ext (\<Sum>p\<leftarrow>xs. f p) = (\<Sum>p\<leftarrow>xs. ext (f p))"
  by (induction xs) (simp_all add: ext_zero ext_add)

lemma mac_balance_accumulate:
  assumes "to_extended ctx = ext" and "consistent (\<lambda>r. x_share (m r))" and "consistent (\<lambda>r. rx_share (m r))"
  shows "mac_balance (mc_r_share ctx) (accumulate_macs ctx g rid m acc)
    = mac_balance (mc_r_share ctx) acc + reconstruct (generate_replicated (mc_prss_e ctx) g rid) * mac_defect ctx m"
  using sum3_dot_product [OF generate_replicated_consistent assms(3), of "mc_prss_e ctx" g rid]
    sum3_dot_product [OF generate_replicated_consistent consistent_induced [OF assms(2)], of "mc_prss_e ctx" g rid]
  by (simp add: mac_balance_def accumulate_macs_def accumulate_helper_def Let_def sum3_add assms(1)
      reconstruct_induced mac_defect_def algebra_simps)

lemma mac_valid_linear:
  assumes "to_extended ctx = ext" and "mac_valid ctx a" and "mac_valid ctx b"
  shows "mac_valid ctx (\<lambda>r. a r + b r)" "mac_valid ctx (\<lambda>r. a r - b r)" "mac_valid ctx (\<lambda>r. - a r)"
    "mac_valid ctx (\<lambda>r. mal_mul ext (a r) c)"
  using assms by (simp_all add: mac_valid_def ext_add ext_diff ext_uminus ext_mult algebra_simps)

lemma mac_valid_known:
  assumes "to_extended ctx = ext" and "consistent (mc_r_share ctx)"
  shows "mac_valid ctx (mal_share_known_value ctx v)"
  using assms by (simp add: mac_valid_def mal_share_known_value_def)

lemma mac_valid_upgrade:
  assumes "to_extended ctx = ext" and "consistent (mc_r_share ctx)" and "consistent s"
    and "upgrade_one ctx z g rid s acc = Inr (m, acc')"
  shows "mac_valid ctx m" and "mal_value m = reconstruct s"
    and "acc' = accumulate_macs ctx (narrow g ''randomness_for_validation'') rid m acc"
proof -
  obtain rxs where rxs: "multiply_sparse (z, Pvvv) (mc_prss_e ctx) g rid (\<lambda>r. induced_share ext (s r)) (mc_r_share ctx) = Inr rxs"
    and m: "m = (\<lambda>r. MaliciousShare (s r) (rxs r))"
    and acc': "acc' = accumulate_macs ctx (narrow g ''randomness_for_validation'') rid m acc"
    using assms(4) by (auto simp: upgrade_one_def assms(1) Let_def bind_res_eq_Inr_iff)
  note ok = multiply_sparse_InrD [OF rxs consistent_induced [OF assms(3)] assms(2)]
  show "mac_valid ctx m" using ok assms(1,3) by (simp add: mac_valid_def m reconstruct_induced mult.commute)
  show "mal_value m = reconstruct s" by (simp add: mal_value_def m)
  show "acc' = accumulate_macs ctx (narrow g ''randomness_for_validation'') rid m acc" by (rule acc')
qed

lemma mac_valid_multiply:
  assumes "to_extended ctx = ext" and "mac_valid ctx a" and "mac_valid ctx b"
    and "mal_multiply ctx z g rid a b acc = Inr (m, acc')"
  shows "mac_valid ctx m" and "mal_value m = mal_value a * mal_value b"
    and "acc' = accumulate_macs ctx (narrow g ''randomness_for_validation'') rid m acc"
proof -
  obtain ab rab where ab: "multiply_sparse z (mc_prss ctx) g rid (\<lambda>r. x_share (a r)) (\<lambda>r. x_share (b r)) = Inr ab"
    and rab: "multiply_sparse (Pvvv, snd z) (mc_prss_e ctx) (narrow g ''duplicate_multiply'') rid (\<lambda>r. rx_share (a r)) (\<lambda>r. induced_share ext (x_share (b r))) = Inr rab"
    and m: "m = (\<lambda>r. MaliciousShare (ab r) (rab r))"
    and acc': "acc' = accumulate_macs ctx (narrow g ''randomness_for_validation'') rid m acc"
    using assms(4) by (auto simp: mal_multiply_def assms(1) Let_def bind_res_eq_Inr_iff)
  have a: "consistent (\<lambda>r. x_share (a r))" "consistent (\<lambda>r. rx_share (a r))"
    "reconstruct (\<lambda>r. rx_share (a r)) = reconstruct (mc_r_share ctx) * ext (reconstruct (\<lambda>r. x_share (a r)))"
    and b: "consistent (\<lambda>r. x_share (b r))"
    using assms(1-3) by (simp_all add: mac_valid_def)
  note ok = multiply_sparse_InrD [OF ab a(1) b] multiply_sparse_InrD [OF rab a(2) consistent_induced [OF b]]
  show "mac_valid ctx m"
    using ok a by (simp add: mac_valid_def m assms(1) reconstruct_induced ext_mult mult.assoc)
  show "mal_value m = mal_value a * mal_value b" using ok by (simp add: mal_value_def m)
  show "acc' = accumulate_macs ctx (narrow g ''randomness_for_validation'') rid m acc" by (rule acc')
qed

lemma mac_valid_sop:
  assumes "to_extended ctx = ext" and "\<forall>s \<in> set a. mac_valid ctx s" and "\<forall>s \<in> set b. mac_valid ctx s"
    and "mal_sum_of_products ctx g rid a b acc = Inr (m, acc')"
  shows "mac_valid ctx m" and "mal_value m = (\<Sum>(u, v)\<leftarrow>zip a b. mal_value u * mal_value v)"
    and "acc' = accumulate_macs ctx (narrow g ''randomness_for_validation'') rid m acc"
proof -
  let ?x = "map (\<lambda>s r. x_share (s r))" and ?rx = "map (\<lambda>s r. rx_share (s r))"
    and ?ind = "map (\<lambda>s r. induced_share ext (x_share (s r)))"
  define xs where "xs = mal_sop_world (mc_prss ctx) g rid (?x a) (?x b)"
  define rxs where "rxs = mal_sop_world (mc_prss_e ctx) (narrow g ''duplicate_sop'') rid (?rx a) (?ind b)"
  have len: "length a = length b" and m: "m = (\<lambda>r. MaliciousShare (xs r) (rxs r))"
    and acc': "acc' = accumulate_macs ctx (narrow g ''randomness_for_validation'') rid m acc"
    using assms(4) by (auto simp: mal_sum_of_products_def assms(1) Let_def xs_def rxs_def split: if_splits)
  have ok: "consistent xs" "reconstruct xs = (\<Sum>(u, v)\<leftarrow>zip (?x a) (?x b). reconstruct u * reconstruct v)"
    "consistent rxs" "reconstruct rxs = (\<Sum>(u, v)\<leftarrow>zip (?rx a) (?ind b). reconstruct u * reconstruct v)"
    unfolding xs_def rxs_def using assms(2,3) len
    by (auto intro!: mal_sop_world_ok consistent_induced simp: mac_valid_def)
  have "(\<Sum>(u, v)\<leftarrow>zip (?rx a) (?ind b). reconstruct u * reconstruct v)
      = reconstruct (mc_r_share ctx) * ext (\<Sum>(u, v)\<leftarrow>zip (?x a) (?x b). reconstruct u * reconstruct v)"
    using len assms(2)
    by (induction a b rule: list_induct2)
       (simp_all add: ext_zero ext_add ext_mult mac_valid_def assms(1) reconstruct_induced algebra_simps)
  then show "mac_valid ctx m" using ok by (simp add: mac_valid_def m assms(1))
  show "mal_value m = (\<Sum>(u, v)\<leftarrow>zip a b. mal_value u * mal_value v)"
    using ok by (simp add: mal_value_def m zip_map_map o_def case_prod_beta')
  show "acc' = accumulate_macs ctx (narrow g ''randomness_for_validation'') rid m acc" by (rule acc')
qed

lemma mac_valid_reshare:
  assumes "to_extended ctx = ext" and "mac_valid ctx s" and "mal_reshare ctx g rid to s acc = (m, acc')"
  shows "mac_valid ctx m" and "mal_value m = mal_value s"
    and "acc' = accumulate_macs ctx (narrow g ''randomness_for_validation'') rid m acc"
  using assms by (auto simp: mal_reshare_def Let_def mac_valid_def mal_value_def)

end

definition prime_to_extended :: "'v \<Rightarrow> 'v" where "prime_to_extended v = v"

definition gf2_to_extended :: "Gf2 \<Rightarrow> Gf32Bit" where "gf2_to_extended v = projr (Gf2_to_extended v)"

interpretation prime_ext: extendable_field "prime_to_extended :: 'v::comm_ring_1 \<Rightarrow> 'v"
  by unfold_locales (simp_all add: prime_to_extended_def)

interpretation gf2_ext: extendable_field gf2_to_extended
proof
  fix a b :: Gf2
  have ext: "gf2_to_extended 0 = 0" "gf2_to_extended 1 = 1"
    by (simp_all add: gf2_to_extended_def Gf2_to_extended_eq)
  show "gf2_to_extended (a + b) = gf2_to_extended a + gf2_to_extended b"
    using Gf2_cases [of a] Gf2_cases [of b] by (elim disjE) (simp_all add: ext del: one_add_one)
  show "gf2_to_extended (a * b) = gf2_to_extended a * gf2_to_extended b"
    using Gf2_cases [of a] Gf2_cases [of b] by (elim disjE) (simp_all add: ext)
qed

subsection \<open>Runs of a malicious protocol\<close>

text \<open>
  The state of a run is the wires computed so far and the accumulators of the three helpers. A
  step is any operation of an upgraded context on wires that exist; a run is any sequence of
  steps, so it covers every protocol written over these operations in any order.
\<close>

record ('v, 'e) run =
  wires :: "('v, 'e) MaliciousShare world list"
  macs :: "'e AccumulatorState world"

inductive mal_step :: "('v::comm_ring_1, 'e::comm_ring_1) mal_ctx \<Rightarrow> ('v, 'e) run \<Rightarrow> ('v, 'e) run \<Rightarrow> bool"
  for ctx where
  step_upgrade: "consistent s \<Longrightarrow> upgrade_one ctx z g rid s (macs st) = Inr (m, acc)
     \<Longrightarrow> mal_step ctx st \<lparr>wires = m # wires st, macs = acc\<rparr>"
| step_multiply: "a \<in> set (wires st) \<Longrightarrow> b \<in> set (wires st)
     \<Longrightarrow> mal_multiply ctx zz g rid a b (macs st) = Inr (m, acc)
     \<Longrightarrow> mal_step ctx st \<lparr>wires = m # wires st, macs = acc\<rparr>"
| step_sop: "set as \<subseteq> set (wires st) \<Longrightarrow> set bs \<subseteq> set (wires st)
     \<Longrightarrow> mal_sum_of_products ctx g rid as bs (macs st) = Inr (m, acc)
     \<Longrightarrow> mal_step ctx st \<lparr>wires = m # wires st, macs = acc\<rparr>"
| step_reshare: "a \<in> set (wires st) \<Longrightarrow> mal_reshare ctx g rid to a (macs st) = (m, acc)
     \<Longrightarrow> mal_step ctx st \<lparr>wires = m # wires st, macs = acc\<rparr>"
| step_known: "mal_step ctx st (st\<lparr>wires := mal_share_known_value ctx v # wires st\<rparr>)"
| step_add: "a \<in> set (wires st) \<Longrightarrow> b \<in> set (wires st)
     \<Longrightarrow> mal_step ctx st (st\<lparr>wires := (\<lambda>r. a r + b r) # wires st\<rparr>)"
| step_sub: "a \<in> set (wires st) \<Longrightarrow> b \<in> set (wires st)
     \<Longrightarrow> mal_step ctx st (st\<lparr>wires := (\<lambda>r. a r - b r) # wires st\<rparr>)"
| step_neg: "a \<in> set (wires st) \<Longrightarrow> mal_step ctx st (st\<lparr>wires := (\<lambda>r. - a r) # wires st\<rparr>)"
| step_scale: "a \<in> set (wires st)
     \<Longrightarrow> mal_step ctx st (st\<lparr>wires := (\<lambda>r. mal_mul (to_extended ctx) (a r) c) # wires st\<rparr>)"

inductive mal_run :: "('v::comm_ring_1, 'e::comm_ring_1) mal_ctx \<Rightarrow> ('v, 'e) run \<Rightarrow> ('v, 'e) run \<Rightarrow> bool"
  for ctx where
  run_refl: "mal_run ctx st st"
| run_step: "mal_run ctx st st' \<Longrightarrow> mal_step ctx st' st'' \<Longrightarrow> mal_run ctx st st''"

definition run_inv :: "('v::comm_ring_1, 'e::comm_ring_1) mal_ctx \<Rightarrow> ('v, 'e) run \<Rightarrow> bool" where
  "run_inv ctx st \<longleftrightarrow> (\<forall>m \<in> set (wires st). mac_valid ctx m) \<and> mac_balance (mc_r_share ctx) (macs st) = 0"

lemma mac_defect_valid: "mac_valid ctx m \<Longrightarrow> mac_defect ctx m = 0"
  by (simp add: mac_valid_def mac_defect_def)

context extendable_field
begin

lemma run_inv_accumulate:
  assumes "to_extended ctx = ext" and "run_inv ctx st" and "mac_valid ctx m"
  shows "run_inv ctx \<lparr>wires = m # wires st, macs = accumulate_macs ctx g rid m (macs st)\<rparr>"
  using assms mac_balance_accumulate [OF assms(1), of m g rid "macs st"]
  by (auto simp: run_inv_def mac_valid_def mac_defect_valid)

lemma mal_step_inv:
  assumes "mal_step ctx st st'" and "to_extended ctx = ext" and "consistent (mc_r_share ctx)" and "run_inv ctx st"
  shows "run_inv ctx st'"
  using assms(1)
proof cases
  case (step_upgrade s z g rid m acc)
  from mac_valid_upgrade [OF assms(2,3) step_upgrade(2,3)] show ?thesis
    unfolding step_upgrade(1) using run_inv_accumulate [OF assms(2,4)] by simp
next
  case (step_multiply a b zz g rid m acc)
  have "mac_valid ctx a" "mac_valid ctx b" using step_multiply assms(4) by (auto simp: run_inv_def)
  from mac_valid_multiply [OF assms(2) this step_multiply(4)] show ?thesis
    unfolding step_multiply(1) using run_inv_accumulate [OF assms(2,4)] by simp
next
  case (step_sop as bs g rid m acc)
  have "\<forall>s \<in> set as. mac_valid ctx s" "\<forall>s \<in> set bs. mac_valid ctx s"
    using step_sop assms(4) by (auto simp: run_inv_def)
  from mac_valid_sop [OF assms(2) this step_sop(4)] show ?thesis
    unfolding step_sop(1) using run_inv_accumulate [OF assms(2,4)] by simp
next
  case (step_reshare a g rid to m acc)
  have "mac_valid ctx a" using step_reshare assms(4) by (auto simp: run_inv_def)
  from mac_valid_reshare [OF assms(2) this step_reshare(3)] show ?thesis
    unfolding step_reshare(1) using run_inv_accumulate [OF assms(2,4)] by simp
qed (use assms mac_valid_linear mac_valid_known in \<open>auto simp: run_inv_def\<close>)

lemma mal_run_inv:
  assumes "mal_run ctx st st'" and "to_extended ctx = ext" and "consistent (mc_r_share ctx)" and "run_inv ctx st"
  shows "run_inv ctx st'"
  using assms by (induction rule: mal_run.induct) (auto intro: mal_step_inv)

end

lemma propagate_ok [simp]: "consistent (propagate f)" "reconstruct (propagate f) = sum3 f"
  by (simp_all add: consistent_alt propagate_def reconstruct_def sum3_def ac_simps)

lemma validate_eq:
  assumes "consistent (vd_r_share v)"
  shows "validate rnd v values =
    (if reconstruct (generate_replicated rnd (narrow (vd_validate_gate v) ''check_zero'') 0)
        * mac_balance (vd_r_share v) (vd_u_and_w v) = 0
     then Inr (map (\<lambda>s h. downgrade (s h)) values) else Inl MaliciousSecurityCheckFailed)"
  using assms
  by (simp add: validate_def propagate_u_and_w_def Let_def check_zero_ok mac_balance_def mult.commute)

lemma validator_new_balance [simp]:
  "consistent (vd_r_share (validator_new rnd g))"
  "mac_balance r (vd_u_and_w (validator_new rnd g)) = 0"
  by (simp_all add: validator_new_def mac_balance_def sum3_def zero_field_def generate_fields_def)

definition accumulate_all ::
  "('v, 'e::comm_ring_1) mal_ctx \<Rightarrow> (gate \<times> record_id \<times> ('v, 'e) MaliciousShare world) list
     \<Rightarrow> 'e AccumulatorState world \<Rightarrow> 'e AccumulatorState world" where
  "accumulate_all ctx ms acc = fold (\<lambda>(g, rid, m). accumulate_macs ctx g rid m) ms acc"

context extendable_field
begin

lemma mac_balance_accumulate_all:
  assumes "to_extended ctx = ext"
    and "\<forall>(g, rid, m) \<in> set ms. consistent (\<lambda>r. x_share (m r)) \<and> consistent (\<lambda>r. rx_share (m r))"
  shows "mac_balance (mc_r_share ctx) (accumulate_all ctx ms acc) = mac_balance (mc_r_share ctx) acc
    + (\<Sum>(g, rid, m)\<leftarrow>ms. reconstruct (generate_replicated (mc_prss_e ctx) g rid) * mac_defect ctx m)"
  using assms(2)
proof (induction ms arbitrary: acc)
  case (Cons p ms)
  obtain g rid m where p: "p = (g, rid, m)" by (cases p) auto
  with Cons show ?case
    by (simp add: accumulate_all_def mac_balance_accumulate [OF assms(1)])
qed (simp add: accumulate_all_def)

end

subsection \<open>Properties\<close>

text \<open>C4: Completeness of the malicious protocols. Start from a fresh validator and run any sequence
  of upgrades, multiplications, sums of products, reshares and linear operations in its context:
  every wire carries \<open>r\<close> times its value as MAC, and \<open>validate\<close> accepts and returns the
  downgraded shares of the requested wires.\<close>

theorem malicious_run_validates:
  fixes ctx :: "('v::comm_ring_1, 'e::comm_ring_1) mal_ctx"
  assumes "extendable_field (to_extended ctx)"
    and "mc_r_share ctx = vd_r_share (validator_new (mc_prss_e ctx) g)"
    and "mal_run ctx \<lparr>wires = [], macs = vd_u_and_w (validator_new (mc_prss_e ctx) g)\<rparr> st"
    and "set values \<subseteq> set (wires st)"
  shows "(\<forall>m \<in> set (wires st). mac_valid ctx m)
    \<and> validate (mc_prss_e ctx) (validator_new (mc_prss_e ctx) g \<lparr>vd_u_and_w := macs st\<rparr>) values
        = Inr (map (\<lambda>s r. downgrade (s r)) values)"
proof -
  have r: "consistent (mc_r_share ctx)" using assms(2) by simp
  have "run_inv ctx \<lparr>wires = [], macs = vd_u_and_w (validator_new (mc_prss_e ctx) g)\<rparr>"
    by (simp add: run_inv_def)
  then have "run_inv ctx st"
    using extendable_field.mal_run_inv [OF assms(1) assms(3) refl r] by simp
  then show ?thesis
    using assms(2) by (simp add: run_inv_def validate_eq)
qed

definition example_mal_ctx :: "(Gf2, Gf32Bit) mal_ctx" where
  "example_mal_ctx = \<lparr>to_extended = gf2_to_extended, mc_prss = (\<lambda>g i r. 1), mc_prss_e = (\<lambda>g i r. 1),
     mc_r_share = vd_r_share (validator_new (\<lambda>g i r. 1) default_gate)\<rparr>"

theorem malicious_run_validates_witness:
  "\<exists>st m. mal_run example_mal_ctx \<lparr>wires = [], macs = vd_u_and_w (validator_new (\<lambda>g i r. 1) default_gate)\<rparr> st
     \<and> length (wires st) = 2 \<and> m \<in> set (wires st)
     \<and> validate (\<lambda>g i r. 1) (validator_new (\<lambda>g i r. 1) default_gate \<lparr>vd_u_and_w := macs st\<rparr>) [m]
         = Inr [\<lambda>r. downgrade (m r)]"
proof -
  let ?init = "\<lparr>wires = [], macs = vd_u_and_w (validator_new (\<lambda>g i r. 1) default_gate)\<rparr> :: (Gf2, Gf32Bit) run"
  obtain m acc where "upgrade_one example_mal_ctx Pvvv default_gate 0 (share_with 1 0 1) (macs ?init) = Inr (m, acc)"
    by (simp add: upgrade_one_def Let_def multiply_sparse_NONE [unfolded zp_NONE_def])
  from step_upgrade [OF _ this] have 1: "mal_run example_mal_ctx ?init \<lparr>wires = [m], macs = acc\<rparr>"
    by (auto intro: run_step [OF run_refl])
  obtain m' acc' where "mal_multiply example_mal_ctx (Pvvv, Pvvv) default_gate 1 m m acc = Inr (m', acc')"
    by (simp add: mal_multiply_def Let_def multiply_sparse_NONE [unfolded zp_NONE_def])
  with run_step [OF 1 step_multiply [of m _ m]]
  have "mal_run example_mal_ctx ?init \<lparr>wires = [m', m], macs = acc'\<rparr>" by simp
  with malicious_run_validates [of example_mal_ctx default_gate "\<lparr>wires = [m', m], macs = acc'\<rparr>" "[m']"]
  show ?thesis
    using gf2_ext.extendable_field_axioms
    by (intro exI [of _ "\<lparr>wires = [m', m], macs = acc'\<rparr>"] exI [of _ m']) (simp add: example_mal_ctx_def)
qed

text \<open>C5: Soundness of the final check. Whatever consistent wires were accumulated, honest or not,
  \<open>validate\<close> accepts exactly when the random combination of the defects of all wires is
  zero after multiplication with the random value of \<open>check_zero\<close>; otherwise it fails with
  \<open>MaliciousSecurityCheckFailed\<close>. In particular a single tampered wire is caught unless its random
  coefficient times its defect is annihilated.\<close>

theorem validate_soundness:
  fixes ctx :: "('v::comm_ring_1, 'e::comm_ring_1) mal_ctx"
  assumes "extendable_field (to_extended ctx)"
    and "mc_r_share ctx = vd_r_share (validator_new (mc_prss_e ctx) g)"
    and "\<forall>(g, rid, m) \<in> set ms. consistent (\<lambda>r. x_share (m r)) \<and> consistent (\<lambda>r. rx_share (m r))"
    and "vd = validator_new (mc_prss_e ctx) g \<lparr>vd_u_and_w := accumulate_all ctx ms (vd_u_and_w (validator_new (mc_prss_e ctx) g))\<rparr>"
  shows "validate (mc_prss_e ctx) vd values =
    (if reconstruct (generate_replicated (mc_prss_e ctx) (narrow (vd_validate_gate vd) ''check_zero'') 0)
        * (\<Sum>(g, rid, m)\<leftarrow>ms. reconstruct (generate_replicated (mc_prss_e ctx) g rid) * mac_defect ctx m) = 0
     then Inr (map (\<lambda>s r. downgrade (s r)) values) else Inl MaliciousSecurityCheckFailed)"
  using extendable_field.mac_balance_accumulate_all [OF assms(1) refl assms(3)] assms(2,4)
  by (simp add: validate_eq)

definition example_fp31_ctx :: "(fp31, fp31) mal_ctx" where
  "example_fp31_ctx = \<lparr>to_extended = prime_to_extended, mc_prss = (\<lambda>g i r. 2), mc_prss_e = (\<lambda>g i r. 2),
     mc_r_share = vd_r_share (validator_new (\<lambda>g i r. 2) default_gate)\<rparr>"

theorem validate_soundness_witness:
  "validate (\<lambda>g i r. 2) (validator_new (\<lambda>g i r. 2) default_gate
      \<lparr>vd_u_and_w := accumulate_all example_fp31_ctx
         [(default_gate, 3, \<lambda>r. MaliciousShare (share_known_value 5 r) (share_known_value 1 r))]
         (vd_u_and_w (validator_new (\<lambda>g i r. 2) default_gate))\<rparr>) ([] :: (fp31, fp31) MaliciousShare world list)
     = Inl MaliciousSecurityCheckFailed"
proof -
  have "mac_defect example_fp31_ctx (\<lambda>r. MaliciousShare (share_known_value 5 r) (share_known_value 1 r)) = 2"
    by (simp add: mac_defect_def example_fp31_ctx_def validator_new_def reconstruct_generate_replicated
        prime_to_extended_def)
  moreover have "extendable_field (to_extended example_fp31_ctx)"
    by (simp add: example_fp31_ctx_def prime_ext.extendable_field_axioms)
  moreover have "mc_prss_e example_fp31_ctx = (\<lambda>g i r. 2)"
    "mc_r_share example_fp31_ctx = vd_r_share (validator_new (\<lambda>g i r. 2) default_gate)"
    by (simp_all add: example_fp31_ctx_def)
  ultimately show ?thesis
    using validate_soundness [of example_fp31_ctx default_gate
        "[(default_gate, 3, \<lambda>r. MaliciousShare (share_known_value 5 r) (share_known_value 1 r))]" _ "[]", OF _ _ _ refl]
    by (simp add: reconstruct_generate_replicated)
qed

end
