(* ===== verification/Protocols.thy ===== *)
theory Protocols
  imports Malicious
begin

text \<open>
  The trait \<open>BasicProtocols\<close> of \<open>src/protocol/basics/mod.rs\<close>, through which every higher protocol
  is generic over the share type. A record \<open>protocols\<close> holds the operations of an implementation
  on what the three helpers hold together, and the locale \<open>mpc\<close> states what they promise about
  the shared value \<open>val\<close> of well-formed sharings \<open>ok\<close>. It is interpreted on the semi-honest
  protocols of \<open>Basics\<close> and on the malicious ones of \<open>Malicious\<close>, for all randomness. The wires of
  a malicious protocol do not depend on the MAC accumulators, which the operations here
  therefore leave out; \<open>Malicious\<close> treats them.
\<close>

record ('s, 'v) protocols =
  p_zero :: 's
  p_add :: "'s \<Rightarrow> 's \<Rightarrow> 's"
  p_sub :: "'s \<Rightarrow> 's \<Rightarrow> 's"
  p_neg :: "'s \<Rightarrow> 's"
  p_scale :: "'s \<Rightarrow> 'v \<Rightarrow> 's"
  p_known :: "'v \<Rightarrow> 's"
  p_mul :: "gate \<Rightarrow> record_id \<Rightarrow> 's \<Rightarrow> 's \<Rightarrow> 's"
  p_mul_sparse :: "MultiplyZeroPositions \<Rightarrow> gate \<Rightarrow> record_id \<Rightarrow> 's \<Rightarrow> 's \<Rightarrow> 's res"
  p_sop :: "gate \<Rightarrow> record_id \<Rightarrow> 's list \<Rightarrow> 's list \<Rightarrow> 's res"
  p_reveal :: "'s \<Rightarrow> 'v res"
  p_reshare :: "gate \<Rightarrow> record_id \<Rightarrow> role \<Rightarrow> 's \<Rightarrow> 's"
  p_mix :: "role \<Rightarrow> 's \<Rightarrow> 's \<Rightarrow> 's"
  p_upgrade :: "ZeroPositions \<Rightarrow> gate \<Rightarrow> record_id \<Rightarrow> 'v AdditiveShare world \<Rightarrow> 's res"

text \<open>What the helpers hold when one of them still has its part of \<open>a\<close> and the others have theirs of
  \<open>b\<close>: a step that one helper does not take part in.\<close>

definition mix :: "role \<Rightarrow> 'x world \<Rightarrow> 'x world \<Rightarrow> 'x world" where
  "mix q a b r = (if r = q then a r else b r)"

definition sh_protocols :: "'v::comm_ring_1 prss \<Rightarrow> ('v AdditiveShare world, 'v) protocols" where
  "sh_protocols rnd =
     \<lparr>p_zero = (\<lambda>_. 0), p_add = (\<lambda>s t r. s r + t r), p_sub = (\<lambda>s t r. s r - t r), p_neg = (\<lambda>s r. - s r),
      p_scale = (\<lambda>s c r. share_mul (s r) c), p_known = share_known_value, p_mul = multiply rnd,
      p_mul_sparse = (\<lambda>z. multiply_sparse z rnd), p_sop = sum_of_products rnd, p_reveal = reveal,
      p_reshare = reshare rnd, p_mix = mix, p_upgrade = (\<lambda>z g rid s. Inr s)\<rparr>"

definition no_macs :: "'e::comm_ring_1 AccumulatorState world" where
  "no_macs r = \<lparr>acc_u = 0, acc_w = 0\<rparr>"

definition wire_of :: "('w \<times> 'acc) res \<Rightarrow> 'w res" where
  "wire_of m = bind_res m (\<lambda>p. Inr (fst p))"

definition mal_protocols :: "('v::comm_ring_1, 'e::comm_ring_1) mal_ctx \<Rightarrow> (('v, 'e) MaliciousShare world, 'v) protocols" where
  "mal_protocols ctx =
     \<lparr>p_zero = (\<lambda>_. 0), p_add = (\<lambda>s t r. s r + t r), p_sub = (\<lambda>s t r. s r - t r), p_neg = (\<lambda>s r. - s r),
      p_scale = (\<lambda>s c r. mal_mul (to_extended ctx) (s r) c), p_known = mal_share_known_value ctx,
      p_mul = (\<lambda>g rid a b. projr (wire_of (mal_multiply ctx zp_NONE g rid a b no_macs))),
      p_mul_sparse = (\<lambda>z g rid a b. wire_of (mal_multiply ctx z g rid a b no_macs)),
      p_sop = (\<lambda>g rid a b. wire_of (mal_sum_of_products ctx g rid a b no_macs)),
      p_reveal = mal_reveal,
      p_reshare = (\<lambda>g rid to s. fst (mal_reshare ctx g rid to s no_macs)),
      p_mix = mix, p_upgrade = (\<lambda>z g rid s. wire_of (upgrade_one ctx z g rid s no_macs))\<rparr>"

locale mpc =
  fixes P :: "('s, 'v::comm_ring_1) protocols"
    and val :: "'s \<Rightarrow> 'v"
    and ok :: "'s \<Rightarrow> bool"
    and zp :: "ZeroPositions \<Rightarrow> 's \<Rightarrow> bool"
  assumes ok_zero [simp]: "ok (p_zero P)"
    and val_zero [simp]: "val (p_zero P) = 0"
    and ok_add [simp]: "ok a \<Longrightarrow> ok b \<Longrightarrow> ok (p_add P a b)"
    and val_add [simp]: "val (p_add P a b) = val a + val b"
    and ok_sub [simp]: "ok a \<Longrightarrow> ok b \<Longrightarrow> ok (p_sub P a b)"
    and val_sub [simp]: "val (p_sub P a b) = val a - val b"
    and ok_neg [simp]: "ok a \<Longrightarrow> ok (p_neg P a)"
    and val_neg [simp]: "val (p_neg P a) = - val a"
    and ok_scale [simp]: "ok a \<Longrightarrow> ok (p_scale P a c)"
    and val_scale [simp]: "val (p_scale P a c) = val a * c"
    and ok_known [simp]: "ok (p_known P c)"
    and val_known [simp]: "val (p_known P c) = c"
    and ok_mul [simp]: "ok a \<Longrightarrow> ok b \<Longrightarrow> ok (p_mul P g rid a b)"
    and val_mul [simp]: "ok a \<Longrightarrow> ok b \<Longrightarrow> val (p_mul P g rid a b) = val a * val b"
    and mul_sparse_NONE: "p_mul_sparse P zp_NONE g rid a b = Inr (p_mul P g rid a b)"
    and mul_sparse: "ok a \<Longrightarrow> ok b \<Longrightarrow> zp (fst z) a \<Longrightarrow> zp (snd z) b \<Longrightarrow> \<not> is_pointless z \<Longrightarrow>
      \<exists>c zo. p_mul_sparse P z g rid a b = Inr c \<and> ok c \<and> val c = val a * val b \<and> mul_output z = Inr zo \<and> zp zo c"
    and sop: "length as = length bs \<Longrightarrow> list_all ok as \<Longrightarrow> list_all ok bs \<Longrightarrow>
      \<exists>c. p_sop P g rid as bs = Inr c \<and> ok c \<and> val c = (\<Sum>(a, b)\<leftarrow>zip as bs. val a * val b)"
    and reveal_val [simp]: "ok a \<Longrightarrow> p_reveal P a = Inr (val a)"
    and ok_reshare [simp]: "ok a \<Longrightarrow> ok (p_reshare P g rid to a)"
    and val_reshare [simp]: "ok a \<Longrightarrow> val (p_reshare P g rid to a) = val a"
    and reshare_mix: "p_reshare P g rid to (p_mix P to a b) = p_reshare P g rid to b"
    and mix_same: "p_mix P to a a = a"
    and upgrade: "consistent s \<Longrightarrow> zeros_match zs s \<Longrightarrow>
      \<exists>c. p_upgrade P zs g rid s = Inr c \<and> ok c \<and> val c = reconstruct s \<and> zp zs c"
    and zp_add: "zp zs a \<Longrightarrow> zp zs b \<Longrightarrow> zp zs (p_add P a b)"
    and zp_neg: "zp zs a \<Longrightarrow> zp zs (p_neg P a)"
    and zp_scale: "zp zs a \<Longrightarrow> zp zs (p_scale P a c)"
    and zp_weaken: "zp zs a \<Longrightarrow> (\<And>i. flag_at (zp_flags zs') i \<Longrightarrow> flag_at (zp_flags zs) i) \<Longrightarrow> zp zs' a"
begin

text \<open>A sharing of a bit, and of a list of bits.\<close>

definition has_val :: "'v \<Rightarrow> 's \<Rightarrow> bool" where
  "has_val v s \<longleftrightarrow> ok s \<and> val s = v"

definition is_bit :: "bool \<Rightarrow> 's \<Rightarrow> bool" where
  "is_bit b s \<longleftrightarrow> ok s \<and> val s = of_bool b"

lemma is_bitD: "is_bit b s \<Longrightarrow> ok s" "is_bit b s \<Longrightarrow> val s = of_bool b"
  by (simp_all add: is_bit_def)

lemma is_bits_ok: "list_all2 is_bit bs ss \<Longrightarrow> list_all ok ss"
  by (induction rule: list_all2_induct) (simp_all add: is_bit_def)

end

lemma reshare_mix_eq: "reshare rnd g rid to (mix to a b) = reshare rnd g rid to b"
  by (rule ext) (cases to; simp add: reshare_def mix_def Let_def)

lemma mal_reshare_mix_eq: "mal_reshare ctx g rid to (mix to a b) acc = mal_reshare ctx g rid to b acc"
proof -
  have "(\<lambda>r. x_share (mix to a b r)) = mix to (\<lambda>r. x_share (a r)) (\<lambda>r. x_share (b r))"
    "(\<lambda>r. rx_share (mix to a b r)) = mix to (\<lambda>r. rx_share (a r)) (\<lambda>r. rx_share (b r))"
    by (auto simp: mix_def)
  then show ?thesis by (simp add: mal_reshare_def reshare_mix_eq)
qed

subsection \<open>The semi-honest protocols meet the contract\<close>

interpretation sh: mpc "sh_protocols rnd" reconstruct consistent zeros_match for rnd
proof
  fix a b :: "'a AdditiveShare world" and z g rid
  assume "consistent a" "consistent b" "zeros_match (fst z) a" "zeros_match (snd z) b" "\<not> is_pointless z"
  moreover obtain zo where "mul_output z = Inr zo"
    using \<open>\<not> is_pointless z\<close> by (cases z; cases "fst z"; cases "snd z") (auto simp: mul_output_def work_def is_pointless_def)
  moreover obtain c where "multiply_sparse z rnd g rid a b = Inr c" "consistent c"
    "reconstruct c = reconstruct a * reconstruct b"
    using multiply_sparse_ok calculation by metis
  ultimately show "\<exists>c zo. p_mul_sparse (sh_protocols rnd) z g rid a b = Inr c \<and> consistent c
      \<and> reconstruct c = reconstruct a * reconstruct b \<and> mul_output z = Inr zo \<and> zeros_match zo c"
    using mul_output_zero by (fastforce simp: sh_protocols_def)
next
  fix as bs :: "'a AdditiveShare world list" and g rid
  assume "length as = length bs" "list_all consistent as" "list_all consistent bs"
  then obtain c where "sum_of_products rnd g rid as bs = Inr c" "consistent c"
      "reconstruct c = (\<Sum>(a, b)\<leftarrow>zip as bs. reconstruct a * reconstruct b)"
    by (auto simp: list_all_iff intro: sum_of_products_ok)
  then show "\<exists>c. p_sop (sh_protocols rnd) g rid as bs = Inr c \<and> consistent c
      \<and> reconstruct c = (\<Sum>(a, b)\<leftarrow>zip as bs. reconstruct a * reconstruct b)"
    by (simp add: sh_protocols_def)
qed (auto simp: sh_protocols_def multiply_sparse_NONE zeros_match_def reshare_mix_eq mix_def)

subsection \<open>So do the malicious ones\<close>

text \<open>The context that \<open>validator_new\<close> hands to a protocol.\<close>

definition upgraded_ctx ::
  "('v \<Rightarrow> 'e::comm_ring_1) \<Rightarrow> 'v prss \<Rightarrow> 'e prss \<Rightarrow> gate \<Rightarrow> ('v, 'e) mal_ctx" where
  "upgraded_ctx ext rnd rnd_e g =
     \<lparr>to_extended = ext, mc_prss = rnd, mc_prss_e = rnd_e, mc_r_share = vd_r_share (validator_new rnd_e g)\<rparr>"

definition mal_zeros :: "ZeroPositions \<Rightarrow> ('v::comm_ring_1, 'e) MaliciousShare world \<Rightarrow> bool" where
  "mal_zeros z m \<longleftrightarrow> zeros_match z (\<lambda>r. x_share (m r))"

lemma wire_of_simps [simp]: "wire_of (Inr p) = Inr (fst p)" "wire_of (Inl e) = Inl e"
  by (simp_all add: wire_of_def)

lemma mal_multiply_NONE:
  "mal_multiply ctx zp_NONE g rid a b acc = Inr (
     let m = (\<lambda>r. MaliciousShare (multiply (mc_prss ctx) g rid (\<lambda>r. x_share (a r)) (\<lambda>r. x_share (b r)) r)
       (multiply (mc_prss_e ctx) (narrow g ''duplicate_multiply'') rid (\<lambda>r. rx_share (a r)) (\<lambda>r. induced_share (to_extended ctx) (x_share (b r))) r))
     in (m, accumulate_macs ctx (narrow g ''randomness_for_validation'') rid m acc))"
  by (simp add: mal_multiply_def Let_def zp_NONE_def multiply_sparse_NONE [unfolded zp_NONE_def])

context extendable_field
begin

lemma mal_multiply_sparse_ok:
  assumes "to_extended ctx = ext" and "mac_valid ctx a" and "mac_valid ctx b"
    and "mal_zeros (fst z) a" and "mal_zeros (snd z) b" and "\<not> is_pointless z"
  shows "\<exists>c zo. wire_of (mal_multiply ctx z g rid a b acc) = Inr c \<and> mac_valid ctx c
    \<and> mal_value c = mal_value a * mal_value b \<and> mul_output z = Inr zo \<and> mal_zeros zo c"
proof -
  have ok: "consistent (\<lambda>r. x_share (a r))" "consistent (\<lambda>r. rx_share (a r))" "consistent (\<lambda>r. x_share (b r))"
    using assms(2,3) by (simp_all add: mac_valid_def)
  obtain ab where ab: "multiply_sparse z (mc_prss ctx) g rid (\<lambda>r. x_share (a r)) (\<lambda>r. x_share (b r)) = Inr ab"
    using multiply_sparse_ok [OF _ _ ok(1,3) assms(6)] assms(4,5) unfolding mal_zeros_def by metis
  have "zeros_match (snd z) (\<lambda>r. induced_share ext (x_share (b r)))"
    using assms(5) by (auto simp: mal_zeros_def zeros_match_def induced_share_def ext_zero)
  moreover have "zeros_match Pvvv (\<lambda>r. rx_share (a r))" "\<not> is_pointless (Pvvv, snd z)"
    by (simp_all add: zeros_match_def is_pointless_def)
  ultimately obtain rab where rab: "multiply_sparse (Pvvv, snd z) (mc_prss_e ctx) (narrow g ''duplicate_multiply'') rid
      (\<lambda>r. rx_share (a r)) (\<lambda>r. induced_share ext (x_share (b r))) = Inr rab"
    using multiply_sparse_ok [of "(Pvvv, snd z)", OF _ _ ok(2) consistent_induced [OF ok(3)]] by (metis fst_conv snd_conv)
  define m where "m = (\<lambda>r. MaliciousShare (ab r) (rab r))"
  have m: "mal_multiply ctx z g rid a b acc = Inr (m, accumulate_macs ctx (narrow g ''randomness_for_validation'') rid m acc)"
    using ab rab assms(1) by (simp add: mal_multiply_def m_def Let_def)
  obtain zo where zo: "mul_output z = Inr zo"
    using assms(6) by (cases z; cases "fst z"; cases "snd z") (auto simp: mul_output_def work_def is_pointless_def)
  have "mal_zeros zo m"
    using mul_output_zero [OF _ _ ab zo] assms(4,5) by (simp add: mal_zeros_def m_def)
  with mac_valid_multiply [OF assms(1-3) m] m zo show ?thesis by simp
qed

lemma mal_upgrade_ok:
  assumes "to_extended ctx = ext" and "consistent (mc_r_share ctx)" and "consistent s" and "zeros_match z s"
  shows "\<exists>c. wire_of (upgrade_one ctx z g rid s acc) = Inr c \<and> mac_valid ctx c \<and> mal_value c = reconstruct s \<and> mal_zeros z c"
proof -
  have "zeros_match z (\<lambda>r. induced_share ext (s r))"
    using assms(4) by (auto simp: zeros_match_def induced_share_def ext_zero)
  moreover have "zeros_match Pvvv (mc_r_share ctx)" "\<not> is_pointless (z, Pvvv)"
    by (cases z; simp add: zeros_match_def is_pointless_def work_def)+
  ultimately obtain rxs where "multiply_sparse (z, Pvvv) (mc_prss_e ctx) g rid (\<lambda>r. induced_share ext (s r)) (mc_r_share ctx) = Inr rxs"
    using multiply_sparse_ok [of "(z, Pvvv)", OF _ _ consistent_induced [OF assms(3)] assms(2)] by (metis fst_conv snd_conv)
  then have "upgrade_one ctx z g rid s acc = Inr (\<lambda>r. MaliciousShare (s r) (rxs r),
      accumulate_macs ctx (narrow g ''randomness_for_validation'') rid (\<lambda>r. MaliciousShare (s r) (rxs r)) acc)"
    using assms(1) by (simp add: upgrade_one_def Let_def)
  with mac_valid_upgrade [OF assms(1-3) this] assms(4) show ?thesis
    by (simp add: mal_value_def mal_zeros_def)
qed

lemma mal_mpc:
  assumes "to_extended ctx = ext" and "consistent (mc_r_share ctx)"
  shows "mpc (mal_protocols ctx) mal_value (mac_valid ctx) mal_zeros"
proof
  fix a b z g rid
  assume "mac_valid ctx a" "mac_valid ctx b"
  then have "mac_valid ctx (projr (wire_of (mal_multiply ctx zp_NONE g rid a b no_macs)))
      \<and> mal_value (projr (wire_of (mal_multiply ctx zp_NONE g rid a b no_macs))) = mal_value a * mal_value b"
    using mac_valid_multiply [OF assms(1) _ _ mal_multiply_NONE [unfolded Let_def]]
    by (simp add: mal_multiply_NONE Let_def)
  then show "mac_valid ctx (p_mul (mal_protocols ctx) g rid a b)"
    and "mal_value (p_mul (mal_protocols ctx) g rid a b) = mal_value a * mal_value b"
    by (simp_all add: mal_protocols_def)
next
  fix a b z g rid
  assume "mac_valid ctx a" "mac_valid ctx b" "mal_zeros (fst z) a" "mal_zeros (snd z) b" "\<not> is_pointless z"
  from mal_multiply_sparse_ok [OF assms(1) this]
  show "\<exists>c zo. p_mul_sparse (mal_protocols ctx) z g rid a b = Inr c \<and> mac_valid ctx c
      \<and> mal_value c = mal_value a * mal_value b \<and> mul_output z = Inr zo \<and> mal_zeros zo c"
    by (simp add: mal_protocols_def)
next
  fix as bs g rid
  assume *: "length as = length bs" "list_all (mac_valid ctx) as" "list_all (mac_valid ctx) bs"
  then obtain m acc where m: "mal_sum_of_products ctx g rid as bs no_macs = Inr (m, acc)"
    by (simp add: mal_sum_of_products_def Let_def)
  from * mac_valid_sop [OF assms(1) _ _ m] show "\<exists>c. p_sop (mal_protocols ctx) g rid as bs = Inr c
      \<and> mac_valid ctx c \<and> mal_value c = (\<Sum>(a, b)\<leftarrow>zip as bs. mal_value a * mal_value b)"
    by (simp add: mal_protocols_def m list_all_iff)
next
  fix a g rid to
  assume a: "mac_valid ctx a"
  obtain m acc where m: "mal_reshare ctx g rid to a no_macs = (m, acc)" by fastforce
  from mac_valid_reshare [OF assms(1) a m]
  show "mac_valid ctx (p_reshare (mal_protocols ctx) g rid to a)"
    and "mal_value (p_reshare (mal_protocols ctx) g rid to a) = mal_value a"
    by (simp_all add: mal_protocols_def m)
next
  fix s :: "'v AdditiveShare world" and zs g rid
  assume "consistent s" "zeros_match zs s"
  from mal_upgrade_ok [OF assms this]
  show "\<exists>c. p_upgrade (mal_protocols ctx) zs g rid s = Inr c \<and> mac_valid ctx c \<and> mal_value c = reconstruct s \<and> mal_zeros zs c"
    by (simp add: mal_protocols_def)
next
  fix a
  assume "mac_valid ctx a"
  then show "p_reveal (mal_protocols ctx) a = Inr (mal_value a)"
    by (simp add: mal_protocols_def mal_reveal_ok mac_valid_def mal_value_def)
qed (use assms mac_valid_linear [OF assms(1)] mac_valid_known [OF assms] in
      \<open>auto simp: mal_protocols_def mal_value_def mal_multiply_NONE mac_valid_def ext_zero
         mal_share_known_value_def Let_def mal_zeros_def zeros_match_def mal_reshare_mix_eq mix_def\<close>)

end

interpretation mal_prime: mpc "mal_protocols (upgraded_ctx prime_to_extended rnd rnd_e g)" mal_value
    "mac_valid (upgraded_ctx prime_to_extended rnd rnd_e g)" mal_zeros
  for rnd rnd_e :: "'v::comm_ring_1 prss" and g
  by (rule prime_ext.mal_mpc) (simp_all add: upgraded_ctx_def)

interpretation mal_gf2: mpc "mal_protocols (upgraded_ctx gf2_to_extended rnd rnd_e g)" mal_value
    "mac_valid (upgraded_ctx gf2_to_extended rnd rnd_e g)" mal_zeros
  for rnd rnd_e g
  by (rule gf2_ext.mal_mpc) (simp_all add: upgraded_ctx_def)

subsection \<open>Sharings of bits, written out\<close>

definition sh_bit :: "bool \<Rightarrow> 'v::comm_ring_1 AdditiveShare world \<Rightarrow> bool" where
  "sh_bit b s \<longleftrightarrow> consistent s \<and> reconstruct s = of_bool b"

definition mal_bit :: "('v::comm_ring_1, 'e::comm_ring_1) mal_ctx \<Rightarrow> bool \<Rightarrow> ('v, 'e) MaliciousShare world \<Rightarrow> bool" where
  "mal_bit ctx b m \<longleftrightarrow> mac_valid ctx m \<and> mal_value m = of_bool b"

lemma sh_is_bit [simp]: "sh.is_bit = sh_bit"
  by (intro ext) (simp add: sh.is_bit_def sh_bit_def)

lemma mal_prime_is_bit [simp]: "mal_prime.is_bit rnd rnd_e g = mal_bit (upgraded_ctx prime_to_extended rnd rnd_e g)"
  by (intro ext) (simp add: mal_prime.is_bit_def mal_bit_def)

lemma mal_gf2_is_bit [simp]: "mal_gf2.is_bit rnd rnd_e g = mal_bit (upgraded_ctx gf2_to_extended rnd rnd_e g)"
  by (intro ext) (simp add: mal_gf2.is_bit_def mal_bit_def)

end
