(* ===== verification/Boolean_Circuits.thy ===== *)
theory Boolean_Circuits
  imports Protocols
begin

text \<open>
  The circuits on shared bits, \<open>src/protocol/boolean/\<close>: exclusive or, or, products of many
  shares, zero tests, equality with a constant, addition of a constant, comparison with
  constants and with the prime.
  All are generic in the share type and are proved once, inside the locale \<open>mpc\<close>.
\<close>

subsection \<open>Gates with one multiplication\<close>

text \<open>\<open>trunc\<close> is \<open>truncate_from\<close> of the field.\<close>

definition xor_sparse ::
  "(nat \<Rightarrow> 'v) \<Rightarrow> ('s, 'v) protocols \<Rightarrow> gate \<Rightarrow> record_id \<Rightarrow> 's \<Rightarrow> 's \<Rightarrow> MultiplyZeroPositions \<Rightarrow> 's res" where
  "xor_sparse trunc P g rid a b zeros_at =
     bind_res (p_mul_sparse P zeros_at g rid a b) (\<lambda>ab.
     Inr (p_add P (p_add P (p_neg P (p_scale P ab (trunc 2))) a) b))"

definition secure_xor :: "(nat \<Rightarrow> 'v) \<Rightarrow> ('s, 'v) protocols \<Rightarrow> gate \<Rightarrow> record_id \<Rightarrow> 's \<Rightarrow> 's \<Rightarrow> 's res" where
  "secure_xor trunc P g rid a b = xor_sparse trunc P g rid a b zp_NONE"

definition secure_or :: "('s, 'v) protocols \<Rightarrow> gate \<Rightarrow> record_id \<Rightarrow> 's \<Rightarrow> 's \<Rightarrow> 's" where
  "secure_or P g rid a b = p_add P (p_add P (p_neg P (p_mul P g rid a b)) a) b"

definition if_else :: "('s, 'v) protocols \<Rightarrow> gate \<Rightarrow> record_id \<Rightarrow> 's \<Rightarrow> 's \<Rightarrow> 's \<Rightarrow> 's" where
  "if_else P g rid condition true_value false_value =
     p_add P false_value (p_mul P g rid condition (p_sub P true_value false_value))"

subsection \<open>Products and zero tests of many shares\<close>

definition local_secret_shared_bits ::
  "'v::comm_ring_1 prime_field_ops \<Rightarrow> ('s, 'v) protocols \<Rightarrow> nat \<Rightarrow> 's list" where
  "local_secret_shared_bits F P n =
     map (\<lambda>i. if odd (n div 2 ^ i) then p_known P 1 else p_zero P)
       [0..<bit_length (of_nat (PRIME F) :: u128)]"

text \<open>One round of the loop of \<open>multiply_all_shares\<close>: neighbours are multiplied, an odd last one is
  kept; \<open>n\<close> is the count of multiplications so far.\<close>

definition multiply_round :: "('s, 'v) protocols \<Rightarrow> gate \<Rightarrow> record_id \<Rightarrow> nat \<Rightarrow> 's list \<Rightarrow> 's list" where
  "multiply_round P g rid n xs =
     map (\<lambda>i. p_mul P (narrow g (bit_op_step (n + i))) rid (xs ! (2 * i)) (xs ! (2 * i + 1)))
       [0..<length xs div 2]
     @ (if odd (length xs) then [last xs] else [])"

lemma length_multiply_round [simp]: "length (multiply_round P g rid n xs) = (length xs + 1) div 2"
  by (simp add: multiply_round_def)

function multiply_loop :: "('s, 'v) protocols \<Rightarrow> gate \<Rightarrow> record_id \<Rightarrow> nat \<Rightarrow> 's list \<Rightarrow> 's list" where
  "multiply_loop P g rid n xs =
     (if length xs > 1 then multiply_loop P g rid (n + length xs div 2) (multiply_round P g rid n xs)
      else xs)"
  by pat_completeness auto
termination by (relation "measure (\<lambda>(P, g, rid, n, xs). length xs)") auto

declare multiply_loop.simps [simp del]

definition multiply_all_shares :: "('s, 'v) protocols \<Rightarrow> gate \<Rightarrow> record_id \<Rightarrow> 's list \<Rightarrow> 's res" where
  "multiply_all_shares P g rid xs =
     (case multiply_loop P g rid 0 xs of [] \<Rightarrow> Inl Panic | s # _ \<Rightarrow> Inr s)"

definition flip_bits :: "('s, 'v) protocols \<Rightarrow> 's \<Rightarrow> 's list \<Rightarrow> 's list" where
  "flip_bits P one xs = map (\<lambda>a. p_sub P one a) xs"

definition all_zeroes :: "('s, 'v::comm_ring_1) protocols \<Rightarrow> gate \<Rightarrow> record_id \<Rightarrow> 's list \<Rightarrow> 's res" where
  "all_zeroes P g rid xs = multiply_all_shares P g rid (flip_bits P (p_known P 1) xs)"

definition any_ones :: "('s, 'v::comm_ring_1) protocols \<Rightarrow> gate \<Rightarrow> record_id \<Rightarrow> 's list \<Rightarrow> 's res" where
  "any_ones P g rid xs = bind_res (all_zeroes P g rid xs) (\<lambda>r. Inr (p_sub P (p_known P 1) r))"

text \<open>The local exclusive or of shared bits with the bits of a constant.\<close>

definition xor_constant :: "('s, 'v::comm_ring_1) protocols \<Rightarrow> 's list \<Rightarrow> nat \<Rightarrow> 's list" where
  "xor_constant P a c =
     map (\<lambda>(i, a_bit). if even (c div 2 ^ i) then a_bit else p_sub P (p_known P 1) a_bit) (enumerate 0 a)"

definition bitwise_equal_constant ::
  "('s, 'v::comm_ring_1) protocols \<Rightarrow> gate \<Rightarrow> record_id \<Rightarrow> 's list \<Rightarrow> nat \<Rightarrow> 's res" where
  "bitwise_equal_constant P g rid a c =
     (if length a > 128 then Inl Panic else all_zeroes P g rid (xor_constant P a c))"

definition bitwise_equal_gf2 ::
  "('s, Gf2) protocols \<Rightarrow> gate \<Rightarrow> record_id \<Rightarrow> 's list \<Rightarrow> 's list \<Rightarrow> 's res" where
  "bitwise_equal_gf2 P g rid a b =
     (if length a \<noteq> length b then Inl Panic
      else all_zeroes P g rid (map (\<lambda>(x, y). p_sub P x y) (zip a b)))"

subsection \<open>Addition of a constant\<close>

text \<open>The loop body from bit \<open>i\<close> on; shifting a \<open>u128\<close> by 128 or more panics.\<close>

fun add_constant_loop ::
  "(nat \<Rightarrow> 'v::comm_ring_1) \<Rightarrow> ('s, 'v) protocols \<Rightarrow> gate \<Rightarrow> record_id \<Rightarrow> nat \<Rightarrow> nat \<Rightarrow> bool \<Rightarrow> 's \<Rightarrow> 's list \<Rightarrow> 's list res" where
  "add_constant_loop trunc P g rid b i known_zero last_carry [] = Inr [last_carry]"
| "add_constant_loop trunc P g rid b i known_zero last_carry (a_bit # bits) =
     (if i \<ge> 128 then Inl Panic
      else
        let mult_result = (if known_zero then p_zero P
              else p_mul P (narrow g (bit_op_step i)) rid last_carry a_bit);
            next_bit_a_one = odd (b div 2 ^ i);
            next_carry = (if next_bit_a_one then p_add P (p_add P (p_neg P mult_result) last_carry) a_bit
              else mult_result);
            result_bit = (if next_bit_a_one
              then p_add P (p_add P (p_add P (p_neg P (p_scale P next_carry (trunc 2))) (p_known P 1)) a_bit) last_carry
              else p_add P (p_add P (p_neg P (p_scale P next_carry (trunc 2))) a_bit) last_carry)
        in bind_res (add_constant_loop trunc P g rid b (i + 1) (known_zero \<and> \<not> next_bit_a_one) next_carry bits)
             (\<lambda>output. Inr (result_bit # output)))"

definition add_constant ::
  "(nat \<Rightarrow> 'v::comm_ring_1) \<Rightarrow> ('s, 'v) protocols \<Rightarrow> gate \<Rightarrow> record_id \<Rightarrow> 's list \<Rightarrow> nat \<Rightarrow> 's list res" where
  "add_constant trunc P g rid a b =
     (case a of [] \<Rightarrow> Inl Panic
      | a0 # as \<Rightarrow>
        let known_zero = even b;
            last_carry = (if known_zero then p_zero P else a0);
            result_bit = (if known_zero then a0 else p_sub P (p_known P 1) a0)
        in bind_res (add_constant_loop trunc P g rid b 1 known_zero last_carry as)
             (\<lambda>output. Inr (result_bit # output)))"

subsection \<open>Comparison with a constant\<close>

text \<open>The prefix-or from the most significant bit down; the list is in the order of processing.\<close>

fun prefix_or_diff :: "('s, 'v) protocols \<Rightarrow> gate \<Rightarrow> record_id \<Rightarrow> nat \<Rightarrow> 's \<Rightarrow> 's list \<Rightarrow> 's list" where
  "prefix_or_diff P g rid i previous_bit [] = []"
| "prefix_or_diff P g rid i previous_bit (a_bit # bits) =
     (let result = secure_or P (narrow g (bit_op_step i)) rid previous_bit a_bit
      in p_sub P result previous_bit # prefix_or_diff P g rid (i + 1) result bits)"

definition first_differing_bit ::
  "('s, 'v::comm_ring_1) protocols \<Rightarrow> gate \<Rightarrow> record_id \<Rightarrow> 's list \<Rightarrow> nat \<Rightarrow> 's list res" where
  "first_differing_bit P g rid a b =
     (let xored_bits = xor_constant P a b in
      case rev xored_bits of [] \<Rightarrow> Inl Panic
      | msb # rest \<Rightarrow> Inr (rev (msb # prefix_or_diff P (narrow g ''prefix_or'') rid 0 msb rest)))"

definition bitwise_greater_than_constant ::
  "('s, 'v::comm_ring_1) protocols \<Rightarrow> gate \<Rightarrow> record_id \<Rightarrow> 's list \<Rightarrow> nat \<Rightarrow> 's res" where
  "bitwise_greater_than_constant P g rid a c =
     (if length a > 128 then Inl Panic
      else bind_res (first_differing_bit P g rid a c) (\<lambda>first_diff_bit.
           p_sop P (narrow g ''dot_product'') rid first_diff_bit a))"

definition bitwise_less_than_constant ::
  "('s, 'v::comm_ring_1) protocols \<Rightarrow> gate \<Rightarrow> record_id \<Rightarrow> 's list \<Rightarrow> nat \<Rightarrow> 's res" where
  "bitwise_less_than_constant P g rid a c =
     (if length a > 128 then Inl Panic
      else bind_res (first_differing_bit P g rid a c) (\<lambda>first_diff_bit.
           p_sop P (narrow g ''dot_product'') rid first_diff_bit (map (\<lambda>a_bit. p_sub P (p_known P 1) a_bit) a)))"

record RBounds =
  r_lo :: nat
  r_hi :: nat
  invert :: bool

definition compute_r_bounds :: "nat \<Rightarrow> nat \<Rightarrow> nat \<Rightarrow> RBounds" where
  "compute_r_bounds b c p =
     (if b > c then \<lparr>r_lo = b - c - 1, r_hi = b + 1, invert = True\<rparr>
      else \<lparr>r_lo = b, r_hi = p + b - c, invert = False\<rparr>)"

record 's RandomBitsShare =
  b_b :: "'s list"
  b_p :: 's

text \<open>\<open>r\<close> is what the generator of random bits returned for the record.\<close>

definition greater_than_constant ::
  "'v::comm_ring_1 prime_field_ops \<Rightarrow> ('s, 'v) protocols \<Rightarrow> gate \<Rightarrow> record_id \<Rightarrow> 's RandomBitsShare \<Rightarrow> 's \<Rightarrow> nat \<Rightarrow> 's res" where
  "greater_than_constant F P g rid r a c =
     (if \<not> c < PRIME F then Inl Panic
      else bind_res (p_reveal P (p_add P (b_p r) a)) (\<lambda>b.
        let bounds = compute_r_bounds (as_u128 F b) c (PRIME F) in
        bind_res (bitwise_greater_than_constant P (narrow g ''compare_lo'') rid (b_b r) (r_lo bounds)) (\<lambda>r_gt_r_lo.
        bind_res (bitwise_less_than_constant P (narrow g ''compare_hi'') rid (b_b r) (r_hi bounds)) (\<lambda>r_lt_r_hi.
        let in_range = p_mul P (narrow g ''and'') rid r_gt_r_lo r_lt_r_hi
        in Inr (if invert bounds then p_sub P (p_known P 1) in_range else in_range)))))"

subsection \<open>Bit lists: first difference and comparison\<close>

fun first_true :: "bool \<Rightarrow> bool list \<Rightarrow> bool list" where
  "first_true prev [] = []"
| "first_true prev (d # ds) = (\<not> prev \<and> d) # first_true (prev \<or> d) ds"

lemma length_first_true [simp]: "length (first_true prev ds) = length ds"
  by (induction ds arbitrary: prev) simp_all

lemma first_true_sum_zero: "(\<Sum>(f, b)\<leftarrow>zip (first_true True ds) bs. of_bool f * of_bool (h b)) = (0 :: 'v::comm_ring_1)"
proof (induction ds arbitrary: bs)
  case (Cons d ds)
  then show ?case by (cases bs) simp_all
qed simp

lemma bits_nat_rev_Cons: "bits_nat (rev (b # bs)) = bits_nat (rev bs) + 2 ^ length bs * of_bool b"
  by (simp add: bits_nat_append)

text \<open>Both lists are most significant bit first.\<close>

lemma first_true_compare:
  assumes "length as = length cs"
  shows "(\<Sum>(f, a)\<leftarrow>zip (first_true False (map2 (\<noteq>) as cs)) as. of_bool f * of_bool a)
      = (of_bool (bits_nat (rev as) > bits_nat (rev cs)) :: 'v::comm_ring_1)"
    and "(\<Sum>(f, a)\<leftarrow>zip (first_true False (map2 (\<noteq>) as cs)) as. of_bool f * of_bool (\<not> a))
      = (of_bool (bits_nat (rev as) < bits_nat (rev cs)) :: 'v::comm_ring_1)"
  using assms
proof (induction as cs rule: list_induct2)
  case (Cons a as c cs)
  have less: "bits_nat (rev as) < 2 ^ length cs" "bits_nat (rev cs) < 2 ^ length cs"
    using bits_nat_less [of "rev as"] bits_nat_less [of "rev cs"] Cons.hyps by simp_all
  {
    case 1
    show ?case
      using Cons.IH(1) less Cons.hyps
      by (cases "a = c") (auto simp: bits_nat_rev_Cons first_true_sum_zero simp del: rev.simps)
  next
    case 2
    show ?case
      using Cons.IH(2) less Cons.hyps
      by (cases "a = c") (auto simp: bits_nat_rev_Cons first_true_sum_zero simp del: rev.simps)
  }
qed simp_all

lemma sum_list_rev_zip:
  "length xs = length ys \<Longrightarrow> (\<Sum>p\<leftarrow>zip (rev xs) ys. f p) = (\<Sum>p\<leftarrow>zip xs (rev ys). f p :: 'v::comm_ring_1)"
  by (metis length_rev rev_map rev_rev_ident sum_list.rev zip_rev)

subsection \<open>Correctness of the circuits\<close>

context mpc
begin

lemma xor_sparse_ok:
  assumes "trunc 2 = (2 :: 'v)" and "is_bit u a" and "is_bit v b" and "zp (fst z) a" and "zp (snd z) b" and "\<not> is_pointless z"
  shows "\<exists>c. xor_sparse trunc P g rid a b z = Inr c \<and> is_bit (u \<noteq> v) c"
proof -
  obtain ab where "p_mul_sparse P z g rid a b = Inr ab" "ok ab" "val ab = val a * val b"
    using mul_sparse assms by (metis is_bitD(1))
  with assms show ?thesis
    by (cases u; cases v) (simp_all add: xor_sparse_def is_bit_def)
qed

lemma secure_xor_ok:
  assumes "trunc 2 = (2 :: 'v)" and "is_bit u a" and "is_bit v b"
  shows "\<exists>c. secure_xor trunc P g rid a b = Inr c \<and> is_bit (u \<noteq> v) c"
  using assms
  by (cases u; cases v) (simp_all add: secure_xor_def xor_sparse_def mul_sparse_NONE is_bit_def)

lemma secure_or_ok: "is_bit u a \<Longrightarrow> is_bit v b \<Longrightarrow> is_bit (u \<or> v) (secure_or P g rid a b)"
  by (cases u; cases v) (simp_all add: secure_or_def is_bit_def)

lemma if_else_ok:
  assumes "is_bit c condition" and "ok t" and "ok f"
  shows "ok (if_else P g rid condition t f)" and "val (if_else P g rid condition t f) = (if c then val t else val f)"
  using assms by (cases c; simp add: if_else_def is_bit_def)+

lemma is_bit_flip: "is_bit b s \<Longrightarrow> is_bit (\<not> b) (p_sub P (p_known P 1) s)"
  by (cases b) (simp_all add: is_bit_def)

lemma is_bit_known: "is_bit True (p_known P 1)" "is_bit False (p_zero P)"
  by (simp_all add: is_bit_def)

lemma multiply_round_prod:
  assumes "list_all ok xs"
  shows "list_all ok (multiply_round P g rid n xs)"
    and "prod_list (map val (multiply_round P g rid n xs)) = prod_list (map val xs)"
proof -
  have "list_all ok (multiply_round P g rid n xs) \<and> prod_list (map val (multiply_round P g rid n xs)) = prod_list (map val xs)"
    using assms
  proof (induction xs arbitrary: n rule: induct_list012)
    case (3 a b xs)
    have *: "multiply_round P g rid n (a # b # xs) = p_mul P (narrow g (bit_op_step n)) rid a b # multiply_round P g rid (Suc n) xs"
      by (simp add: multiply_round_def map_upt_Suc del: upt_Suc)
    show ?case using 3 by (simp add: * mult.assoc)
  qed (simp_all add: multiply_round_def)
  then show "list_all ok (multiply_round P g rid n xs)"
    and "prod_list (map val (multiply_round P g rid n xs)) = prod_list (map val xs)" by simp_all
qed

lemma multiply_loop_prod:
  assumes "list_all ok xs"
  shows "list_all ok (multiply_loop P g rid n xs) \<and> length (multiply_loop P g rid n xs) = min 1 (length xs)
    \<and> prod_list (map val (multiply_loop P g rid n xs)) = prod_list (map val xs)"
  using assms
proof (induction xs arbitrary: n rule: measure_induct_rule [of length])
  case (less xs)
  show ?case
  proof (cases "length xs > 1")
    case True
    then show ?thesis
      using less.IH [of "multiply_round P g rid n xs" "n + length xs div 2"] less.prems multiply_round_prod [of xs g rid n]
      by (subst (1 2 3) multiply_loop.simps) auto
  next
    case False
    with less.prems show ?thesis by (cases xs) (simp_all add: multiply_loop.simps)
  qed
qed

lemma multiply_all_shares_ok:
  assumes "list_all ok xs" and "xs \<noteq> []"
  shows "\<exists>c. multiply_all_shares P g rid xs = Inr c \<and> ok c \<and> val c = prod_list (map val xs)"
proof -
  have "length (multiply_loop P g rid 0 xs) = 1"
    using multiply_loop_prod [OF assms(1), of g rid 0] assms(2) by (cases xs) simp_all
  then obtain c where "multiply_loop P g rid 0 xs = [c]" by (auto simp: length_Suc_conv)
  with multiply_loop_prod [OF assms(1), of g rid 0] show ?thesis
    by (simp add: multiply_all_shares_def)
qed

lemma prod_bits: "list_all2 is_bit bs xs \<Longrightarrow> prod_list (map val xs) = of_bool (\<forall>b \<in> set bs. b)"
  by (induction rule: list_all2_induct) (auto simp: is_bit_def)

lemma multiply_all_bits:
  assumes "list_all2 is_bit bs xs" and "xs \<noteq> []"
  shows "\<exists>c. multiply_all_shares P g rid xs = Inr c \<and> is_bit (\<forall>b \<in> set bs. b) c"
  using multiply_all_shares_ok [OF is_bits_ok [OF assms(1)] assms(2)] prod_bits [OF assms(1)]
  by (metis is_bit_def)

lemma flip_bits_ok: "list_all2 is_bit bs xs \<Longrightarrow> list_all2 is_bit (map Not bs) (flip_bits P (p_known P 1) xs)"
  by (induction rule: list_all2_induct) (simp_all add: flip_bits_def is_bit_flip)

lemma all_zeroes_ok:
  assumes "list_all2 is_bit bs xs" and "xs \<noteq> []"
  shows "\<exists>c. all_zeroes P g rid xs = Inr c \<and> is_bit (\<forall>b \<in> set bs. \<not> b) c"
proof -
  have "flip_bits P (p_known P 1) xs \<noteq> []" using assms(2) by (simp add: flip_bits_def)
  from multiply_all_bits [OF flip_bits_ok [OF assms(1)] this] show ?thesis
    by (simp add: all_zeroes_def)
qed

lemma any_ones_ok:
  assumes "list_all2 is_bit bs xs" and "xs \<noteq> []"
  shows "\<exists>c. any_ones P g rid xs = Inr c \<and> is_bit (\<exists>b \<in> set bs. b) c"
proof -
  obtain c where "all_zeroes P g rid xs = Inr c" "is_bit (\<forall>b \<in> set bs. \<not> b) c"
    using all_zeroes_ok [OF assms] by blast
  with is_bit_flip [OF this(2)] show ?thesis by (simp add: any_ones_def)
qed

lemma xor_constant_ok:
  assumes "list_all2 is_bit bs a"
  shows "list_all2 is_bit (map2 (\<noteq>) bs (bits_of (length bs) c)) (xor_constant P a c)"
  using assms is_bit_flip
  by (auto simp: list_all2_conv_all_nth xor_constant_def nth_enumerate_eq nth_bits_of)

lemma map2_neq_all: "length as = length bs \<Longrightarrow> (\<forall>d \<in> set (map2 (\<noteq>) as bs). \<not> d) \<longleftrightarrow> as = bs"
  by (induction as bs rule: list_induct2) auto

lemma bitwise_equal_constant_ok:
  assumes "list_all2 is_bit bs a" and "a \<noteq> []" and "length a \<le> 128"
  shows "\<exists>s. bitwise_equal_constant P g rid a c = Inr s \<and> is_bit (bits_nat bs = c mod 2 ^ length a) s"
proof -
  have len: "length bs = length a" using assms(1) by (rule list_all2_lengthD)
  have "xor_constant P a c \<noteq> []" using assms(2) by (simp add: xor_constant_def enumerate_eq_zip)
  from all_zeroes_ok [OF xor_constant_ok [OF assms(1)] this, of g rid]
  obtain s where s: "all_zeroes P g rid (xor_constant P a c) = Inr s"
    "is_bit (\<forall>d \<in> set (map2 (\<noteq>) bs (bits_of (length bs) c)). \<not> d) s" by blast
  have "(\<forall>d \<in> set (map2 (\<noteq>) bs (bits_of (length bs) c)). \<not> d) \<longleftrightarrow> bs = bits_of (length bs) c"
    by (rule map2_neq_all) simp
  also have "\<dots> \<longleftrightarrow> bits_nat bs = c mod 2 ^ length a"
    using bits_nat_inject [of bs "bits_of (length bs) c"] by (simp add: bits_nat_bits_of len)
  finally show ?thesis
    using s assms(3) by (simp add: bitwise_equal_constant_def)
qed

lemma prefix_or_diff_ok:
  assumes "list_all2 is_bit ds xs" and "is_bit prev p"
  shows "list_all2 is_bit (first_true prev ds) (prefix_or_diff P g rid i p xs)"
  using assms
proof (induction arbitrary: prev p i rule: list_all2_induct)
  case (Cons d ds s xs)
  have or: "is_bit (prev \<or> d) (secure_or P (narrow g (bit_op_step i)) rid p s)"
    using Cons by (intro secure_or_ok) simp_all
  moreover have "is_bit (\<not> prev \<and> d) (p_sub P (secure_or P (narrow g (bit_op_step i)) rid p s) p)"
    using is_bitD [OF or] is_bitD [OF Cons.prems] by (cases prev; cases d) (simp_all add: is_bit_def)
  ultimately show ?case using Cons.IH by (simp add: Let_def)
qed simp

lemma first_differing_bit_ok:
  assumes "list_all2 is_bit bs a" and "a \<noteq> []"
  shows "\<exists>f. first_differing_bit P g rid a c = Inr f
    \<and> list_all2 is_bit (rev (first_true False (rev (map2 (\<noteq>) bs (bits_of (length bs) c))))) f"
proof -
  let ?ds = "map2 (\<noteq>) bs (bits_of (length bs) c)"
  have x: "list_all2 is_bit (rev ?ds) (rev (xor_constant P a c))"
    using xor_constant_ok [OF assms(1)] by (simp add: list_all2_rev)
  have "rev (xor_constant P a c) \<noteq> []" using assms(2) by (simp add: xor_constant_def enumerate_eq_zip)
  then obtain m rest where m: "rev (xor_constant P a c) = m # rest" by (cases "rev (xor_constant P a c)") auto
  with x obtain d ds where d: "rev ?ds = d # ds" "is_bit d m" "list_all2 is_bit ds rest"
    by (auto simp: list_all2_Cons2)
  have "list_all2 is_bit (rev (d # first_true d ds)) (rev (m # prefix_or_diff P (narrow g ''prefix_or'') rid 0 m rest))"
    unfolding list_all2_rev using d(2,3) prefix_or_diff_ok by simp
  moreover have "first_differing_bit P g rid a c = Inr (rev (m # prefix_or_diff P (narrow g ''prefix_or'') rid 0 m rest))"
    by (simp add: first_differing_bit_def m)
  moreover have "first_true False (rev ?ds) = d # first_true d ds" unfolding d(1) by simp
  ultimately show ?thesis by metis
qed

lemma sop_bits_ok:
  assumes "list_all2 is_bit fs xs" and "list_all2 is_bit bs ys" and "length fs = length bs"
  shows "\<exists>c. p_sop P g rid xs ys = Inr c \<and> ok c \<and> val c = (\<Sum>(f, b)\<leftarrow>zip fs bs. of_bool f * of_bool b)"
proof -
  have len: "length xs = length ys" using assms by (metis list_all2_lengthD)
  have "(\<Sum>(x, y)\<leftarrow>zip xs ys. val x * val y) = (\<Sum>(f, b)\<leftarrow>zip fs bs. of_bool f * of_bool b)"
    using assms(3,1,2)
  proof (induction fs bs arbitrary: xs ys rule: list_induct2)
    case (Cons f fs b bs)
    then show ?case by (auto simp: list_all2_Cons1 is_bit_def)
  qed simp
  with sop [OF len is_bits_ok [OF assms(1)] is_bits_ok [OF assms(2)], of g rid] show ?thesis by simp
qed

lemma bitwise_compare_ok:
  assumes "list_all2 is_bit bs a" and "a \<noteq> []" and "length a \<le> 128"
  shows "\<exists>s. bitwise_greater_than_constant P g rid a c = Inr s \<and> is_bit (bits_nat bs > c mod 2 ^ length a) s"
    and "\<exists>s. bitwise_less_than_constant P g rid a c = Inr s \<and> is_bit (bits_nat bs < c mod 2 ^ length a) s"
proof -
  let ?cs = "bits_of (length bs) c"
  define F where "F = first_true False (rev (map2 (\<noteq>) bs ?cs))"
  have len: "length bs = length a" using assms(1) by (rule list_all2_lengthD)
  have lF: "length F = length bs" by (simp add: F_def)
  have len': "length (rev bs) = length (rev ?cs)" by simp
  have F: "F = first_true False (map2 (\<noteq>) (rev bs) (rev ?cs))"
    by (simp add: F_def rev_map zip_rev)
  obtain f where f: "first_differing_bit P g rid a c = Inr f" "list_all2 is_bit (rev F) f"
    using first_differing_bit_ok [OF assms(1,2)] unfolding F_def by blast
  have sums: "(\<Sum>p\<leftarrow>zip (rev F) bs. h p) = (\<Sum>p\<leftarrow>zip F (rev bs). h p :: 'v)" for h
    by (rule sum_list_rev_zip) (simp add: lF)
  have gt: "(\<Sum>(f, b)\<leftarrow>zip (rev F) bs. of_bool f * of_bool b) = (of_bool (bits_nat bs > c mod 2 ^ length a) :: 'v)"
    unfolding sums unfolding F using first_true_compare(1) [OF len', where 'v = 'v]
    by (simp only: rev_rev_ident bits_nat_bits_of len)
  have lt: "(\<Sum>(f, b)\<leftarrow>zip (rev F) bs. of_bool f * of_bool (\<not> b)) = (of_bool (bits_nat bs < c mod 2 ^ length a) :: 'v)"
    unfolding sums unfolding F using first_true_compare(2) [OF len', where 'v = 'v]
    by (simp only: rev_rev_ident bits_nat_bits_of len)
  obtain s where "p_sop P (narrow g ''dot_product'') rid f a = Inr s" "ok s"
    "val s = (\<Sum>(f, b)\<leftarrow>zip (rev F) bs. of_bool f * of_bool b)"
    using sop_bits_ok [OF f(2) assms(1)] lF by force
  then show "\<exists>s. bitwise_greater_than_constant P g rid a c = Inr s \<and> is_bit (bits_nat bs > c mod 2 ^ length a) s"
    using f(1) assms(3) by (simp add: bitwise_greater_than_constant_def gt is_bit_def)
  have "list_all2 is_bit (map Not bs) (map (\<lambda>a_bit. p_sub P (p_known P 1) a_bit) a)"
    using flip_bits_ok [OF assms(1)] by (simp add: flip_bits_def)
  from sop_bits_ok [OF f(2) this] obtain s where s: "ok s"
    "p_sop P (narrow g ''dot_product'') rid f (map (\<lambda>a_bit. p_sub P (p_known P 1) a_bit) a) = Inr s"
    "val s = (\<Sum>(f, b)\<leftarrow>zip (rev F) (map Not bs). of_bool f * of_bool b)"
    using lF by force
  have "(\<Sum>(f, b)\<leftarrow>zip (rev F) (map Not bs). of_bool f * of_bool b) = (\<Sum>(f, b)\<leftarrow>zip (rev F) bs. of_bool f * of_bool (\<not> b) :: 'v)"
    by (simp add: zip_map2 case_prod_beta' o_def)
  with s show "\<exists>s. bitwise_less_than_constant P g rid a c = Inr s \<and> is_bit (bits_nat bs < c mod 2 ^ length a) s"
    using f(1) assms(3) by (simp add: bitwise_less_than_constant_def lt is_bit_def)
qed

lemma add_constant_loop_ok:
  assumes "trunc 2 = (2 :: 'v)" and "list_all2 is_bit bs a" and "is_bit k carry" and "known \<Longrightarrow> \<not> k" and "i + length a \<le> 128"
  shows "\<exists>outs os. add_constant_loop trunc P g rid c i known carry a = Inr os \<and> list_all2 is_bit outs os
    \<and> length outs = Suc (length a) \<and> bits_nat outs = bits_nat bs + of_bool k + c div 2 ^ i mod 2 ^ length a"
  using assms(2-5)
proof (induction arbitrary: k carry known i rule: list_all2_induct)
  case Nil
  then show ?case by (auto intro!: exI [of _ "[k]"])
next
  case (Cons b bs s a)
  define m where "m = (if known then p_zero P else p_mul P (narrow g (bit_op_step i)) rid carry s)"
  define one where "one \<longleftrightarrow> odd (c div 2 ^ i)"
  define nc where "nc = (if one then p_add P (p_add P (p_neg P m) carry) s else m)"
  define rb where "rb = (if one then p_add P (p_add P (p_add P (p_neg P (p_scale P nc (trunc 2))) (p_known P 1)) s) carry
     else p_add P (p_add P (p_neg P (p_scale P nc (trunc 2))) s) carry)"
  define k' where "k' \<longleftrightarrow> (if one then k \<or> b else k \<and> b)"
  have m: "is_bit (k \<and> b) m"
    using Cons.hyps(1) Cons.prems by (cases known; cases k; cases b) (simp_all add: m_def is_bit_def)
  have nc: "is_bit k' nc"
    using m Cons.hyps(1) Cons.prems(1) by (cases one; cases k; cases b) (simp_all add: nc_def is_bit_def k'_def)
  have rb: "is_bit (b \<noteq> (k \<noteq> one)) rb"
    using nc Cons.hyps(1) Cons.prems(1) assms(1)
    by (cases one; cases k; cases b) (simp_all add: rb_def is_bit_def k'_def)
  have "known \<and> \<not> one \<Longrightarrow> \<not> k'" using Cons.prems(2) by (auto simp: k'_def)
  then obtain outs os where IH: "add_constant_loop trunc P g rid c (i + 1) (known \<and> \<not> one) nc a = Inr os"
    "list_all2 is_bit outs os" "length outs = Suc (length a)"
    "bits_nat outs = bits_nat bs + of_bool k' + c div 2 ^ (i + 1) mod 2 ^ length a"
    using Cons.IH [OF nc, of "known \<and> \<not> one" "i + 1"] Cons.prems(3) by auto
  have "add_constant_loop trunc P g rid c i known carry (s # a) = Inr (rb # os)"
    using IH(1) Cons.prems(3)
    by (simp only: add_constant_loop.simps Let_def m_def [symmetric] one_def [symmetric] nc_def [symmetric] rb_def [symmetric])
       (simp add: rb_def nc_def)
  moreover have "c div 2 ^ i mod 2 ^ length (s # a) = of_bool one + 2 * (c div 2 ^ (i + 1) mod 2 ^ length a)"
    using mod_power_Suc_bit [of "c div 2 ^ i" "length a"] by (simp only: one_def list.size(4) add_0_right add_Suc_right One_nat_def div_power_Suc)
  then have "bits_nat ((b \<noteq> (k \<noteq> one)) # outs) = bits_nat (b # bs) + of_bool k + c div 2 ^ i mod 2 ^ length (s # a)"
    using IH(4) by (cases one; cases k; cases b) (simp_all add: k'_def)
  ultimately show ?case
    using rb IH(2,3) by (intro exI [of _ "(b \<noteq> (k \<noteq> one)) # outs"] exI [of _ "rb # os"]) simp
qed

lemma add_constant_ok:
  assumes "trunc 2 = (2 :: 'v)" and "list_all2 is_bit bs a" and "a \<noteq> []" and "length a \<le> 128"
  shows "\<exists>outs os. add_constant trunc P g rid a c = Inr os \<and> list_all2 is_bit outs os
    \<and> length outs = Suc (length a) \<and> bits_nat outs = bits_nat bs + c mod 2 ^ length a"
proof -
  obtain s as where a: "a = s # as" using assms(3) by (cases a) auto
  then obtain b bs' where bs: "bs = b # bs'" "is_bit b s" "list_all2 is_bit bs' as"
    using assms(2) by (auto simp: list_all2_Cons2)
  define carry where "carry = (if even c then p_zero P else s)"
  have "is_bit (odd c \<and> b) carry" using bs(2) by (simp add: carry_def is_bit_def)
  with add_constant_loop_ok [of trunc bs' as "odd c \<and> b" carry "even c" 1 g rid c] assms(1,4) bs(3) a
  obtain outs os where loop: "add_constant_loop trunc P g rid c 1 (even c) carry as = Inr os"
    "list_all2 is_bit outs os" "length outs = Suc (length as)"
    "bits_nat outs = bits_nat bs' + of_bool (odd c \<and> b) + c div 2 mod 2 ^ length as"
    by auto
  have "c mod 2 ^ length a = of_bool (odd c) + 2 * (c div 2 mod 2 ^ length as)"
    using mod_power_Suc_bit [of c "length as"] by (simp add: a)
  then have "bits_nat ((b \<noteq> odd c) # outs) = bits_nat bs + c mod 2 ^ length a"
    using loop(4) by (cases b; cases "odd c") (simp_all add: bs(1))
  moreover have "is_bit (b \<noteq> odd c) (if even c then s else p_sub P (p_known P 1) s)"
    using bs(2) is_bit_flip by simp
  moreover have "add_constant trunc P g rid a c = Inr ((if even c then s else p_sub P (p_known P 1) s) # os)"
    using loop(1) by (simp add: add_constant_def a Let_def carry_def)
  ultimately show ?thesis
    using loop(2,3) a by (intro exI [of _ "(b \<noteq> odd c) # outs"]
        exI [of _ "(if even c then s else p_sub P (p_known P 1) s) # os"]) auto
qed

end

end
