(* ===== verification/Saturating_Sum.thy ===== *)
theory Saturating_Sum
  imports Boolean_Circuits
begin

text \<open>
  Arithmetic on numbers shared bit by bit over \<open>Gf2\<close>: the one-bit adder and subtractor and the
  saturating sum of \<open>src/protocol/boolean/saturating_sum.rs\<close>, and the subtraction of
  \<open>src/secret_sharing/decomposed.rs\<close>. The mutable \<open>carry_in\<close> of the code is returned.
\<close>

subsection \<open>One-bit circuits\<close>

definition one_bit_adder :: "('s, Gf2) protocols \<Rightarrow> gate \<Rightarrow> record_id \<Rightarrow> 's \<Rightarrow> 's \<Rightarrow> 's \<Rightarrow> 's \<times> 's" where
  "one_bit_adder P g rid x y carry_in =
     (let sum_bit = p_add P (p_add P x y) carry_in;
          x_xor_carry_in = p_add P x carry_in;
          y_xor_carry_in = p_add P y carry_in
      in (sum_bit, p_add P (p_mul P g rid x_xor_carry_in y_xor_carry_in) carry_in))"

definition one_bit_subtractor ::
  "('s, Gf2) protocols \<Rightarrow> gate \<Rightarrow> record_id \<Rightarrow> 's \<Rightarrow> 's \<Rightarrow> 's \<Rightarrow> bool \<Rightarrow> 's \<times> 's" where
  "one_bit_subtractor P g rid x y carry_in compute_carry_out =
     (let difference_bit = p_add P (p_add P (p_add P (p_known P 1) y) x) carry_in in
      (difference_bit,
       if compute_carry_out then
         let x_xor_carry_in = p_add P x carry_in;
             y_xor_carry_in = p_add P y carry_in;
             not_y_xor_carry_in = p_add P (p_known P 1) y_xor_carry_in
         in p_add P (p_mul P g rid x_xor_carry_in not_y_xor_carry_in) carry_in
       else carry_in))"

text \<open>\<open>value.get(i).unwrap_or(&zero)\<close> for the first bit of what is left of \<open>value\<close>.\<close>

definition head_or_zero :: "('s, Gf2) protocols \<Rightarrow> 's list \<Rightarrow> 's" where
  "head_or_zero P ys = (case ys of [] \<Rightarrow> p_zero P | y # _ \<Rightarrow> y)"

subsection \<open>The saturating sum\<close>

record 's SaturatingSum =
  ss_sum :: "'s BitDecomposed"
  is_saturated :: 's

fun adder_loop :: "('s, Gf2) protocols \<Rightarrow> gate \<Rightarrow> record_id \<Rightarrow> nat \<Rightarrow> 's \<Rightarrow> 's list \<Rightarrow> 's list \<Rightarrow> 's list \<times> 's" where
  "adder_loop P g rid i carry_in addend [] = ([], carry_in)"
| "adder_loop P g rid i carry_in addend (s # ss) =
     (case one_bit_adder P (narrow g (bit_op_step i)) rid (head_or_zero P addend) s carry_in of (sum_bit, carry) \<Rightarrow>
      case adder_loop P g rid (i + 1) carry (tl addend) ss of (output_sum, carry') \<Rightarrow>
      (sum_bit # output_sum, carry'))"

definition saturating_add ::
  "('s, Gf2) protocols \<Rightarrow> gate \<Rightarrow> record_id \<Rightarrow> 's SaturatingSum \<Rightarrow> 's BitDecomposed \<Rightarrow> 's SaturatingSum res" where
  "saturating_add P g rid self addend =
     (if \<not> length (ss_sum self) \<ge> length addend then Inl Panic
      else case adder_loop P g rid 0 (p_zero P) addend (ss_sum self) of (output_sum, carry) \<Rightarrow>
        let sat = secure_or P (narrow g (bit_op_step (length (ss_sum self)))) rid carry (is_saturated self)
        in bind_res (bd_new output_sum) (\<lambda>s. Inr \<lparr>ss_sum = s, is_saturated = sat\<rparr>))"

text \<open>The subtraction loop from bit \<open>i\<close> of \<open>n\<close>; no carry is computed out of the last bit.\<close>

fun sub_loop :: "('s, Gf2) protocols \<Rightarrow> gate \<Rightarrow> record_id \<Rightarrow> nat \<Rightarrow> nat \<Rightarrow> 's \<Rightarrow> 's list \<Rightarrow> 's list \<Rightarrow> 's list" where
  "sub_loop P g rid n i carry_in [] ys = []"
| "sub_loop P g rid n i carry_in (x # xs) ys =
     (case one_bit_subtractor P (narrow g (bit_op_step i)) rid x (head_or_zero P ys) carry_in (i < n - 1) of
        (difference_bit, carry) \<Rightarrow> difference_bit # sub_loop P g rid n (i + 1) carry xs (tl ys))"

definition truncated_delta_to_saturation_point ::
  "('s, Gf2) protocols \<Rightarrow> gate \<Rightarrow> record_id \<Rightarrow> 's SaturatingSum \<Rightarrow> nat \<Rightarrow> 's BitDecomposed res" where
  "truncated_delta_to_saturation_point P g rid self num_bits =
     (if \<not> num_bits \<le> length (ss_sum self) then Inl Panic
      else bd_new (sub_loop P g rid num_bits 0 (p_known P 1)
             (replicate num_bits (p_zero P)) (take num_bits (ss_sum self))))"

definition bd_sub ::
  "('s, Gf2) protocols \<Rightarrow> gate \<Rightarrow> record_id \<Rightarrow> 's BitDecomposed \<Rightarrow> 's BitDecomposed \<Rightarrow> 's BitDecomposed res" where
  "bd_sub P g rid self rhs =
     (if \<not> length self \<ge> length rhs then Inl Panic
      else bd_new (sub_loop P g rid (length self) 0 (p_known P 1) self rhs))"

subsection \<open>Correctness\<close>

lemma sub_bit_arith:
  fixes N X Y :: nat
  assumes "Y < N"
  shows "of_bool u + 2 * X + (2 * N - 1 - (of_bool v + 2 * Y)) + of_bool k
    = of_bool ((u \<noteq> (\<not> v)) \<noteq> k) + 2 * (X + (N - 1 - Y) + of_bool (u \<and> \<not> v \<or> u \<and> k \<or> \<not> v \<and> k))"
  using assms by (cases u; cases v; cases k; simp; arith)

lemma add_bit_arith:
  fixes R K U V :: nat
  assumes "R + K = U + V + of_bool (v \<and> u \<or> v \<and> k \<or> u \<and> k)"
  shows "of_bool ((v \<noteq> u) \<noteq> k) + 2 * R + 2 * K = of_bool u + 2 * U + (of_bool v + 2 * V) + of_bool k"
  using assms by (cases u; cases v; cases k) simp_all

lemma mod_bit_double: "(of_bool d + 2 * t) mod 2 ^ Suc m = of_bool d + 2 * (t mod 2 ^ m :: nat)"
  using mod_power_Suc_bit [of "of_bool d + 2 * t" m] by (cases d) simp_all

lemma bits_nat_replicate_False: "bits_nat (replicate m False) = 0"
  by (induction m) simp_all

lemma bits_nat_take: "m \<le> length us \<Longrightarrow> bits_nat (take m us) = bits_nat us mod 2 ^ m"
  using bits_nat_append [of "take m us" "drop m us"] bits_nat_less [of "take m us"] by (simp add: min_absorb2)

lemma complement_mod:
  assumes "length us = n" and "m \<le> n"
  shows "(2 ^ m - bits_nat (take m us)) mod 2 ^ m = (2 ^ n - bits_nat us) mod 2 ^ m"
proof -
  let ?M = "2 ^ m :: nat" and ?N = "2 ^ n :: nat" and ?u = "bits_nat us"
  have "?M dvd ?N" using assms(2) by (rule le_imp_power_dvd)
  then obtain q where q: "?N = ?M * q" ..
  have u: "?u < ?M * q" using bits_nat_less [of us] assms(1) q by simp
  then have d: "?u div ?M < q" by (simp add: less_mult_imp_div_less mult.commute)
  have "?N - ?u = ?M * (q - 1 - ?u div ?M) + (?M - ?u mod ?M)"
  proof -
    have "?u = ?M * (?u div ?M) + ?u mod ?M" by simp
    moreover have "?M * q = ?M * (q - 1 - ?u div ?M) + ?M * (?u div ?M) + ?M"
      using less_imp_Suc_add [OF d] by (auto simp: algebra_simps)
    moreover have "?u mod ?M < ?M" by simp
    ultimately show ?thesis using q by linarith
  qed
  then have "(?N - ?u) mod ?M = (?M - ?u mod ?M) mod ?M" by (simp only: mod_mult_self4)
  then show ?thesis using assms by (simp add: bits_nat_take)
qed

lemma wrap_sub:
  fixes u v N :: nat
  assumes "u < N" and "v < N"
  shows "(u + (N - v)) mod N = (if v \<le> u then u - v else N - (v - u))"
proof (cases "v \<le> u")
  case True
  then have "u + (N - v) = (u - v) + N" using assms by simp
  then have "(u + (N - v)) mod N = u - v" using assms by (simp only: mod_add_self2 mod_less less_imp_diff_less)
  then show ?thesis using True by simp
qed (use assms in \<open>simp\<close>)

locale gf2_mpc = mpc P val ok zp
  for P :: "('s, Gf2) protocols" and val :: "'s \<Rightarrow> Gf2" and ok :: "'s \<Rightarrow> bool" and zp :: "ZeroPositions \<Rightarrow> 's \<Rightarrow> bool"
begin

lemma is_bit_add: "is_bit u a \<Longrightarrow> is_bit v b \<Longrightarrow> is_bit (u \<noteq> v) (p_add P a b)"
  by (simp only: is_bit_def ok_add val_add Gf2_of_bool_add)

lemma is_bit_mul: "is_bit u a \<Longrightarrow> is_bit v b \<Longrightarrow> is_bit (u \<and> v) (p_mul P g rid a b)"
  by (cases u; cases v) (simp_all add: is_bit_def)

lemma one_bit_adder_ok:
  assumes "is_bit u x" and "is_bit v y" and "is_bit k c"
  shows "is_bit ((u \<noteq> v) \<noteq> k) (fst (one_bit_adder P g rid x y c))"
    and "is_bit (u \<and> v \<or> u \<and> k \<or> v \<and> k) (snd (one_bit_adder P g rid x y c))"
proof -
  show "is_bit ((u \<noteq> v) \<noteq> k) (fst (one_bit_adder P g rid x y c))"
    using assms by (simp add: one_bit_adder_def Let_def is_bit_add del: not_iff)
  have "is_bit (((u \<noteq> k) \<and> (v \<noteq> k)) \<noteq> k) (snd (one_bit_adder P g rid x y c))"
    using assms unfolding one_bit_adder_def Let_def snd_conv by (intro is_bit_add is_bit_mul)
  moreover have "(((u \<noteq> k) \<and> (v \<noteq> k)) \<noteq> k) = (u \<and> v \<or> u \<and> k \<or> v \<and> k)" by auto
  ultimately show "is_bit (u \<and> v \<or> u \<and> k \<or> v \<and> k) (snd (one_bit_adder P g rid x y c))" by simp
qed

lemma one_bit_subtractor_ok:
  assumes "is_bit u x" and "is_bit v y" and "is_bit k c"
  shows "is_bit ((u \<noteq> (\<not> v)) \<noteq> k) (fst (one_bit_subtractor P g rid x y c cc))"
    and "is_bit (if cc then u \<and> \<not> v \<or> u \<and> k \<or> \<not> v \<and> k else k) (snd (one_bit_subtractor P g rid x y c cc))"
proof -
  have "is_bit (((True \<noteq> v) \<noteq> u) \<noteq> k) (fst (one_bit_subtractor P g rid x y c cc))"
    using assms is_bit_known unfolding one_bit_subtractor_def Let_def fst_conv by (intro is_bit_add) simp_all
  moreover have "(((True \<noteq> v) \<noteq> u) \<noteq> k) = ((u \<noteq> (\<not> v)) \<noteq> k)" by auto
  ultimately show "is_bit ((u \<noteq> (\<not> v)) \<noteq> k) (fst (one_bit_subtractor P g rid x y c cc))" by simp
  have "is_bit (((u \<noteq> k) \<and> (True \<noteq> (v \<noteq> k))) \<noteq> k) (snd (one_bit_subtractor P g rid x y c True))"
    using assms is_bit_known unfolding one_bit_subtractor_def Let_def snd_conv if_True by (intro is_bit_add is_bit_mul) simp_all
  moreover have "(((u \<noteq> k) \<and> (True \<noteq> (v \<noteq> k))) \<noteq> k) = (u \<and> \<not> v \<or> u \<and> k \<or> \<not> v \<and> k)" by auto
  ultimately show "is_bit (if cc then u \<and> \<not> v \<or> u \<and> k \<or> \<not> v \<and> k else k) (snd (one_bit_subtractor P g rid x y c cc))"
    using assms(3) by (cases cc) (simp_all add: one_bit_subtractor_def Let_def)
qed

lemma head_or_zero_ok:
  assumes "list_all2 is_bit vs ys"
  shows "is_bit (vs \<noteq> [] \<and> hd vs) (head_or_zero P ys)" and "list_all2 is_bit (tl vs) (tl ys)"
  using assms is_bit_known(2) by (cases vs; auto simp: head_or_zero_def list_all2_Cons1)+

lemma bits_nat_hd_tl: "bits_nat vs = of_bool (vs \<noteq> [] \<and> hd vs) + 2 * bits_nat (tl vs)"
  by (cases vs) simp_all

lemma adder_loop_ok:
  assumes "list_all2 is_bit us ss" and "list_all2 is_bit vs addend" and "length addend \<le> length ss" and "is_bit k c"
  shows "\<exists>outs k'. list_all2 is_bit outs (fst (adder_loop P g rid i c addend ss)) \<and> length outs = length ss
    \<and> is_bit k' (snd (adder_loop P g rid i c addend ss))
    \<and> bits_nat outs + 2 ^ length ss * of_bool k' = bits_nat us + bits_nat vs + of_bool k"
  using assms
proof (induction arbitrary: vs addend k c i rule: list_all2_induct)
  case Nil
  then show ?case by (intro exI [of _ "[]"] exI [of _ k]) simp
next
  case (Cons u us s ss)
  define v where v: "v = (vs \<noteq> [] \<and> hd vs)"
  let ?r = "one_bit_adder P (narrow g (bit_op_step i)) rid (head_or_zero P addend) s c"
  let ?loop = "adder_loop P g rid (i + 1) (snd ?r) (tl addend) ss"
  note bit = one_bit_adder_ok [OF head_or_zero_ok(1) [OF Cons.prems(1), folded v] Cons.hyps(1) Cons.prems(3),
      where g = "narrow g (bit_op_step i)" and rid = rid]
  have l: "length (tl addend) \<le> length ss" using Cons.prems(2) by auto
  obtain outs k' where IH: "list_all2 is_bit outs (fst ?loop)" "length outs = length ss" "is_bit k' (snd ?loop)"
    "bits_nat outs + 2 ^ length ss * of_bool k' = bits_nat us + bits_nat (tl vs) + of_bool (v \<and> u \<or> v \<and> k \<or> u \<and> k)"
    using Cons.IH [OF head_or_zero_ok(2) [OF Cons.prems(1)] l bit(2)] by blast
  have loop: "adder_loop P g rid i c addend (s # ss) = (fst ?r # fst ?loop, snd ?loop)"
    by (simp split: prod.split)
  have "bits_nat (((v \<noteq> u) \<noteq> k) # outs) + 2 ^ length (s # ss) * of_bool k' = bits_nat (u # us) + bits_nat vs + of_bool k"
    unfolding bits_nat_hd_tl [of vs, folded v] using add_bit_arith [OF IH(4)] by (simp add: mult.assoc)
  with IH(1-3) bit(1) show ?case
    unfolding loop by (intro exI [of _ "((v \<noteq> u) \<noteq> k) # outs"] exI [of _ k'] conjI) simp_all
qed

lemma sub_loop_ok:
  assumes "list_all2 is_bit us xs" and "list_all2 is_bit vs ys" and "length ys \<le> length xs" and "is_bit k c" and "n = i + length xs"
  shows "\<exists>outs. list_all2 is_bit outs (sub_loop P g rid n i c xs ys) \<and> length outs = length xs
    \<and> bits_nat outs = (bits_nat us + (2 ^ length xs - 1 - bits_nat vs) + of_bool k) mod 2 ^ length xs"
  using assms
proof (induction arbitrary: vs ys k c i rule: list_all2_induct)
  case Nil
  then show ?case by (intro exI [of _ "[]"]) simp
next
  case (Cons u us x xs)
  define v where v: "v = (vs \<noteq> [] \<and> hd vs)"
  define cc where cc: "cc = (i < n - 1)"
  let ?m = "length xs"
  let ?r = "one_bit_subtractor P (narrow g (bit_op_step i)) rid x (head_or_zero P ys) c cc"
  note bit = one_bit_subtractor_ok [OF Cons.hyps(1) head_or_zero_ok(1) [OF Cons.prems(1), folded v] Cons.prems(3),
      where g = "narrow g (bit_op_step i)" and rid = rid and cc = cc]
  define k' where k': "k' = (u \<and> \<not> v \<or> u \<and> k \<or> \<not> v \<and> k)"
  have l: "length (tl ys) \<le> ?m" "n = i + 1 + ?m" using Cons.prems(2,4) by auto
  obtain outs where IH: "list_all2 is_bit outs (sub_loop P g rid n (i + 1) (snd ?r) xs (tl ys))" "length outs = ?m"
    "bits_nat outs = (bits_nat us + (2 ^ ?m - 1 - bits_nat (tl vs)) + of_bool (if cc then k' else k)) mod 2 ^ ?m"
    using Cons.IH [OF head_or_zero_ok(2) [OF Cons.prems(1)] l(1) bit(2) l(2)] unfolding k' by blast
  have last: "bits_nat outs = (bits_nat us + (2 ^ ?m - 1 - bits_nat (tl vs)) + of_bool k') mod 2 ^ ?m"
  proof (cases cc)
    case True
    with IH(3) show ?thesis by simp
  next
    case False
    then have "?m = 0" using l(2) cc by simp
    with IH(2) show ?thesis by simp
  qed
  have "length (tl vs) \<le> ?m" using l(1) list_all2_lengthD [OF Cons.prems(1)] by simp
  then have "(2 :: nat) ^ length (tl vs) \<le> 2 ^ ?m" by simp
  then have "bits_nat (tl vs) < 2 ^ ?m" using bits_nat_less [of "tl vs"] by linarith
  from sub_bit_arith [OF this, of u "bits_nat us" v k, folded k' bits_nat_hd_tl [of vs, folded v]]
  have "bits_nat (u # us) + (2 ^ Suc ?m - 1 - bits_nat vs) + of_bool k
      = of_bool ((u \<noteq> (\<not> v)) \<noteq> k) + 2 * (bits_nat us + (2 ^ ?m - 1 - bits_nat (tl vs)) + of_bool k')"
    by (simp only: bits_nat.simps power_Suc)
  then have "(bits_nat (u # us) + (2 ^ Suc ?m - 1 - bits_nat vs) + of_bool k) mod 2 ^ Suc ?m
      = bits_nat (((u \<noteq> (\<not> v)) \<noteq> k) # outs)"
    by (simp only: mod_bit_double last bits_nat.simps)
  then show ?case
    using IH(1,2) bit(1) cc by (intro exI [of _ "((u \<noteq> (\<not> v)) \<noteq> k) # outs"] conjI) (simp_all add: case_prod_beta')
qed

lemma saturating_add_ok:
  assumes "list_all2 is_bit us (ss_sum self)" and "is_bit sat (is_saturated self)" and "list_all2 is_bit vs addend"
    and "length addend \<le> length (ss_sum self)" and "length (ss_sum self) \<le> 64"
  shows "\<exists>outs s. saturating_add P g rid self addend = Inr s \<and> list_all2 is_bit outs (ss_sum s)
    \<and> length outs = length (ss_sum self) \<and> bits_nat outs = (bits_nat us + bits_nat vs) mod 2 ^ length (ss_sum self)
    \<and> is_bit (sat \<or> 2 ^ length (ss_sum self) \<le> bits_nat us + bits_nat vs) (is_saturated s)"
proof -
  let ?n = "length (ss_sum self)" and ?r = "adder_loop P g rid 0 (p_zero P) addend (ss_sum self)"
  obtain outs k where r: "list_all2 is_bit outs (fst ?r)" "length outs = ?n" "is_bit k (snd ?r)"
    "bits_nat outs + 2 ^ ?n * of_bool k = bits_nat us + bits_nat vs"
    using adder_loop_ok [OF assms(1,3,4) is_bit_known(2), of g rid 0] by auto
  have less: "bits_nat outs < 2 ^ ?n" using bits_nat_less [of outs] r(2) by simp
  then have k: "k \<longleftrightarrow> 2 ^ ?n \<le> bits_nat us + bits_nat vs" using r(4) by (cases k) auto
  have "bits_nat outs = (bits_nat us + bits_nat vs) mod 2 ^ ?n"
    using less unfolding r(4) [symmetric] by simp
  moreover have "is_bit (k \<or> sat) (secure_or P (narrow g (bit_op_step ?n)) rid (snd ?r) (is_saturated self))"
    by (rule secure_or_ok [OF r(3) assms(2)])
  moreover have "length (fst ?r) \<le> 64" using r(1,2) assms(5) list_all2_lengthD by fastforce
  ultimately show ?thesis
    using r(1,2) assms(4) unfolding k by (auto simp: saturating_add_def bd_new_def BitDecomposed_MAX_def case_prod_beta Let_def disj_commute)
qed

lemma bd_sub_ok:
  assumes "list_all2 is_bit us a" and "list_all2 is_bit vs b" and "length b \<le> length a" and "length a \<le> 64"
  shows "\<exists>outs s. bd_sub P g rid a b = Inr s \<and> list_all2 is_bit outs s \<and> length outs = length a
    \<and> bits_nat outs = (bits_nat us + (2 ^ length a - bits_nat vs)) mod 2 ^ length a"
proof -
  obtain outs where r: "list_all2 is_bit outs (sub_loop P g rid (length a) 0 (p_known P 1) a b)" "length outs = length a"
    "bits_nat outs = (bits_nat us + (2 ^ length a - 1 - bits_nat vs) + of_bool True) mod 2 ^ length a"
    using sub_loop_ok [OF assms(1-3) is_bit_known(1), where n = "length a" and i = 0 and g = g and rid = rid] by auto
  have "(2 :: nat) ^ length vs \<le> 2 ^ length a" using list_all2_lengthD [OF assms(2)] assms(3) by simp
  then have "bits_nat vs < 2 ^ length a" using bits_nat_less [of vs] by linarith
  then have "bits_nat us + (2 ^ length a - 1 - bits_nat vs) + of_bool True = bits_nat us + (2 ^ length a - bits_nat vs)" by simp
  note r = r(1,2) r(3) [unfolded this]
  then show ?thesis
    using assms(3,4) list_all2_lengthD [OF r(1)] by (intro exI [of _ outs]) (auto simp: bd_sub_def bd_new_def BitDecomposed_MAX_def)
qed

lemma truncated_delta_ok:
  assumes "list_all2 is_bit us (ss_sum self)" and "m \<le> length (ss_sum self)" and "m \<le> 64"
  shows "\<exists>outs s. truncated_delta_to_saturation_point P g rid self m = Inr s \<and> list_all2 is_bit outs s \<and> length outs = m
    \<and> bits_nat outs = (2 ^ length (ss_sum self) - bits_nat us) mod 2 ^ m"
proof -
  let ?z = "replicate m (p_zero P)" and ?a = "take m (ss_sum self)" and ?n = "length (ss_sum self)"
  have z: "list_all2 is_bit (replicate m False) ?z" using is_bit_known(2) by (simp add: list_all2_conv_all_nth)
  have a: "list_all2 is_bit (take m us) ?a" using assms(1) by (rule list_all2_takeI)
  obtain outs s where r: "bd_sub P g rid ?z ?a = Inr s" "list_all2 is_bit outs s" "length outs = m"
    "bits_nat outs = (bits_nat (replicate m False) + (2 ^ m - bits_nat (take m us))) mod 2 ^ m"
    using bd_sub_ok [OF z a, of g rid] assms(3) by auto
  have us: "length us = ?n" using assms(1) by (rule list_all2_lengthD)
  have "bits_nat outs = (2 ^ ?n - bits_nat us) mod 2 ^ m"
    using complement_mod [of us ?n m] us assms(2) r(4) by (simp add: bits_nat_replicate_False)
  moreover have "truncated_delta_to_saturation_point P g rid self m = bd_sub P g rid ?z ?a"
    using assms(2) by (simp add: truncated_delta_to_saturation_point_def bd_sub_def)
  ultimately show ?thesis using r by auto
qed

end

interpretation sh_gf2: gf2_mpc "sh_protocols rnd" reconstruct consistent zeros_match for rnd :: "Gf2 prss"
  by unfold_locales

interpretation mal_gf2_bits: gf2_mpc "mal_protocols (upgraded_ctx gf2_to_extended rnd rnd_e g)" mal_value
    "mac_valid (upgraded_ctx gf2_to_extended rnd rnd_e g)" mal_zeros
  for rnd rnd_e g
  by unfold_locales

subsection \<open>Properties\<close>


definition example_ctx :: "(Gf2, Gf32Bit) mal_ctx" where
  "example_ctx = upgraded_ctx gf2_to_extended (\<lambda>g i r. 1) (\<lambda>g i r. 1) default_gate"

lemma example_ctx_known: "mal_bit example_ctx b (mal_share_known_value example_ctx (of_bool b))"
  using gf2_ext.mac_valid_known [of example_ctx "of_bool b"]
  by (simp add: mal_bit_def example_ctx_def upgraded_ctx_def mal_value_def mal_share_known_value_def)


text \<open>C27: Bitwise subtraction of shared numbers is subtraction in two's complement at the width of the
  minuend, and the delta of a saturating sum is the distance to \<open>2 ^ n\<close>, cut to the bits asked for.
  Both panic on operands that are too long.\<close>

theorem bitwise_subtraction_correct:
  assumes "list_all2 sh_bit us (ss_sum a)" and "list_all2 sh_bit vs b"
    and "length (ss_sum a) \<le> 64"
  shows "(if length (ss_sum a) < length b then bd_sub (sh_protocols rnd) g rid (ss_sum a) b = Inl Panic
    else \<exists>outs s. bd_sub (sh_protocols rnd) g rid (ss_sum a) b = Inr s \<and> list_all2 sh_bit outs s
      \<and> bits_nat outs = (if bits_nat vs \<le> bits_nat us then bits_nat us - bits_nat vs
          else 2 ^ length (ss_sum a) - (bits_nat vs - bits_nat us)))
    \<and> (if length (ss_sum a) < m then truncated_delta_to_saturation_point (sh_protocols rnd) g rid a m = Inl Panic
    else \<exists>outs s. truncated_delta_to_saturation_point (sh_protocols rnd) g rid a m = Inr s \<and> list_all2 sh_bit outs s
      \<and> length outs = m \<and> bits_nat outs = (2 ^ length (ss_sum a) - bits_nat us) mod 2 ^ m)"
proof (intro conjI)
  let ?N = "2 ^ length (ss_sum a) :: nat"
  have u: "bits_nat us < ?N" using bits_nat_less [of us] list_all2_lengthD [OF assms(1)] by simp
  show "if length (ss_sum a) < length b then bd_sub (sh_protocols rnd) g rid (ss_sum a) b = Inl Panic
    else \<exists>outs s. bd_sub (sh_protocols rnd) g rid (ss_sum a) b = Inr s \<and> list_all2 sh_bit outs s
      \<and> bits_nat outs = (if bits_nat vs \<le> bits_nat us then bits_nat us - bits_nat vs else ?N - (bits_nat vs - bits_nat us))"
  proof (cases "length (ss_sum a) < length b")
    case False
    then have "(2 :: nat) ^ length vs \<le> ?N" using list_all2_lengthD [OF assms(2)] by simp
    then have v: "bits_nat vs < ?N" using bits_nat_less [of vs] by linarith
    obtain outs s where "bd_sub (sh_protocols rnd) g rid (ss_sum a) b = Inr s" "list_all2 sh_bit outs s"
      "bits_nat outs = (bits_nat us + (?N - bits_nat vs)) mod ?N"
      using sh_gf2.bd_sub_ok [OF assms(1,2) [folded sh_is_bit] _ assms(3), of rnd g rid] False by auto
    with wrap_sub [OF u v] False show ?thesis by auto
  qed (simp add: bd_sub_def)
  show "if length (ss_sum a) < m then truncated_delta_to_saturation_point (sh_protocols rnd) g rid a m = Inl Panic
    else \<exists>outs s. truncated_delta_to_saturation_point (sh_protocols rnd) g rid a m = Inr s \<and> list_all2 sh_bit outs s
      \<and> length outs = m \<and> bits_nat outs = (?N - bits_nat us) mod 2 ^ m"
    using sh_gf2.truncated_delta_ok [OF assms(1) [folded sh_is_bit], of m rnd g rid] assms(3)
    by (simp add: truncated_delta_to_saturation_point_def)
qed

theorem bitwise_subtraction_correct_witness:
  "(\<exists>outs s. bd_sub (sh_protocols (\<lambda>g i r. 1)) default_gate 0
       [share_known_value 1, share_known_value (0 :: Gf2)] [share_known_value 0, share_known_value 1] = Inr s
     \<and> list_all2 sh_bit outs s \<and> bits_nat outs = 3)
   \<and> (\<exists>outs s. truncated_delta_to_saturation_point (sh_protocols (\<lambda>g i r. 1)) default_gate 0
       \<lparr>ss_sum = [share_known_value 1, share_known_value (0 :: Gf2)], is_saturated = share_known_value 0\<rparr> 1 = Inr s
     \<and> list_all2 sh_bit outs s \<and> bits_nat outs = 1)"
proof -
  let ?a = "\<lparr>ss_sum = [share_known_value 1, share_known_value (0 :: Gf2)], is_saturated = share_known_value 0\<rparr>"
  have "list_all2 sh_bit [True, False] (ss_sum ?a)" "list_all2 sh_bit [False, True] [share_known_value 0, share_known_value (1 :: Gf2)]"
    by (simp_all add: sh_bit_def)
  note b = bitwise_subtraction_correct [OF this, where rnd = "\<lambda>g i r. 1" and g = default_gate and rid = 0 and m = 1]
  show ?thesis using b by auto
qed

end
