(* ===== verification/Permutations.thy ===== *)
theory Permutations
  imports Ipa_Errors "HOL-Library.Multiset"
begin

text \<open>
  The in-place permutations of \<open>src/protocol/basics/apply_permutation.rs\<close>. Both routines follow the
  cycles of a permutation and swap elements along them; a loop over a list that is not a permutation
  may run forever, so the loops are \<open>partial_function\<close>s over \<open>option\<close>, and an index out
  of range is a panic; so are lengths that differ, which \<open>apply\<close> checks with a debug assertion and \<open>apply_inv\<close>
  in every build. The reference definitions are \<open>permute\<close>, which reads position \<open>i\<close> from
  \<open>perm ! i\<close>, and \<open>unpermute\<close>, which writes it there.
\<close>

subsection \<open>The routines\<close>

definition swap_at :: "'a list \<Rightarrow> nat \<Rightarrow> nat \<Rightarrow> 'a list res" where
  "swap_at xs a b = (if a < length xs \<and> b < length xs then Inr (xs[a := xs ! b, b := xs ! a]) else Inl Panic)"

partial_function (option) apply_cycle ::
  "nat list \<Rightarrow> nat \<Rightarrow> nat \<Rightarrow> nat \<Rightarrow> 'a list \<Rightarrow> bool list \<Rightarrow> ('a list \<times> bool list) res option" where
  "apply_cycle perm i pos_i pos_j vs permuted =
     (if pos_j = i then Some (Inr (vs, permuted))
      else case swap_at vs pos_i pos_j of
        Inl e \<Rightarrow> Some (Inl e)
      | Inr vs' \<Rightarrow> apply_cycle perm i pos_j (perm ! pos_j) vs' (permuted[pos_j := True]))"

fun apply_loop :: "nat list \<Rightarrow> nat list \<Rightarrow> 'a list \<Rightarrow> bool list \<Rightarrow> 'a list res option" where
  "apply_loop perm [] vs permuted = Some (Inr vs)"
| "apply_loop perm (i # is) vs permuted =
     (if permuted ! i then apply_loop perm is vs permuted
      else case apply_cycle perm i i (perm ! i) vs permuted of
        None \<Rightarrow> None
      | Some (Inl e) \<Rightarrow> Some (Inl e)
      | Some (Inr (vs', permuted')) \<Rightarrow> apply_loop perm is vs' permuted')"

definition apply_perm :: "nat list \<Rightarrow> 'a list \<Rightarrow> 'a list res option" where
  "apply_perm perm vs =
     (if length perm \<noteq> length vs then Some (Inl Panic)
      else apply_loop perm [0..<length perm] vs (replicate (length perm) False))"

partial_function (option) apply_inv_cycle ::
  "nat list \<Rightarrow> nat \<Rightarrow> nat \<Rightarrow> 'a list \<Rightarrow> bool list \<Rightarrow> ('a list \<times> bool list) res option" where
  "apply_inv_cycle perm i destination vs permuted =
     (if destination = i then Some (Inr (vs, permuted))
      else case swap_at vs i destination of
        Inl e \<Rightarrow> Some (Inl e)
      | Inr vs' \<Rightarrow> apply_inv_cycle perm i (perm ! destination) vs' (permuted[destination := True]))"

fun apply_inv_loop :: "nat list \<Rightarrow> nat list \<Rightarrow> 'a list \<Rightarrow> bool list \<Rightarrow> 'a list res option" where
  "apply_inv_loop perm [] vs permuted = Some (Inr vs)"
| "apply_inv_loop perm (i # is) vs permuted =
     (if permuted ! i then apply_inv_loop perm is vs permuted
      else case apply_inv_cycle perm i (perm ! i) vs permuted of
        None \<Rightarrow> None
      | Some (Inl e) \<Rightarrow> Some (Inl e)
      | Some (Inr (vs', permuted')) \<Rightarrow> apply_inv_loop perm is vs' permuted')"

definition apply_inv :: "nat list \<Rightarrow> 'a list \<Rightarrow> 'a list res option" where
  "apply_inv perm vs =
     (if length perm \<noteq> length vs then Some (Inl Panic)
      else apply_inv_loop perm [0..<length perm] vs (replicate (length perm) False))"

subsection \<open>Permutations as lists\<close>

definition is_perm :: "nat \<Rightarrow> nat list \<Rightarrow> bool" where
  "is_perm n perm \<longleftrightarrow> length perm = n \<and> distinct perm \<and> set perm = {..<n}"

definition permute :: "nat list \<Rightarrow> 'a list \<Rightarrow> 'a list" where
  "permute perm vs = map (\<lambda>i. vs ! (perm ! i)) [0..<length perm]"

definition inv_perm :: "nat list \<Rightarrow> nat list" where
  "inv_perm perm = map (\<lambda>y. length (takeWhile (\<lambda>x. x \<noteq> y) perm)) [0..<length perm]"

definition unpermute :: "nat list \<Rightarrow> 'a list \<Rightarrow> 'a list" where
  "unpermute perm vs = permute (inv_perm perm) vs"

lemma is_permD: "is_perm n perm \<Longrightarrow> length perm = n" "is_perm n perm \<Longrightarrow> x < n \<Longrightarrow> perm ! x < n"
  by (auto simp: is_perm_def dest: nth_mem)

lemma is_perm_eq_iff: "is_perm n perm \<Longrightarrow> x < n \<Longrightarrow> y < n \<Longrightarrow> perm ! x = perm ! y \<longleftrightarrow> x = y"
  by (simp add: is_perm_def nth_eq_iff_index_eq)

lemma is_perm_surj: "is_perm n perm \<Longrightarrow> y < n \<Longrightarrow> \<exists>x<n. perm ! x = y"
  unfolding is_perm_def using in_set_conv_nth [of y perm] by auto

lemma is_permI:
  assumes "length perm = n" and "\<And>x. x < n \<Longrightarrow> perm ! x < n"
    and "\<And>x y. x < n \<Longrightarrow> y < n \<Longrightarrow> perm ! x = perm ! y \<Longrightarrow> x = y"
  shows "is_perm n perm"
proof -
  have d: "distinct perm" using assms(1,3) by (auto simp: distinct_conv_nth)
  have "set perm \<subseteq> {..<n}" using assms(1,2) by (auto simp: in_set_conv_nth)
  moreover have "card (set perm) = n" using d assms(1) distinct_card by blast
  ultimately have "set perm = {..<n}" by (intro card_subset_eq) simp_all
  with d assms(1) show ?thesis by (simp add: is_perm_def)
qed

lemma length_permute [simp]: "length (permute perm vs) = length perm"
  by (simp add: permute_def)

lemma nth_permute: "x < length perm \<Longrightarrow> permute perm vs ! x = vs ! (perm ! x)"
  by (simp add: permute_def)

lemma length_takeWhile_less_iff: "length (takeWhile P xs) < length xs \<longleftrightarrow> (\<exists>x \<in> set xs. \<not> P x)"
  by (induction xs) auto

lemma inv_perm_nth:
  assumes "is_perm n perm" and "x < n"
  shows "inv_perm perm ! (perm ! x) = x"
proof -
  have p: "length perm = n" "perm ! x < n" using is_permD [OF assms(1)] assms(2) by auto
  let ?k = "length (takeWhile (\<lambda>y. y \<noteq> perm ! x) perm)"
  have "?k < length perm"
    using assms(2) p(1) by (auto simp: length_takeWhile_less_iff)
  then have "perm ! ?k = perm ! x" using nth_length_takeWhile [of "\<lambda>y. y \<noteq> perm ! x" perm] by simp
  then have "?k = x" using is_perm_eq_iff [OF assms(1)] \<open>?k < length perm\<close> assms(2) p(1) by blast
  then show ?thesis using p by (simp add: inv_perm_def)
qed

lemma length_inv_perm [simp]: "length (inv_perm perm) = length perm"
  by (simp add: inv_perm_def)

lemma inv_perm_nth': "is_perm n perm \<Longrightarrow> y < n \<Longrightarrow> perm ! (inv_perm perm ! y) = y"
  by (frule (1) is_perm_surj) (auto simp: inv_perm_nth)

lemma is_perm_inv:
  assumes "is_perm n perm"
  shows "is_perm n (inv_perm perm)"
proof (rule is_permI)
  fix y assume "y < n"
  then obtain x where "x < n" "perm ! x = y" using is_perm_surj [OF assms] by blast
  then show "inv_perm perm ! y < n" using inv_perm_nth [OF assms \<open>x < n\<close>] by simp
next
  fix y z assume "y < n" "z < n" and eq: "inv_perm perm ! y = inv_perm perm ! z"
  have "y = perm ! (inv_perm perm ! y)" by (rule inv_perm_nth' [OF assms \<open>y < n\<close>, symmetric])
  also have "\<dots> = z" unfolding eq by (rule inv_perm_nth' [OF assms \<open>z < n\<close>])
  finally show "y = z" .
qed (use is_permD(1) [OF assms] in simp)

lemma length_unpermute [simp]: "length (unpermute perm vs) = length perm"
  by (simp add: unpermute_def)

lemma nth_unpermute:
  assumes "is_perm n perm" and "x < n"
  shows "unpermute perm vs ! (perm ! x) = vs ! x"
  using assms is_permD [OF assms(1)] by (simp add: unpermute_def nth_permute inv_perm_nth)

lemma permute_unpermute:
  assumes "is_perm (length vs) perm"
  shows "permute perm (unpermute perm vs) = vs"
  using is_permD(1) [OF assms] by (intro nth_equalityI) (simp_all add: nth_permute nth_unpermute [OF assms])

lemma unpermuteI:
  assumes "is_perm n perm" and "length ws = n" and "\<And>x. x < n \<Longrightarrow> ws ! (perm ! x) = vs ! x"
  shows "ws = unpermute perm vs"
proof (rule nth_equalityI)
  show "length ws = length (unpermute perm vs)" using is_permD(1) [OF assms(1)] assms(2) by simp
  fix y assume "y < length ws"
  then obtain x where "x < n" "y = perm ! x" using is_perm_surj [OF assms(1)] assms(2) by metis
  then show "ws ! y = unpermute perm vs ! y" using assms(3) by (simp add: nth_unpermute [OF assms(1)])
qed

lemma unpermute_permute:
  assumes "is_perm (length vs) perm"
  shows "unpermute perm (permute perm vs) = vs"
  using is_permD(1) [OF assms] by (intro unpermuteI [OF assms, symmetric]) (simp_all add: nth_permute)

lemma permute_map:
  assumes "is_perm (length vs) perm"
  shows "permute perm (map f vs) = map f (permute perm vs)"
  using is_permD [OF assms] by (simp add: permute_def)

lemma unpermute_map: "is_perm (length vs) perm \<Longrightarrow> unpermute perm (map f vs) = map f (unpermute perm vs)"
  by (simp add: unpermute_def is_perm_inv permute_map)

lemma mset_permute:
  assumes "is_perm (length vs) perm"
  shows "mset (permute perm vs) = mset vs"
proof -
  have "mset perm = mset [0..<length vs]"
    using assms set_eq_iff_mset_eq_distinct [of perm "[0..<length vs]"] by (simp add: is_perm_def atLeast_upt)
  then have "mset (map ((!) vs) perm) = mset (map ((!) vs) [0..<length vs])" by simp
  moreover have "permute perm vs = map ((!) vs) perm"
    by (rule nth_equalityI) (simp_all add: permute_def)
  ultimately show ?thesis by (simp add: map_nth)
qed

subsection \<open>Cycles\<close>

abbreviation pw :: "nat list \<Rightarrow> nat \<Rightarrow> nat \<Rightarrow> nat" where
  "pw perm k i \<equiv> ((!) perm ^^ k) i"

lemma pw_less: "is_perm n perm \<Longrightarrow> i < n \<Longrightarrow> pw perm k i < n"
  by (induction k) (simp_all add: is_permD(2))

lemma pw_add: "pw perm (k + l) i = pw perm k (pw perm l i)"
  by (simp add: funpow_add)

lemma pw_inj:
  assumes "is_perm n perm" and "i < n" and "j < n" and "pw perm k i = pw perm k j"
  shows "i = j"
  using assms(4)
proof (induction k)
  case (Suc k)
  then show ?case using is_perm_eq_iff [OF assms(1)] pw_less [OF assms(1)] assms(2,3) by simp
qed simp

definition period :: "nat list \<Rightarrow> nat \<Rightarrow> nat" where
  "period perm i = (LEAST k. 0 < k \<and> pw perm k i = i)"

lemma pw_cancel:
  assumes "is_perm n perm" and "i < n" and "a < b" and "pw perm a i = pw perm b i"
  shows "pw perm (b - a) i = i"
proof -
  have "pw perm b i = pw perm a (pw perm (b - a) i)" using assms(3) pw_add [of a "b - a"] by simp
  then show ?thesis using pw_inj [OF assms(1,2) pw_less [OF assms(1,2)]] assms(4) by metis
qed

lemma period:
  assumes "is_perm n perm" and "i < n"
  shows "0 < period perm i" and "pw perm (period perm i) i = i"
    and "\<And>k. 0 < k \<Longrightarrow> k < period perm i \<Longrightarrow> pw perm k i \<noteq> i"
proof -
  have "\<not> inj_on (\<lambda>k. pw perm k i) {..n}"
  proof (rule pigeonhole)
    have "(\<lambda>k. pw perm k i) ` {..n} \<subseteq> {..<n}" using pw_less [OF assms] by auto
    then have "card ((\<lambda>k. pw perm k i) ` {..n}) \<le> card {..<n}" by (intro card_mono) simp_all
    then show "card ((\<lambda>k. pw perm k i) ` {..n}) < card {..n}" by simp
  qed
  then obtain a b where "a < b" "pw perm a i = pw perm b i"
    unfolding inj_on_def by (metis linorder_neqE_nat)
  then have "0 < b - a \<and> pw perm (b - a) i = i" using pw_cancel [OF assms] by simp
  then have *: "0 < period perm i \<and> pw perm (period perm i) i = i"
    unfolding period_def by (rule LeastI)
  then show "0 < period perm i" "pw perm (period perm i) i = i" by simp_all
  show "pw perm k i \<noteq> i" if "0 < k" "k < period perm i" for k
    using not_less_Least [of k "\<lambda>k. 0 < k \<and> pw perm k i = i"] that by (auto simp: period_def)
qed

lemma pw_distinct:
  assumes "is_perm n perm" and "i < n" and "a < period perm i" and "b < period perm i" and "pw perm a i = pw perm b i"
  shows "a = b"
proof (rule ccontr)
  assume "a \<noteq> b"
  then have "pw perm (max a b - min a b) i = i" "0 < max a b - min a b" "max a b - min a b < period perm i"
    using pw_cancel [OF assms(1,2), of a b] pw_cancel [OF assms(1,2), of b a] assms(3-5)
    by (auto simp: max_def min_def)
  with period(3) [OF assms(1,2)] show False by blast
qed

definition orbit :: "nat list \<Rightarrow> nat \<Rightarrow> nat set" where
  "orbit perm i = (\<lambda>k. pw perm k i) ` {..<period perm i}"

lemma orbit_self: "is_perm n perm \<Longrightarrow> i < n \<Longrightarrow> i \<in> orbit perm i"
  using period(1) by (fastforce simp: orbit_def image_iff intro: bexI [of _ 0])

lemma orbit_less: "is_perm n perm \<Longrightarrow> i < n \<Longrightarrow> x \<in> orbit perm i \<Longrightarrow> x < n"
  by (auto simp: orbit_def pw_less)

lemma orbit_step:
  assumes "is_perm n perm" and "i < n" and "x \<in> orbit perm i"
  shows "perm ! x \<in> orbit perm i"
proof -
  obtain k where k: "k < period perm i" "x = pw perm k i" using assms(3) by (auto simp: orbit_def)
  have step: "perm ! x = pw perm (Suc k) i" by (simp add: k(2))
  show ?thesis
  proof (cases "Suc k = period perm i")
    case True
    then show ?thesis using step period(2) [OF assms(1,2)] orbit_self [OF assms(1,2)] by simp
  next
    case False
    then show ?thesis unfolding step orbit_def using k(1) by (intro imageI) simp
  qed
qed

lemma orbit_pw: "is_perm n perm \<Longrightarrow> i < n \<Longrightarrow> x \<in> orbit perm i \<Longrightarrow> pw perm k x \<in> orbit perm i"
  by (induction k) (auto intro: orbit_step)

lemma orbit_sym:
  assumes "is_perm n perm" and "i < n" and "x \<in> orbit perm i" and "j < n" and "x \<in> orbit perm j"
  shows "i \<in> orbit perm j"
proof -
  obtain k where k: "k < period perm i" "x = pw perm k i" using assms(3) by (auto simp: orbit_def)
  then have "pw perm (period perm i - k) x = i"
    using period(2) [OF assms(1,2)] by (simp flip: pw_add)
  with orbit_pw [OF assms(1,4,5)] show ?thesis by metis
qed

subsection \<open>Following a cycle\<close>

lemma less_Suc_split: "k < j \<longleftrightarrow> j = Suc k \<or> Suc k < j"
  by auto

lemma in_orbit_iff: "x \<in> orbit perm i \<longleftrightarrow> (\<exists>j<period perm i. x = pw perm j i)"
  by (auto simp: orbit_def)

lemma swap_at_ok: "a < length xs \<Longrightarrow> b < length xs \<Longrightarrow> swap_at xs a b = Inr (xs[a := xs ! b, b := xs ! a])"
  by (simp add: swap_at_def)

text \<open>After \<open>k\<close> swaps of \<open>apply\<close> the first \<open>k\<close> positions of the cycle have their final values and
  the next one holds the value that was at the start.\<close>

definition cycle_state :: "nat list \<Rightarrow> nat \<Rightarrow> nat \<Rightarrow> 'a list \<Rightarrow> 'a list \<Rightarrow> bool" where
  "cycle_state perm i k vs0 vs \<longleftrightarrow> length vs = length vs0 \<and> (\<forall>x < length vs0.
     vs ! x = (if x = pw perm k i then vs0 ! i else if \<exists>j<k. x = pw perm j i then vs0 ! (perm ! x) else vs0 ! x))"

lemma cycle_state_step:
  assumes "is_perm (length vs0) perm" and "i < length vs0" and "Suc k < period perm i" and "cycle_state perm i k vs0 vs"
  shows "cycle_state perm i (Suc k) vs0 (vs[pw perm k i := vs ! pw perm (Suc k) i, pw perm (Suc k) i := vs ! pw perm k i])"
proof -
  let ?a = "pw perm k i" and ?b = "pw perm (Suc k) i"
  have l: "?a < length vs0" "?b < length vs0" using pw_less [OF assms(1,2)] by blast+
  have fresh: "pw perm j i \<noteq> ?b" if "j \<le> k" for j
    using pw_distinct [OF assms(1,2), of j "Suc k"] that assms(3) by auto
  have len: "length vs = length vs0"
    and vs: "\<And>x. x < length vs0 \<Longrightarrow> vs ! x = (if x = ?a then vs0 ! i else if \<exists>j<k. x = pw perm j i then vs0 ! (perm ! x) else vs0 ! x)"
    using assms(4) by (simp_all add: cycle_state_def)
  have "?b \<noteq> ?a" by (rule fresh [OF order_refl, THEN not_sym])
  moreover have "\<not> (\<exists>j<k. ?b = pw perm j i)" using fresh [OF less_imp_le, THEN not_sym] by (simp del: funpow.simps)
  ultimately have "vs ! ?b = vs0 ! ?b" using vs [OF l(2)] by (simp only: if_False)
  then have b: "vs ! ?b = vs0 ! (perm ! ?a)" by simp
  have a: "vs ! ?a = vs0 ! i" using vs [OF l(1)] by simp
  show ?thesis
    unfolding cycle_state_def
  proof (intro conjI allI impI)
    fix x assume x: "x < length vs0"
    have "(\<exists>j<Suc k. x = pw perm j i) \<longleftrightarrow> (\<exists>j<k. x = pw perm j i) \<or> x = ?a" by (auto simp: less_Suc_eq)
    then show "vs[?a := vs ! ?b, ?b := vs ! ?a] ! x
        = (if x = ?b then vs0 ! i else if \<exists>j<Suc k. x = pw perm j i then vs0 ! (perm ! x) else vs0 ! x)"
      using x l len vs [OF x] a b fresh [of k] by (auto simp: nth_list_update)
  qed (simp add: len)
qed

text \<open>The marks set along a cycle.\<close>

lemma mark_step:
  assumes "Suc k < period perm i" and "x < length pm"
  shows "pm[pw perm (Suc k) i := True] ! x \<or> (\<exists>j. Suc k < j \<and> j < period perm i \<and> x = pw perm j i)
    \<longleftrightarrow> pm ! x \<or> (\<exists>j. k < j \<and> j < period perm i \<and> x = pw perm j i)"
proof -
  have "(\<exists>j. k < j \<and> j < period perm i \<and> x = pw perm j i)
      \<longleftrightarrow> x = pw perm (Suc k) i \<or> (\<exists>j. Suc k < j \<and> j < period perm i \<and> x = pw perm j i)"
    unfolding less_Suc_split [of k] using assms(1) by (auto simp del: funpow.simps)
  with assms(2) show ?thesis by (auto simp: nth_list_update simp del: funpow.simps)
qed

lemma apply_cycle_ok:
  assumes "is_perm (length vs0) perm" and "i < length vs0" and "k < period perm i" and "cycle_state perm i k vs0 vs"
    and "length pm = length vs0"
  shows "\<exists>vs' pm'. apply_cycle perm i (pw perm k i) (pw perm (Suc k) i) vs pm = Some (Inr (vs', pm'))
    \<and> length vs' = length vs0 \<and> length pm' = length vs0
    \<and> (\<forall>x < length vs0. vs' ! x = (if x \<in> orbit perm i then vs0 ! (perm ! x) else vs0 ! x))
    \<and> (\<forall>x < length vs0. pm' ! x \<longleftrightarrow> pm ! x \<or> (\<exists>j. k < j \<and> j < period perm i \<and> x = pw perm j i))"
  using assms(3-5)
proof (induction "period perm i - k" arbitrary: k vs pm)
  case (Suc d)
  let ?a = "pw perm k i" and ?b = "pw perm (Suc k) i"
  have l: "?a < length vs" "?b < length vs" "length vs = length vs0"
    using pw_less [OF assms(1,2)] Suc.prems(2) by (simp_all add: cycle_state_def del: funpow.simps)
  show ?case
  proof (cases "Suc k = period perm i")
    case True
    then have "?b = i" using period(2) [OF assms(1,2)] by simp
    moreover have "vs ! x = (if x \<in> orbit perm i then vs0 ! (perm ! x) else vs0 ! x)" if "x < length vs0" for x
    proof -
      have "x \<in> orbit perm i \<longleftrightarrow> x = ?a \<or> (\<exists>j<k. x = pw perm j i)"
        unfolding in_orbit_iff True [symmetric] by (auto simp: less_Suc_eq)
      with that Suc.prems(2) \<open>?b = i\<close> show ?thesis by (auto simp: cycle_state_def)
    qed
    ultimately show ?thesis
      using l(3) Suc.prems(3) True by (auto simp: apply_cycle.simps [of perm i ?a i])
  next
    case False
    then have k: "Suc k < period perm i" using Suc.prems(1) by simp
    then have "?b \<noteq> i" using period(3) [OF assms(1,2)] by blast
    then have step: "apply_cycle perm i ?a ?b vs pm
        = apply_cycle perm i ?b (pw perm (Suc (Suc k)) i) (vs[?a := vs ! ?b, ?b := vs ! ?a]) (pm[?b := True])"
      using l(1,2) by (subst apply_cycle.simps) (simp add: swap_at_ok)
    have "d = period perm i - Suc k" using Suc.hyps(2) by linarith
    from Suc.hyps(1) [OF this k cycle_state_step [OF assms(1,2) k Suc.prems(2)], of "pm[?b := True]"] Suc.prems(3)
    obtain vs' pm' where r: "apply_cycle perm i ?a ?b vs pm = Some (Inr (vs', pm'))" "length vs' = length vs0" "length pm' = length vs0"
      "\<forall>x < length vs0. vs' ! x = (if x \<in> orbit perm i then vs0 ! (perm ! x) else vs0 ! x)"
      "\<forall>x < length vs0. pm' ! x \<longleftrightarrow> pm[?b := True] ! x \<or> (\<exists>j. Suc k < j \<and> j < period perm i \<and> x = pw perm j i)"
      unfolding step by auto
    with mark_step [OF k, of _ pm] l Suc.prems(3) show ?thesis by (auto simp del: funpow.simps)
  qed
qed simp

text \<open>After \<open>k\<close> swaps of \<open>apply_inv\<close> the first \<open>k\<close> values of the cycle have moved on by one and the
  start holds the next one.\<close>

definition inv_cycle_state :: "nat list \<Rightarrow> nat \<Rightarrow> nat \<Rightarrow> 'a list \<Rightarrow> 'a list \<Rightarrow> bool" where
  "inv_cycle_state perm i k vs0 vs \<longleftrightarrow> length vs = length vs0 \<and> vs ! i = vs0 ! pw perm k i
     \<and> (\<forall>j<k. vs ! pw perm (Suc j) i = vs0 ! pw perm j i)
     \<and> (\<forall>x < length vs0. (\<forall>j\<le>k. x \<noteq> pw perm j i) \<longrightarrow> vs ! x = vs0 ! x)"

lemma inv_cycle_state_step:
  assumes "is_perm (length vs0) perm" and "i < length vs0" and "Suc k < period perm i" and "inv_cycle_state perm i k vs0 vs"
  shows "inv_cycle_state perm i (Suc k) vs0 (vs[i := vs ! pw perm (Suc k) i, pw perm (Suc k) i := vs ! i])"
proof -
  let ?b = "pw perm (Suc k) i"
  have b: "?b < length vs0" "?b \<noteq> i" using pw_less [OF assms(1,2)] period(3) [OF assms(1,2)] assms(3) by blast+
  have fresh: "pw perm j i \<noteq> ?b" if "j \<le> k" for j
    using pw_distinct [OF assms(1,2), of j "Suc k"] that assms(3) by auto
  have start: "pw perm (Suc j) i \<noteq> i" if "j \<le> k" for j
    using period(3) [OF assms(1,2), of "Suc j"] that assms(3) by auto
  note st = assms(4) [unfolded inv_cycle_state_def]
  have vb: "vs ! ?b = vs0 ! ?b" using st b(1) fresh [THEN not_sym] by blast
  show ?thesis
    unfolding inv_cycle_state_def
  proof (intro conjI allI impI)
    show "vs[i := vs ! ?b, ?b := vs ! i] ! i = vs0 ! ?b" using st assms(2) b vb by (simp del: funpow.simps)
  next
    fix j assume j: "j < Suc k"
    show "vs[i := vs ! ?b, ?b := vs ! i] ! pw perm (Suc j) i = vs0 ! pw perm j i"
    proof (cases "j = k")
      case True
      with st b show ?thesis by (simp del: funpow.simps)
    next
      case False
      with j have "j < k" by simp
      with st start [of j] fresh [of "Suc j"] show ?thesis by (simp del: funpow.simps)
    qed
  next
    fix x assume x: "x < length vs0" "\<forall>j\<le>Suc k. x \<noteq> pw perm j i"
    then have "x \<noteq> ?b" "x \<noteq> pw perm 0 i" "\<forall>j\<le>k. x \<noteq> pw perm j i" by (auto simp del: funpow.simps)
    with st x(1) show "vs[i := vs ! ?b, ?b := vs ! i] ! x = vs0 ! x" by (simp del: funpow.simps(2))
  qed (use st in simp)
qed

lemma inv_cycle_state_end:
  assumes "is_perm (length vs0) perm" and "i < length vs0" and "Suc k = period perm i" and "inv_cycle_state perm i k vs0 vs"
    and "x < length vs0"
  shows "vs ! x = (if x \<in> orbit perm i then vs0 ! (inv_perm perm ! x) else vs0 ! x)"
proof (cases "x \<in> orbit perm i")
  case True
  note st = assms(4) [unfolded inv_cycle_state_def]
  obtain j where j: "j < Suc k" "x = pw perm j i" using True assms(3) by (auto simp: in_orbit_iff)
  have inv: "inv_perm perm ! pw perm (Suc l) i = pw perm l i" for l
    using inv_perm_nth [OF assms(1) pw_less [OF assms(1,2)]] by simp
  show ?thesis
  proof (cases j)
    case 0
    then have "x = pw perm (Suc k) i" using j(2) period(2) [OF assms(1,2)] assms(3) by simp
    then have "inv_perm perm ! x = pw perm k i" using inv by simp
    with st 0 j(2) True show ?thesis by simp
  next
    case (Suc l)
    then have "vs ! x = vs0 ! pw perm l i" using st j by (simp del: funpow.simps)
    with inv [of l] Suc j(2) True show ?thesis by simp
  qed
next
  case False
  then have "\<forall>j\<le>k. x \<noteq> pw perm j i" unfolding in_orbit_iff assms(3) [symmetric] by (simp add: less_Suc_eq_le)
  with assms(4,5) False show ?thesis by (simp add: inv_cycle_state_def)
qed

lemma apply_inv_cycle_ok:
  assumes "is_perm (length vs0) perm" and "i < length vs0" and "k < period perm i" and "inv_cycle_state perm i k vs0 vs"
    and "length pm = length vs0"
  shows "\<exists>vs' pm'. apply_inv_cycle perm i (pw perm (Suc k) i) vs pm = Some (Inr (vs', pm'))
    \<and> length vs' = length vs0 \<and> length pm' = length vs0
    \<and> (\<forall>x < length vs0. vs' ! x = (if x \<in> orbit perm i then vs0 ! (inv_perm perm ! x) else vs0 ! x))
    \<and> (\<forall>x < length vs0. pm' ! x \<longleftrightarrow> pm ! x \<or> (\<exists>j. k < j \<and> j < period perm i \<and> x = pw perm j i))"
  using assms(3-5)
proof (induction "period perm i - k" arbitrary: k vs pm)
  case (Suc d)
  let ?b = "pw perm (Suc k) i"
  have l: "?b < length vs" "length vs = length vs0"
    using pw_less [OF assms(1,2)] Suc.prems(2) by (simp_all add: inv_cycle_state_def del: funpow.simps)
  show ?case
  proof (cases "Suc k = period perm i")
    case True
    then have "?b = i" using period(2) [OF assms(1,2)] by simp
    then have "apply_inv_cycle perm i ?b vs pm = Some (Inr (vs, pm))" by (simp add: apply_inv_cycle.simps [of perm i i])
    with inv_cycle_state_end [OF assms(1,2) True Suc.prems(2)] l(2) Suc.prems(3) True show ?thesis by auto
  next
    case False
    then have k: "Suc k < period perm i" using Suc.prems(1) by simp
    then have "?b \<noteq> i" using period(3) [OF assms(1,2)] by blast
    then have step: "apply_inv_cycle perm i ?b vs pm
        = apply_inv_cycle perm i (pw perm (Suc (Suc k)) i) (vs[i := vs ! ?b, ?b := vs ! i]) (pm[?b := True])"
      using l assms(2) by (subst apply_inv_cycle.simps) (simp add: swap_at_ok)
    have "d = period perm i - Suc k" using Suc.hyps(2) by linarith
    from Suc.hyps(1) [OF this k inv_cycle_state_step [OF assms(1,2) k Suc.prems(2)], of "pm[?b := True]"] Suc.prems(3)
    obtain vs' pm' where r: "apply_inv_cycle perm i ?b vs pm = Some (Inr (vs', pm'))" "length vs' = length vs0" "length pm' = length vs0"
      "\<forall>x < length vs0. vs' ! x = (if x \<in> orbit perm i then vs0 ! (inv_perm perm ! x) else vs0 ! x)"
      "\<forall>x < length vs0. pm' ! x \<longleftrightarrow> pm[?b := True] ! x \<or> (\<exists>j. Suc k < j \<and> j < period perm i \<and> x = pw perm j i)"
      unfolding step by auto
    with mark_step [OF k, of _ pm] l Suc.prems(3) show ?thesis by (auto simp del: funpow.simps)
  qed
qed simp

subsection \<open>All cycles\<close>

text \<open>Between two cycles the positions of the finished ones are final, and exactly those of
  them that are still to come are marked. \<open>q\<close> says from where a position gets its value.\<close>

definition loop_state :: "nat list \<Rightarrow> nat list \<Rightarrow> nat \<Rightarrow> 'a list \<Rightarrow> 'a list \<Rightarrow> bool list \<Rightarrow> bool" where
  "loop_state perm q i vs0 vs pm \<longleftrightarrow> length vs = length vs0 \<and> length pm = length vs0
     \<and> (\<forall>x < length vs0. vs ! x = (if \<exists>i'<i. x \<in> orbit perm i' then vs0 ! (q ! x) else vs0 ! x))
     \<and> (\<forall>x < length vs0. i \<le> x \<longrightarrow> pm ! x = (\<exists>i'<i. x \<in> orbit perm i'))"

lemma loop_state_skip:
  assumes "is_perm (length vs0) perm" and "i < length vs0" and "loop_state perm q i vs0 vs pm" and "pm ! i"
  shows "loop_state perm q (Suc i) vs0 vs pm"
proof -
  obtain i' where i': "i' < i" "i \<in> orbit perm i'" using assms(2-4) by (auto simp: loop_state_def)
  have "x \<in> orbit perm i'" if "x \<in> orbit perm i" for x
    using that orbit_pw [OF assms(1) _ i'(2)] i'(1) assms(2) by (auto simp: orbit_def [of perm i])
  then have "(\<exists>j<Suc i. x \<in> orbit perm j) \<longleftrightarrow> (\<exists>j<i. x \<in> orbit perm j)" for x
    using i'(1) by (auto simp: less_Suc_eq)
  with assms(3) show ?thesis by (simp add: loop_state_def)
qed

lemma loop_state_cycle:
  assumes "is_perm (length vs0) perm" and "i < length vs0" and "loop_state perm q i vs0 vs pm" and "\<not> pm ! i"
    and "\<And>j x. j < length vs0 \<Longrightarrow> x \<in> orbit perm j \<Longrightarrow> q ! x \<in> orbit perm j"
    and "length vs' = length vs0" and "length pm' = length vs0"
    and "\<forall>x < length vs0. vs' ! x = (if x \<in> orbit perm i then vs ! (q ! x) else vs ! x)"
    and "\<forall>x < length vs0. pm' ! x \<longleftrightarrow> pm ! x \<or> (\<exists>j. 0 < j \<and> j < period perm i \<and> x = pw perm j i)"
  shows "loop_state perm q (Suc i) vs0 vs' pm'"
proof -
  note st = assms(3) [unfolded loop_state_def]
  have new: "\<not> (\<exists>i'<i. i \<in> orbit perm i')" using st assms(2,4) by auto
  have disj: "\<not> (\<exists>i'<i. x \<in> orbit perm i')" if "x \<in> orbit perm i" for x
  proof
    assume "\<exists>i'<i. x \<in> orbit perm i'"
    then obtain i' where "i' < i" "x \<in> orbit perm i'" by blast
    with orbit_sym [OF assms(1,2) that _ this(2)] new assms(2) show False by auto
  qed
  have less_Suc: "(\<exists>j<Suc i. x \<in> orbit perm j) \<longleftrightarrow> x \<in> orbit perm i \<or> (\<exists>j<i. x \<in> orbit perm j)" for x
    by (auto simp: less_Suc_eq)
  have vs': "vs' ! x = (if \<exists>j<Suc i. x \<in> orbit perm j then vs0 ! (q ! x) else vs0 ! x)" if "x < length vs0" for x
  proof (cases "x \<in> orbit perm i")
    case True
    then have q: "q ! x \<in> orbit perm i" by (rule assms(5) [OF assms(2)])
    then have "vs ! (q ! x) = vs0 ! (q ! x)" using st disj [OF q] orbit_less [OF assms(1,2) q] by auto
    with True assms(8) that show ?thesis unfolding less_Suc by simp
  next
    case False
    with assms(8) that st show ?thesis unfolding less_Suc by simp
  qed
  have pm': "pm' ! x = (\<exists>j<Suc i. x \<in> orbit perm j)" if "x < length vs0" "Suc i \<le> x" for x
  proof -
    have "x \<in> orbit perm i \<longleftrightarrow> (\<exists>j. 0 < j \<and> j < period perm i \<and> x = pw perm j i)"
      unfolding in_orbit_iff
    proof
      assume "\<exists>j<period perm i. x = pw perm j i"
      then obtain j where "j < period perm i" "x = pw perm j i" by blast
      moreover from this have "0 < j" using that(2) by (cases j) auto
      ultimately show "\<exists>j. 0 < j \<and> j < period perm i \<and> x = pw perm j i" by blast
    qed blast
    with assms(9) st that show ?thesis unfolding less_Suc by (simp add: Suc_le_eq) blast
  qed
  from vs' pm' assms(6,7) show ?thesis by (simp add: loop_state_def)
qed

lemma loop_state_start: "loop_state perm q 0 vs0 vs0 (replicate (length vs0) False)"
  by (simp add: loop_state_def)

lemma loop_state_end:
  assumes "is_perm (length vs0) perm" and "length q = length vs0" and "loop_state perm q (length vs0) vs0 vs pm"
  shows "vs = permute q vs0"
proof (rule nth_equalityI)
  show "length vs = length (permute q vs0)" using assms(2,3) by (simp add: loop_state_def)
  fix x assume "x < length vs"
  then have "x < length vs0" using assms(3) by (simp add: loop_state_def)
  moreover from this have "\<exists>i'<length vs0. x \<in> orbit perm i'" using orbit_self [OF assms(1)] by blast
  ultimately show "vs ! x = permute q vs0 ! x" using assms(2,3) by (simp add: loop_state_def nth_permute)
qed

lemma orbit_inv:
  assumes "is_perm n perm" and "i < n" and "x \<in> orbit perm i"
  shows "inv_perm perm ! x \<in> orbit perm i"
proof -
  obtain k where k: "k < period perm i" "x = pw perm k i" using assms(3) by (auto simp: in_orbit_iff)
  define l where "l = (if k = 0 then period perm i - 1 else k - 1)"
  have "x = pw perm (Suc l) i" "l < period perm i"
    using k period(1,2) [OF assms(1,2)] by (auto simp: l_def simp del: funpow.simps(2))
  then show ?thesis using inv_perm_nth [OF assms(1) pw_less [OF assms(1,2)], of l] by (auto simp: in_orbit_iff)
qed

lemma apply_loop_ok:
  assumes "is_perm (length vs0) perm" and "i \<le> length vs0" and "loop_state perm perm i vs0 vs pm"
  shows "apply_loop perm [i..<length vs0] vs pm = Some (Inr (permute perm vs0))"
  using assms(2,3)
proof (induction "length vs0 - i" arbitrary: i vs pm)
  case 0
  with loop_state_end [OF assms(1) is_permD(1) [OF assms(1)]] show ?case by simp
next
  case (Suc d)
  then have i: "i < length vs0" and d: "d = length vs0 - Suc i" by simp_all
  have upt: "[i..<length vs0] = i # [Suc i..<length vs0]" using i by (rule upt_conv_Cons)
  show ?case
  proof (cases "pm ! i")
    case True
    with Suc.hyps(1) [OF d _ loop_state_skip [OF assms(1) i Suc.prems(2)]] i show ?thesis by (simp add: upt)
  next
    case False
    have len: "length vs = length vs0" "length pm = length vs0" using Suc.prems(2) by (simp_all add: loop_state_def)
    have "cycle_state perm i 0 vs vs" by (simp add: cycle_state_def)
    from apply_cycle_ok [of vs perm i 0 vs pm, OF _ _ _ this] assms(1) i period(1) [OF assms(1) i] len
    obtain vs' pm' where r: "apply_cycle perm i i (perm ! i) vs pm = Some (Inr (vs', pm'))"
      "length vs' = length vs0" "length pm' = length vs0"
      "\<forall>x < length vs0. vs' ! x = (if x \<in> orbit perm i then vs ! (perm ! x) else vs ! x)"
      "\<forall>x < length vs0. pm' ! x \<longleftrightarrow> pm ! x \<or> (\<exists>j. 0 < j \<and> j < period perm i \<and> x = pw perm j i)" by auto
    from loop_state_cycle [OF assms(1) i Suc.prems(2) False orbit_step [OF assms(1)] r(2-5)]
    have "loop_state perm perm (Suc i) vs0 vs' pm'" by simp
    with Suc.hyps(1) [OF d] i r(1) False show ?thesis by (simp add: upt)
  qed
qed

lemma apply_inv_loop_ok:
  assumes "is_perm (length vs0) perm" and "i \<le> length vs0" and "loop_state perm (inv_perm perm) i vs0 vs pm"
  shows "apply_inv_loop perm [i..<length vs0] vs pm = Some (Inr (unpermute perm vs0))"
  using assms(2,3)
proof (induction "length vs0 - i" arbitrary: i vs pm)
  case 0
  with loop_state_end [OF assms(1), of "inv_perm perm"] is_permD(1) [OF assms(1)] show ?case by (simp add: unpermute_def)
next
  case (Suc d)
  then have i: "i < length vs0" and d: "d = length vs0 - Suc i" by simp_all
  have upt: "[i..<length vs0] = i # [Suc i..<length vs0]" using i by (rule upt_conv_Cons)
  show ?case
  proof (cases "pm ! i")
    case True
    with Suc.hyps(1) [OF d _ loop_state_skip [OF assms(1) i Suc.prems(2)]] i show ?thesis by (simp add: upt)
  next
    case False
    have len: "length vs = length vs0" "length pm = length vs0" using Suc.prems(2) by (simp_all add: loop_state_def)
    have "inv_cycle_state perm i 0 vs vs" by (simp add: inv_cycle_state_def)
    from apply_inv_cycle_ok [of vs perm i 0 vs pm, OF _ _ _ this] assms(1) i period(1) [OF assms(1) i] len
    obtain vs' pm' where r: "apply_inv_cycle perm i (perm ! i) vs pm = Some (Inr (vs', pm'))"
      "length vs' = length vs0" "length pm' = length vs0"
      "\<forall>x < length vs0. vs' ! x = (if x \<in> orbit perm i then vs ! (inv_perm perm ! x) else vs ! x)"
      "\<forall>x < length vs0. pm' ! x \<longleftrightarrow> pm ! x \<or> (\<exists>j. 0 < j \<and> j < period perm i \<and> x = pw perm j i)" by auto
    from loop_state_cycle [OF assms(1) i Suc.prems(2) False orbit_inv [OF assms(1)] r(2-5)]
    have "loop_state perm (inv_perm perm) (Suc i) vs0 vs' pm'" by simp
    with Suc.hyps(1) [OF d] i r(1) False show ?thesis by (simp add: upt)
  qed
qed

lemma apply_perm_ok: "is_perm (length vs) perm \<Longrightarrow> apply_perm perm vs = Some (Inr (permute perm vs))"
  using apply_loop_ok [OF _ _ loop_state_start, of vs perm] is_permD(1) by (fastforce simp: apply_perm_def)

lemma apply_inv_ok: "is_perm (length vs) perm \<Longrightarrow> apply_inv perm vs = Some (Inr (unpermute perm vs))"
  using apply_inv_loop_ok [OF _ _ loop_state_start, of vs perm] is_permD(1) by (fastforce simp: apply_inv_def)

subsection \<open>Properties\<close>

text \<open>C9: On every permutation of the positions both in-place routines end and compute their
  reference: \<open>apply\<close> reads position \<open>i\<close> from \<open>perm ! i\<close>, \<open>apply_inv\<close> moves the value at position \<open>i\<close> to
  \<open>perm ! i\<close>; they undo each other and keep the values. A length mismatch is a panic.\<close>

theorem apply_permutation_correct:
  assumes "is_perm (length vs) perm" and "length perm' \<noteq> length vs"
  shows "\<exists>us ws. apply_perm perm vs = Some (Inr us) \<and> apply_inv perm vs = Some (Inr ws)
      \<and> length us = length vs \<and> length ws = length vs
      \<and> (\<forall>i < length vs. us ! i = vs ! (perm ! i) \<and> ws ! (perm ! i) = vs ! i)
      \<and> apply_inv perm us = Some (Inr vs) \<and> apply_perm perm ws = Some (Inr vs) \<and> mset us = mset vs \<and> mset ws = mset vs
      \<and> apply_perm perm' vs = Some (Inl Panic) \<and> apply_inv perm' vs = Some (Inl Panic)"
proof (intro exI conjI)
  have len: "length perm = length vs" by (rule is_permD(1) [OF assms(1)])
  show "apply_perm perm vs = Some (Inr (permute perm vs))" "apply_inv perm vs = Some (Inr (unpermute perm vs))"
    using assms(1) by (rule apply_perm_ok, rule apply_inv_ok)
  show "apply_inv perm (permute perm vs) = Some (Inr vs)" "apply_perm perm (unpermute perm vs) = Some (Inr vs)"
    using assms(1) len apply_inv_ok [of "permute perm vs" perm] apply_perm_ok [of "unpermute perm vs" perm]
    by (simp_all add: unpermute_permute permute_unpermute)
  show "\<forall>i < length vs. permute perm vs ! i = vs ! (perm ! i) \<and> unpermute perm vs ! (perm ! i) = vs ! i"
    by (simp add: nth_permute len nth_unpermute [OF assms(1)])
  show "mset (permute perm vs) = mset vs" by (rule mset_permute [OF assms(1)])
  show "mset (unpermute perm vs) = mset vs"
    unfolding unpermute_def by (rule mset_permute [OF is_perm_inv [OF assms(1)]])
qed (use assms(2) is_permD(1) [OF assms(1)] in \<open>simp_all add: apply_perm_def apply_inv_def\<close>)

theorem apply_permutation_correct_witness:
  "\<exists>us ws. apply_perm [2, 3, 1, 0] ''ABCD'' = Some (Inr us) \<and> apply_inv [2, 3, 1, 0] ''ABCD'' = Some (Inr ws)
     \<and> us ! 0 = CHR ''C'' \<and> us ! 3 = CHR ''A'' \<and> ws ! 2 = CHR ''A'' \<and> apply_perm [0] ''ABCD'' = Some (Inl Panic)"
proof -
  have "is_perm (length ''ABCD'') [2, 3, 1, 0]" by (auto simp: is_perm_def)
  from apply_permutation_correct [OF this, of "[0]"] obtain us ws where
    r: "apply_perm [2, 3, 1, 0] ''ABCD'' = Some (Inr us)" "apply_inv [2, 3, 1, 0] ''ABCD'' = Some (Inr ws)"
    and nth: "\<forall>i < 4. us ! i = ''ABCD'' ! ([2, 3, 1, 0] ! i) \<and> ws ! ([2, 3, 1, 0] ! i) = ''ABCD'' ! i"
    and "apply_perm [0] ''ABCD'' = Some (Inl Panic)" by auto
  moreover have "us ! 0 = CHR ''C''" "us ! 3 = CHR ''A''" "ws ! 2 = CHR ''A''"
    using nth [rule_format, of 0] nth [rule_format, of 3] by simp_all
  ultimately show ?thesis by blast
qed

end
