(* ===== verification/Comparison.thy ===== *)
theory Comparison
  imports Boolean_Circuits
begin

text \<open>
  Comparison of a shared field element with a constant (\<open>src/protocol/boolean/comparison.rs\<close>)
  and of a bitwise-shared number with the prime of the field
  (\<open>src/protocol/boolean/bitwise_less_than_prime.rs\<close>), with the recomposition of a bitwise-shared
  number into the field (\<open>src/secret_sharing/decomposed.rs\<close>).
\<close>

subsection \<open>The interval test\<close>

lemma compute_r_bounds_spec:
  assumes "a < p" and "c < p" and "r < p" and "b = (a + r) mod p"
  shows "(invert (compute_r_bounds b c p) \<noteq> (r_lo (compute_r_bounds b c p) < r \<and> r < r_hi (compute_r_bounds b c p))) \<longleftrightarrow> c < a"
    and "r_lo (compute_r_bounds b c p) < p" and "r_hi (compute_r_bounds b c p) \<le> p"
proof -
  have b: "b = (if a + r < p then a + r else a + r - p)"
    using assms by (simp add: mod_if)
  show "(invert (compute_r_bounds b c p) \<noteq> (r_lo (compute_r_bounds b c p) < r \<and> r < r_hi (compute_r_bounds b c p))) \<longleftrightarrow> c < a"
    "r_lo (compute_r_bounds b c p) < p" "r_hi (compute_r_bounds b c p) \<le> p"
    using assms(1-3) by (auto simp: compute_r_bounds_def b split: if_splits)
qed

subsection \<open>Comparison with the prime\<close>

definition prime_bits :: "'v prime_field_ops \<Rightarrow> nat" where
  "prime_bits F = bit_length (of_nat (PRIME F) :: u128)"

definition check_least_significant_bits ::
  "'v::comm_ring_1 prime_field_ops \<Rightarrow> ('s, 'v) protocols \<Rightarrow> gate \<Rightarrow> record_id \<Rightarrow> 's list \<Rightarrow> 's res" where
  "check_least_significant_bits F P g rid x =
     (if PRIME F mod 8 \<noteq> 3 then Inl Panic
      else if length x \<noteq> 3 then Inl Panic
      else
        let one = p_known P 1;
            both_one = p_mul P (narrow g (bit_op_step 0)) rid (x ! 0) (x ! 1);
            one_one_zero = p_mul P (narrow g (bit_op_step 1)) rid (p_sub P one (x ! 2)) both_one
        in Inr (p_add P one_one_zero (x ! 2)))"

definition greater_than_or_equal_to_prime_trimmed ::
  "'v::comm_ring_1 prime_field_ops \<Rightarrow> ('s, 'v) protocols \<Rightarrow> gate \<Rightarrow> record_id \<Rightarrow> 's list \<Rightarrow> 's res" where
  "greater_than_or_equal_to_prime_trimmed F P g rid x =
     (let prime = PRIME F; l = prime_bits F in
      if length x \<noteq> l then Inl Panic
      else if prime = 2 ^ l - 1 then multiply_all_shares P (narrow g ''check_if_all_ones'') rid x
      else if prime = 2 ^ l - 5 then
        bind_res (check_least_significant_bits F P (narrow g ''check_least_significant_bits'') rid (take 3 x)) (\<lambda>lsb.
        bind_res (multiply_all_shares P (narrow g ''check_if_all_ones'') rid (drop 3 x)) (\<lambda>msb_all_ones.
        Inr (p_mul P (narrow g ''all_ones_and_final_bits'') rid lsb msb_all_ones)))
      else Inl Panic)"

definition greater_than_or_equal_to_prime ::
  "'v::comm_ring_1 prime_field_ops \<Rightarrow> ('s, 'v) protocols \<Rightarrow> gate \<Rightarrow> record_id \<Rightarrow> 's list \<Rightarrow> 's res" where
  "greater_than_or_equal_to_prime F P g rid x =
     (let l = prime_bits F in
      if length x > l then
        bind_res (any_ones P (narrow g ''check_if_any_ones'') rid (drop l x)) (\<lambda>leading_ones.
        bind_res (greater_than_or_equal_to_prime_trimmed F P (narrow g ''check_trimmed'') rid (take l x)) (\<lambda>normal_check.
        Inr (secure_or P (narrow g ''leading_ones_or_rest'') rid leading_ones normal_check)))
      else if length x = l then
        greater_than_or_equal_to_prime_trimmed F P (narrow g ''check_trimmed'') rid x
      else Inl Panic)"

definition less_than_prime ::
  "'v::comm_ring_1 prime_field_ops \<Rightarrow> ('s, 'v) protocols \<Rightarrow> gate \<Rightarrow> record_id \<Rightarrow> 's list \<Rightarrow> 's res" where
  "less_than_prime F P g rid x =
     bind_res (greater_than_or_equal_to_prime F P g rid x) (\<lambda>gtoe. Inr (p_sub P (p_known P 1) gtoe))"

subsection \<open>Recomposition\<close>

definition to_additive_sharing_in_large_field ::
  "'v prime_field_ops \<Rightarrow> ('s, 'v) protocols \<Rightarrow> 's BitDecomposed \<Rightarrow> 's" where
  "to_additive_sharing_in_large_field F P bits =
     foldl (\<lambda>acc (i, b). p_add P acc (p_scale P b (truncate_from F (2 ^ i)))) (p_zero P) (enumerate 0 bits)"

subsection \<open>Bit lists against the prime\<close>

lemma all_ones_iff: "(\<forall>b \<in> set bs. b) \<longleftrightarrow> bits_nat bs = 2 ^ length bs - 1"
proof (induction bs)
  case (Cons b bs)
  have arith: "1 + 2 * B = 2 * N - 1 \<longleftrightarrow> B = N - 1" "2 * B \<noteq> 2 * N - 1" if "B < N" for B N :: nat
    using that by presburger+
  show ?case
    using arith [OF bits_nat_less [of bs]] Cons by (cases b) simp_all
qed simp

lemma ge_minus_five_iff:
  assumes "length bs = l" and "3 \<le> l"
  shows "2 ^ l - 5 \<le> bits_nat bs \<longleftrightarrow>
    ((bs ! 0 \<and> bs ! 1) \<or> bs ! 2) \<and> (\<forall>b \<in> set (drop 3 bs). b)"
proof -
  obtain b0 b1 b2 rest where bs: "bs = b0 # b1 # b2 # rest"
    using assms(2) [folded assms(1)] by (auto simp: numeral_3_eq_3 Suc_le_length_iff)
  have l: "(2 :: nat) ^ l = 8 * 2 ^ length rest" unfolding assms(1) [symmetric] bs by simp
  have key: "8 * N - 5 \<le> of_bool b0 + 2 * (of_bool b1 + 2 * (of_bool b2 + 2 * R)) \<longleftrightarrow> ((b0 \<and> b1) \<or> b2) \<and> R = N - 1"
    if "R < N" for R N :: nat
    using that by (cases b0; cases b1; cases b2; simp; arith)
  show ?thesis
    unfolding l bs bits_nat.simps key [OF bits_nat_less [of rest]]
    by (simp add: all_ones_iff numeral_3_eq_3 numeral_2_eq_2)
qed

lemma prime_bits_bounds:
  assumes "PRIME F < 2 ^ 64"
  shows "PRIME F < 2 ^ prime_bits F" and "prime_bits F \<le> 64"
proof -
  have u: "unat (of_nat (PRIME F) :: u128) = PRIME F"
    using assms by (simp add: unsigned_of_nat take_bit_nat_eq_self)
  have "bit_length (of_nat (PRIME F) :: u128) \<le> 64"
    using assms u by (subst bit_length_le_iff_less) simp_all
  then show le: "prime_bits F \<le> 64" by (simp add: prime_bits_def)
  have "unat (of_nat (PRIME F) :: u128) < 2 ^ prime_bits F"
    using bit_length_le_iff_less [of "prime_bits F" "of_nat (PRIME F) :: u128"] le
    by (simp add: prime_bits_def)
  then show "PRIME F < 2 ^ prime_bits F" by (simp only: u)
qed

context mpc
begin

lemma to_additive_sharing_ok:
  assumes "list_all2 is_bit bs ss" and "\<And>i. i < length ss \<Longrightarrow> truncate_from F (2 ^ i) = of_nat (2 ^ i)"
  shows "ok (to_additive_sharing_in_large_field F P ss)"
    and "val (to_additive_sharing_in_large_field F P ss) = of_nat (bits_nat bs)"
proof -
  have "ok (foldl (\<lambda>acc (i, b). p_add P acc (p_scale P b (truncate_from F (2 ^ i)))) acc (enumerate n ss))
    \<and> val (foldl (\<lambda>acc (i, b). p_add P acc (p_scale P b (truncate_from F (2 ^ i)))) acc (enumerate n ss))
      = val acc + of_nat (2 ^ n * bits_nat bs)"
    if "\<And>i. i < n + length ss \<Longrightarrow> truncate_from F (2 ^ i) = of_nat (2 ^ i)" "ok acc" for acc n
    using assms(1) that
  proof (induction arbitrary: acc n rule: list_all2_induct)
    case (Cons b bs s ss)
    then show ?case
      using Cons.IH [of "Suc n" "p_add P acc (p_scale P s (truncate_from F (2 ^ n)))"]
      by (cases b) (simp_all add: is_bit_def algebra_simps)
  qed simp
  from this [of 0 "p_zero P"] assms(2)
  show "ok (to_additive_sharing_in_large_field F P ss)"
    and "val (to_additive_sharing_in_large_field F P ss) = of_nat (bits_nat bs)"
    by (simp_all add: to_additive_sharing_in_large_field_def)
qed

lemma is_bit_and: "is_bit u a \<Longrightarrow> is_bit v b \<Longrightarrow> is_bit (u \<and> v) (p_mul P g rid a b)"
  by (cases u; cases v) (simp_all add: is_bit_def)

lemma check_lsb_ok:
  assumes "list_all2 is_bit bs x" and "length x = 3" and "PRIME F mod 8 = 3"
  shows "\<exists>c. check_least_significant_bits F P g rid x = Inr c \<and> is_bit ((bs ! 0 \<and> bs ! 1) \<or> bs ! 2) c"
proof -
  have "is_bit (bs ! i) (x ! i)" if "i < 3" for i using list_all2_nthD2 [OF assms(1)] assms(2) that by simp
  then have "is_bit (bs ! 0) (x ! 0)" "is_bit (bs ! 1) (x ! 1)" "is_bit (bs ! 2) (x ! 2)" by simp_all
  then show ?thesis
    using assms(2,3)
    by (cases "bs ! 0"; cases "bs ! 1"; cases "bs ! 2") (simp_all add: check_least_significant_bits_def is_bit_def Let_def)
qed

lemma gte_prime_trimmed_ok:
  assumes "list_all2 is_bit bs x" and "length x = prime_bits F" and "3 < prime_bits F"
    and "PRIME F = 2 ^ prime_bits F - 1 \<or> PRIME F = 2 ^ prime_bits F - 5"
  shows "\<exists>c. greater_than_or_equal_to_prime_trimmed F P g rid x = Inr c \<and> is_bit (PRIME F \<le> bits_nat bs) c"
proof -
  let ?l = "prime_bits F"
  have len: "length bs = ?l" using assms(1,2) by (simp add: list_all2_lengthD)
  have x: "x \<noteq> []" "drop 3 x \<noteq> []" using assms(2,3) by auto
  show ?thesis
  proof (cases "PRIME F = 2 ^ ?l - 1")
    case True
    have "(\<forall>b \<in> set bs. b) \<longleftrightarrow> PRIME F \<le> bits_nat bs"
      using bits_nat_less [of bs] all_ones_iff [of bs] by (auto simp: True len)
    with multiply_all_bits [OF assms(1) x(1)] show ?thesis
      using True assms(2) by (simp add: greater_than_or_equal_to_prime_trimmed_def)
  next
    case False
    then have p: "PRIME F = 2 ^ ?l - 5" using assms(4) by simp
    define k where "k = ?l - 3"
    have k: "?l = 3 + k" using assms(3) by (simp add: k_def)
    obtain m where m: "(2 :: nat) ^ k = Suc m" using gr0_implies_Suc [of "2 ^ k"] by auto
    have "PRIME F = 8 * m + 3" unfolding p k power_add m by simp
    then have mod8: "PRIME F mod 8 = 3" by simp
    obtain lsb where lsb: "check_least_significant_bits F P (narrow g ''check_least_significant_bits'') rid (take 3 x) = Inr lsb"
      "is_bit ((bs ! 0 \<and> bs ! 1) \<or> bs ! 2) lsb"
      using check_lsb_ok [OF list_all2_takeI [OF assms(1), of 3] _ mod8] assms(2,3) by force
    obtain msb where msb: "multiply_all_shares P (narrow g ''check_if_all_ones'') rid (drop 3 x) = Inr msb"
      "is_bit (\<forall>b \<in> set (drop 3 bs). b) msb"
      using multiply_all_bits [OF list_all2_dropI [OF assms(1), of 3] x(2)] by blast
    have "is_bit (2 ^ ?l - 5 \<le> bits_nat bs) (p_mul P (narrow g ''all_ones_and_final_bits'') rid lsb msb)"
      using ge_minus_five_iff [OF len] assms(3) is_bit_and [OF lsb(2) msb(2)] by simp
    then show ?thesis
      using lsb(1) msb(1) False assms(2) by (simp add: greater_than_or_equal_to_prime_trimmed_def p)
  qed
qed

lemma less_than_prime_ok:
  assumes "list_all2 is_bit bs x" and "prime_bits F \<le> length x" and "3 < prime_bits F" and "PRIME F < 2 ^ 64"
    and "PRIME F = 2 ^ prime_bits F - 1 \<or> PRIME F = 2 ^ prime_bits F - 5"
  shows "\<exists>c. less_than_prime F P g rid x = Inr c \<and> is_bit (bits_nat bs < PRIME F) c"
proof -
  let ?l = "prime_bits F"
  have len: "length bs = length x" using assms(1) by (rule list_all2_lengthD)
  have "\<exists>c. greater_than_or_equal_to_prime F P g rid x = Inr c \<and> is_bit (PRIME F \<le> bits_nat bs) c"
  proof (cases "length x > ?l")
    case True
    then have "drop ?l x \<noteq> []" by simp
    then obtain lead where lead: "any_ones P (narrow g ''check_if_any_ones'') rid (drop ?l x) = Inr lead"
      "is_bit (\<exists>b \<in> set (drop ?l bs). b) lead"
      using any_ones_ok [OF list_all2_dropI [OF assms(1)]] by blast
    obtain trim where trim: "greater_than_or_equal_to_prime_trimmed F P (narrow g ''check_trimmed'') rid (take ?l x) = Inr trim"
      "is_bit (PRIME F \<le> bits_nat (take ?l bs)) trim"
      using gte_prime_trimmed_ok [OF list_all2_takeI [OF assms(1)] _ assms(3,5)] True by force
    have p: "PRIME F < 2 ^ ?l" by (rule prime_bits_bounds(1) [OF assms(4)])
    have "length (take ?l bs) = ?l" using len True by simp
    then have "bits_nat bs = bits_nat (take ?l bs) + 2 ^ ?l * bits_nat (drop ?l bs)"
      using bits_nat_append [of "take ?l bs" "drop ?l bs"] by simp
    moreover have "(\<exists>b \<in> set (drop ?l bs). b) \<longleftrightarrow> bits_nat (drop ?l bs) \<noteq> 0"
      by (simp add: bits_nat_zero_iff)
    moreover have "PRIME F \<le> bits_nat (take ?l bs) + 2 ^ ?l * bits_nat (drop ?l bs)" if "bits_nat (drop ?l bs) \<noteq> 0"
    proof -
      have "2 ^ ?l \<le> 2 ^ ?l * bits_nat (drop ?l bs)" using that by simp
      with p show ?thesis by linarith
    qed
    ultimately have "(\<exists>b \<in> set (drop ?l bs). b) \<or> PRIME F \<le> bits_nat (take ?l bs) \<longleftrightarrow> PRIME F \<le> bits_nat bs"
      by (cases "bits_nat (drop ?l bs) = 0") auto
    with secure_or_ok [OF lead(2) trim(2), of "narrow g ''leading_ones_or_rest''" rid] show ?thesis
      using True lead(1) trim(1) by (simp add: greater_than_or_equal_to_prime_def)
  next
    case False
    then have "length x = ?l" using assms(2) by simp
    with gte_prime_trimmed_ok [OF assms(1) this assms(3,5)] show ?thesis
      by (simp add: greater_than_or_equal_to_prime_def)
  qed
  then obtain c where c: "greater_than_or_equal_to_prime F P g rid x = Inr c" "is_bit (PRIME F \<le> bits_nat bs) c" by blast
  from is_bit_flip [OF c(2)] c(1) show ?thesis by (simp add: less_than_prime_def not_le)
qed

text \<open>A solved random number: bits below the prime and their recomposition.\<close>

definition solved :: "'v prime_field_ops \<Rightarrow> bool list \<Rightarrow> 's RandomBitsShare \<Rightarrow> bool" where
  "solved F bs r \<longleftrightarrow> list_all2 is_bit bs (b_b r) \<and> length bs = prime_bits F \<and> bits_nat bs < PRIME F
     \<and> ok (b_p r) \<and> val (b_p r) = of_nat (bits_nat bs)"

lemma greater_than_constant_ok:
  assumes "prime_field F" and "solved F bs r" and "ok a" and "c < PRIME F" and "0 < prime_bits F"
  shows "\<exists>s. greater_than_constant F P g rid r a c = Inr s \<and> is_bit (c < as_u128 F (val a)) s"
proof -
  define b where "b = as_u128 F (val (b_p r) + val a)"
  let ?B = "compute_r_bounds b c (PRIME F)" and ?r = "bits_nat bs" and ?l = "prime_bits F"
  have r: "list_all2 is_bit bs (b_b r)" "length (b_b r) = ?l" "?r < PRIME F" "ok (b_p r)" "val (b_p r) = of_nat ?r"
    using assms(2) by (auto simp: solved_def list_all2_lengthD)
  have p: "PRIME F < 2 ^ ?l" "?l \<le> 64" using prime_bits_bounds prime_field.PRIME_less [OF assms(1)] by blast+
  have b: "b = (as_u128 F (val a) + ?r) mod PRIME F"
    using prime_field.as_u128_add [OF assms(1)] prime_field.as_u128_of_nat [OF assms(1)] r(3)
    by (simp add: b_def r(5) add.commute)
  note spec = compute_r_bounds_spec [OF prime_field.as_u128_less [OF assms(1)] assms(4) r(3) b]
  have ne: "b_b r \<noteq> []" and le: "length (b_b r) \<le> 128" using r(2) assms(5) p(2) by auto
  have mods: "r_lo ?B mod 2 ^ length (b_b r) = r_lo ?B" "r_hi ?B mod 2 ^ length (b_b r) = r_hi ?B"
    using spec(2,3) p(1) by (simp_all add: r(2))
  obtain lo where lo: "bitwise_greater_than_constant P (narrow g ''compare_lo'') rid (b_b r) (r_lo ?B) = Inr lo"
    "is_bit (?r > r_lo ?B) lo"
    using bitwise_compare_ok(1) [OF r(1) ne le, of "narrow g ''compare_lo''" rid "r_lo ?B"] mods by auto
  obtain hi where hi: "bitwise_less_than_constant P (narrow g ''compare_hi'') rid (b_b r) (r_hi ?B) = Inr hi"
    "is_bit (?r < r_hi ?B) hi"
    using bitwise_compare_ok(2) [OF r(1) ne le, of "narrow g ''compare_hi''" rid "r_hi ?B"] mods by auto
  have in_range: "is_bit (r_lo ?B < ?r \<and> ?r < r_hi ?B) (p_mul P (narrow g ''and'') rid lo hi)"
    using is_bit_and [OF lo(2) hi(2)] by simp
  have "greater_than_constant F P g rid r a c =
      Inr (if invert ?B then p_sub P (p_known P 1) (p_mul P (narrow g ''and'') rid lo hi) else p_mul P (narrow g ''and'') rid lo hi)"
    using assms(3,4) r(4) lo(1) hi(1) by (simp add: greater_than_constant_def Let_def b_def)
  with in_range is_bit_flip [OF in_range] spec(1) show ?thesis by (cases "invert ?B") auto
qed

end

lemma fp_prime_bits: "prime_bits fp31_field = 5" "prime_bits fp32bit_field = 32"
  unfolding prime_bits_def
  by (rule bit_length_eqI; simp add: fp31_field_def fp31_prime_def fp32bit_field_def fp32bit_prime_def)+

lemma fp_prime_shapes:
  "PRIME fp31_field = 2 ^ prime_bits fp31_field - 1" "PRIME fp32bit_field = 2 ^ prime_bits fp32bit_field - 5"
  unfolding fp_prime_bits by (simp_all add: fp31_field_def fp31_prime_def fp32bit_field_def fp32bit_prime_def)

subsection \<open>Properties\<close>



text \<open>C25: The comparison of a shared field element with a constant below the prime: given any solved
  random number the protocol reveals only its sum with the element and returns a sharing of
  \<open>a > c\<close>, for both prime fields and for semi-honest and malicious shares.\<close>

theorem greater_than_constant_correct:
  fixes F :: "'v::comm_ring_1 prime_field_ops"
  assumes "prime_field F" and "0 < prime_bits F" and "c < PRIME F"
    and "list_all2 sh_bit bs (b_b r)" and "length bs = prime_bits F" and "bits_nat bs < PRIME F"
    and "consistent (b_p r)" and "reconstruct (b_p r) = of_nat (bits_nat bs)" and "consistent a"
  shows "\<exists>s. greater_than_constant F (sh_protocols rnd) g rid r a c = Inr s
    \<and> consistent s \<and> reconstruct s = of_bool (c < as_u128 F (reconstruct a))"
proof -
  have "sh.solved F bs r" using assms(4-8) by (simp add: sh.solved_def)
  from sh.greater_than_constant_ok [OF assms(1) this assms(9,3,2), of rnd g rid] show ?thesis
    by (simp add: sh_bit_def)
qed

definition example_solved :: "fp31 AdditiveShare world RandomBitsShare" where
  "example_solved = \<lparr>b_b = map (\<lambda>b. share_known_value (of_bool b)) (bits_of 5 9), b_p = share_known_value 9\<rparr>"

theorem greater_than_constant_correct_witness:
  "\<exists>s. greater_than_constant fp31_field (sh_protocols (\<lambda>g i r. 3)) default_gate 0 example_solved (share_known_value 20) 17 = Inr s
     \<and> consistent s \<and> reconstruct s = 1"
proof -
  have bits: "bits_nat (bits_of 5 9) = 9" by (simp add: bits_nat_bits_of)
  have "list_all2 sh_bit (bits_of 5 9) (b_b example_solved)"
    by (simp add: example_solved_def list_all2_conv_all_nth sh_bit_def)
  moreover have "as_u128 fp31_field 20 = 20"
    using fp31.as_u128_of_nat [of 20] by (simp add: fp31_field_def fp31_prime_def)
  moreover have "PRIME fp31_field = 31" by (simp add: fp31_field_def fp31_prime_def)
  ultimately show ?thesis
    using greater_than_constant_correct [of fp31_field 17 "bits_of 5 9" example_solved "share_known_value 20"
        "\<lambda>g i r. 3" default_gate 0] fp31.prime_field_axioms
    by (simp add: fp_prime_bits bits) (simp add: example_solved_def)
qed



end
