(* ===== verification/Modulus_Conversion.thy ===== *)
theory Modulus_Conversion
  imports Comparison
begin

text \<open>
  Modulus conversion, \<open>src/protocol/modulus_conversion/convert_shares.rs\<close>: every bit of an XOR
  sharing becomes a sharing of that bit in a prime field. Each helper first turns its two
  bits into three sparse sharings (\<open>BitConversionTriple\<close>), the contexts upgrade the triples
  (\<open>src/protocol/context/upgrade.rs\<close>), and two sparse multiplications form their exclusive or. A
  stream of records is a list, and \<open>convert_some_bits\<close> maps over it with increasing record numbers.
\<close>

subsection \<open>Local conversion\<close>

type_synonym 's triple = "'s \<times> 's \<times> 's"

text \<open>\<open>F::try_from\<close> of 0 or 1, which has at most one bit, is never a truncation.\<close>

fun triple_new :: "'v::comm_ring_1 prime_field_ops \<Rightarrow> role \<Rightarrow> bool \<Rightarrow> bool \<Rightarrow> 'v AdditiveShare triple" where
  "triple_new F H1 l r =
     (AdditiveShare (truncate_from F (of_bool l)) 0, AdditiveShare 0 (truncate_from F (of_bool r)), AdditiveShare 0 0)"
| "triple_new F H2 l r =
     (AdditiveShare 0 0, AdditiveShare (truncate_from F (of_bool l)) 0, AdditiveShare 0 (truncate_from F (of_bool r)))"
| "triple_new F H3 l r =
     (AdditiveShare 0 (truncate_from F (of_bool r)), AdditiveShare 0 0, AdditiveShare (truncate_from F (of_bool l)) 0)"

text \<open>The trait \<open>ToBitConversionTriples\<close>: what one helper reads as bit \<open>i\<close> of its input (its left
  and its right bit), and what is carried along unconverted.\<close>

record ('x, 'r) to_triples =
  bit_pair :: "'x \<Rightarrow> nat \<Rightarrow> (bool \<times> bool) res"
  residual :: "'x \<Rightarrow> 'r"

definition triple_at :: "('x, 'r) to_triples \<Rightarrow> 'v::comm_ring_1 prime_field_ops \<Rightarrow> role \<Rightarrow> 'x \<Rightarrow> nat \<Rightarrow> 'v AdditiveShare triple res" where
  "triple_at T F role v i = bind_res (bit_pair T v i) (\<lambda>(l, r). Inr (triple_new F role l r))"

definition triple_range ::
  "('x, 'r) to_triples \<Rightarrow> 'v::comm_ring_1 prime_field_ops \<Rightarrow> role \<Rightarrow> 'x \<Rightarrow> nat list \<Rightarrow> 'v AdditiveShare triple BitDecomposed res" where
  "triple_range T F role v indices = bind_res (sequence_res (map (triple_at T F role v) indices)) bd_new"

definition into_triples ::
  "('x, 'r) to_triples \<Rightarrow> 'v::comm_ring_1 prime_field_ops \<Rightarrow> role \<Rightarrow> 'x \<Rightarrow> nat list
     \<Rightarrow> ('v AdditiveShare triple BitDecomposed \<times> 'r) res" where
  "into_triples T F role v indices = bind_res (triple_range T F role v indices) (\<lambda>ts. Inr (ts, residual T v))"

text \<open>\<open>Index<u32>\<close> of a Galois field element, with its assertion, and the two implementations of the trait
  for replicated shares.\<close>

definition gf_index :: "gf \<Rightarrow> 'w::len word \<Rightarrow> nat \<Rightarrow> bool res" where
  "gf_index G a i = (if i < gf_bits G then Inr (bit a i) else Inl Panic)"

definition gf_triples :: "gf \<Rightarrow> ('w::len word AdditiveShare, unit) to_triples" where
  "gf_triples G =
     \<lparr>bit_pair = (\<lambda>s i. bind_res (gf_index G (left s) i) (\<lambda>l. bind_res (gf_index G (right s) i) (\<lambda>r. Inr (l, r)))),
      residual = (\<lambda>_. ())\<rparr>"

definition Gf2_bit :: "Gf2 \<Rightarrow> bool" where
  "Gf2_bit v = bit (Gf2_as_u128 v) 0"

definition gf2_bits_triples :: "(Gf2 AdditiveShare BitDecomposed, unit) to_triples" where
  "gf2_bits_triples =
     \<lparr>bit_pair = (\<lambda>ss i. if i < length ss then Inr (Gf2_bit (left (ss ! i)), Gf2_bit (right (ss ! i))) else Inl Panic),
      residual = (\<lambda>_. ())\<rparr>"

subsection \<open>Conversion\<close>

text \<open>\<open>UpgradeToMalicious\<close> for a triple. The semi-honest context upgrades to the share itself, so the
  gate does not matter there.\<close>

definition upgrade_triple :: "('s, 'v) protocols \<Rightarrow> gate \<Rightarrow> record_id \<Rightarrow> 'v AdditiveShare world triple \<Rightarrow> 's triple res" where
  "upgrade_triple P g rid t =
     (case t of (v0, v1, v2) \<Rightarrow>
      bind_res (p_upgrade P Pvzz (narrow g ''upgrade_bit_triple0'') rid v0) (\<lambda>t0.
      bind_res (p_upgrade P Pzvz (narrow g ''upgrade_bit_triple1'') rid v1) (\<lambda>t1.
      bind_res (p_upgrade P Pzzv (narrow g ''upgrade_bit_triple2'') rid v2) (\<lambda>t2.
      Inr (t0, t1, t2)))))"

definition convert_bit :: "(nat \<Rightarrow> 'v) \<Rightarrow> ('s, 'v) protocols \<Rightarrow> gate \<Rightarrow> record_id \<Rightarrow> 's triple \<Rightarrow> 's res" where
  "convert_bit trunc P g rid t =
     (case t of (sh0, sh1, sh2) \<Rightarrow>
      bind_res (xor_sparse trunc P (narrow g ''xor1'') rid sh0 sh1 AVZZ_BZVZ) (\<lambda>sh0_xor_sh1.
      xor_sparse trunc P (narrow g ''xor2'') rid sh0_xor_sh1 sh2 AVVZ_BZZV))"

text \<open>What the three helpers hold of one triple.\<close>

definition triple_world :: "'a triple world \<Rightarrow> 'a world triple" where
  "triple_world t = (\<lambda>r. fst (t r), \<lambda>r. fst (snd (t r)), \<lambda>r. snd (snd (t r)))"

definition convert_step :: "nat \<Rightarrow> string" where
  "convert_step i = ''convert_bit'' @ show_nat i"

definition convert_row ::
  "'v::comm_ring_1 prime_field_ops \<Rightarrow> ('s, 'v) protocols \<Rightarrow> gate \<Rightarrow> record_id \<Rightarrow> 'v AdditiveShare triple BitDecomposed world \<Rightarrow> 's BitDecomposed res" where
  "convert_row F P g rid ts =
     bind_res (sequence_res (map (\<lambda>i.
       let g' = narrow g (convert_step i) in
       bind_res (upgrade_triple P (narrow (narrow g' ''upgrade'') ''upgrade'') rid (triple_world (\<lambda>r. ts r ! i))) (\<lambda>upgraded.
       convert_bit (truncate_from F) P g' rid upgraded)) [0..<length (ts H1)])) bd_new"

text \<open>One step of \<open>LocalBitConverter\<close> at every helper, and the conversion of the row; then the
  stream of rows with the record numbers counted up. A row that fails is an item of the stream.\<close>

definition convert_record ::
  "('x, 'r) to_triples \<Rightarrow> 'v::comm_ring_1 prime_field_ops \<Rightarrow> ('s, 'v) protocols \<Rightarrow> gate \<Rightarrow> record_id \<Rightarrow> nat list \<Rightarrow> 'x world
     \<Rightarrow> ('s BitDecomposed \<times> 'r world) res" where
  "convert_record T F P g rid bits v =
     bind_res (run3 (\<lambda>r. into_triples T F r (v r) bits)) (\<lambda>tr.
     bind_res (convert_row F P g rid (\<lambda>r. fst (tr r))) (\<lambda>row. Inr (row, \<lambda>r. snd (tr r))))"

fun convert_some_bits ::
  "('x, 'r) to_triples \<Rightarrow> 'v::comm_ring_1 prime_field_ops \<Rightarrow> ('s, 'v) protocols \<Rightarrow> gate \<Rightarrow> 'x world list \<Rightarrow> record_id \<Rightarrow> nat list
     \<Rightarrow> ('s BitDecomposed \<times> 'r world) res list" where
  "convert_some_bits T F P g [] rid bits = []"
| "convert_some_bits T F P g (v # vs) rid bits =
     convert_record T F P g rid bits v # convert_some_bits T F P g vs (rid + 1) bits"

definition convert_selected_bits ::
  "('x, 'r) to_triples \<Rightarrow> 'v::comm_ring_1 prime_field_ops \<Rightarrow> ('s, 'v) protocols \<Rightarrow> gate \<Rightarrow> 'x world list \<Rightarrow> nat list
     \<Rightarrow> ('s BitDecomposed \<times> 'r world) res list" where
  "convert_selected_bits T F P g vs bits = convert_some_bits T F P g vs 0 bits"

definition convert_bits ::
  "('x, unit) to_triples \<Rightarrow> 'v::comm_ring_1 prime_field_ops \<Rightarrow> ('s, 'v) protocols \<Rightarrow> gate \<Rightarrow> 'x world list \<Rightarrow> nat list
     \<Rightarrow> 's BitDecomposed res list" where
  "convert_bits T F P g vs bits = map (\<lambda>v. bind_res v (\<lambda>(b, _). Inr b)) (convert_some_bits T F P g vs 0 bits)"

subsection \<open>Correctness\<close>

text \<open>The bits that the three helpers read fit together: every right bit is the left bit of the
  right neighbour. The shared bit is their exclusive or.\<close>

definition shares_bits :: "('x, 'r) to_triples \<Rightarrow> nat list \<Rightarrow> (nat \<Rightarrow> bool) \<Rightarrow> 'x world \<Rightarrow> bool" where
  "shares_bits T is b v \<longleftrightarrow> (\<forall>i \<in> set is. \<exists>l. (\<forall>r. bit_pair T (v r) i = Inr (l r, l (peer r Right)))
     \<and> b i = ((l H1 \<noteq> l H2) \<noteq> l H3))"

lemma zero_patterns: "\<not> is_pointless AVZZ_BZVZ" "\<not> is_pointless AVVZ_BZZV" "mul_output AVZZ_BZVZ = Inr Pvvz"
  by (simp_all add: is_pointless_def mul_output_def work_def AVZZ_BZVZ_def AVVZ_BZZV_def)

lemma triple_world_shares:
  assumes "truncate_from F 0 = (0 :: 'v::comm_ring_1)" and "truncate_from F 1 = 1"
  shows "case triple_world (\<lambda>r. triple_new F r (l r) (l (peer r Right))) of (t0, t1, t2) \<Rightarrow>
      (consistent t0 \<and> zeros_match Pvzz t0 \<and> reconstruct t0 = of_bool (l H1)) \<and>
      (consistent t1 \<and> zeros_match Pzvz t1 \<and> reconstruct t1 = of_bool (l H2)) \<and>
      (consistent t2 \<and> zeros_match Pzzv t2 \<and> reconstruct t2 = of_bool (l H3))"
  using assms
  by (cases "l H1"; cases "l H2"; cases "l H3")
     (simp_all add: triple_world_def consistent_def reconstruct_def zeros_match_def role_all)

context mpc
begin

lemma xor_sparse_zeros_ok:
  assumes "trunc 2 = (2 :: 'v)" and "is_bit u a" and "is_bit v b" and "zp (fst z) a" and "zp (snd z) b"
    and "\<not> is_pointless z" and "mul_output z = Inr zo" and "zp zo a" and "zp zo b"
  shows "\<exists>c. xor_sparse trunc P g rid a b z = Inr c \<and> is_bit (u \<noteq> v) c \<and> zp zo c"
proof -
  obtain ab where ab: "p_mul_sparse P z g rid a b = Inr ab" "zp zo ab"
    using mul_sparse [OF is_bitD(1) [OF assms(2)] is_bitD(1) [OF assms(3)] assms(4-6)] assms(7) by auto
  then have "zp zo (p_add P (p_add P (p_neg P (p_scale P ab (trunc 2))) a) b)"
    using assms(8,9) by (intro zp_add zp_neg zp_scale)
  with xor_sparse_ok [where trunc = trunc and g = g and rid = rid, OF assms(1-6)] ab(1) show ?thesis by (simp add: xor_sparse_def)
qed

lemma convert_bit_ok:
  assumes "trunc 2 = (2 :: 'v)" and "is_bit u a" and "zp Pvzz a" and "is_bit v b" and "zp Pzvz b" and "is_bit w c" and "zp Pzzv c"
  shows "\<exists>s. convert_bit trunc P g rid (a, b, c) = Inr s \<and> is_bit ((u \<noteq> v) \<noteq> w) s"
proof -
  have zp: "zp Pvvz a" "zp Pvvz b"
    using zp_weaken [OF assms(3), of Pvvz] zp_weaken [OF assms(5), of Pvvz] by (auto split: if_splits)
  obtain s where s: "xor_sparse trunc P (narrow g ''xor1'') rid a b AVZZ_BZVZ = Inr s" "is_bit (u \<noteq> v) s" "zp Pvvz s"
    using xor_sparse_zeros_ok [of trunc, OF assms(1,2,4) _ _ zero_patterns(1,3) zp] assms(3,5) by (auto simp: AVZZ_BZVZ_def)
  show ?thesis
    using xor_sparse_ok [of trunc, OF assms(1) s(2) assms(6) _ _ zero_patterns(2)] s(1,3) assms(7)
    by (simp add: convert_bit_def AVVZ_BZZV_def)
qed

lemma upgrade_triple_ok:
  assumes "case t of (t0, t1, t2) \<Rightarrow> (consistent t0 \<and> zeros_match Pvzz t0 \<and> reconstruct t0 = of_bool u)
    \<and> (consistent t1 \<and> zeros_match Pzvz t1 \<and> reconstruct t1 = of_bool v)
    \<and> (consistent t2 \<and> zeros_match Pzzv t2 \<and> reconstruct t2 = of_bool w)"
  shows "\<exists>a b c. upgrade_triple P g rid t = Inr (a, b, c) \<and> is_bit u a \<and> zp Pvzz a \<and> is_bit v b \<and> zp Pzvz b \<and> is_bit w c \<and> zp Pzzv c"
proof -
  obtain t0 t1 t2 where t: "t = (t0, t1, t2)" by (cases t)
  obtain a where "p_upgrade P Pvzz (narrow g ''upgrade_bit_triple0'') rid t0 = Inr a" "is_bit u a" "zp Pvzz a"
    using assms upgrade [of t0 Pvzz] by (fastforce simp: t is_bit_def)
  moreover obtain b where "p_upgrade P Pzvz (narrow g ''upgrade_bit_triple1'') rid t1 = Inr b" "is_bit v b" "zp Pzvz b"
    using assms upgrade [of t1 Pzvz] by (fastforce simp: t is_bit_def)
  moreover obtain c where "p_upgrade P Pzzv (narrow g ''upgrade_bit_triple2'') rid t2 = Inr c" "is_bit w c" "zp Pzzv c"
    using assms upgrade [of t2 Pzzv] by (fastforce simp: t is_bit_def)
  ultimately show ?thesis by (simp add: t upgrade_triple_def)
qed

lemma convert_row_ok:
  assumes "prime_field F" and "n \<le> 64" and "\<And>r. ts r = map (\<lambda>i. triple_new F r (l i r) (l i (peer r Right))) [0..<n]"
  shows "\<exists>row. convert_row F P g rid ts = Inr row
    \<and> list_all2 (\<lambda>i. is_bit ((l i H1 \<noteq> l i H2) \<noteq> l i H3)) [0..<n] row"
proof -
  let ?f = "\<lambda>i. let g' = narrow g (convert_step i) in
       bind_res (upgrade_triple P (narrow (narrow g' ''upgrade'') ''upgrade'') rid (triple_world (\<lambda>r. ts r ! i)))
         (\<lambda>upgraded. convert_bit (truncate_from F) P g' rid upgraded)"
  have trunc: "truncate_from F 0 = 0" "truncate_from F 1 = 1" "truncate_from F 2 = 2"
    using prime_field.truncate_from_eq [OF assms(1), of 0] prime_field.truncate_from_eq [OF assms(1), of 1]
      prime_field.truncate_from_eq [OF assms(1), of 2] by simp_all
  have "\<exists>s. ?f i = Inr s \<and> is_bit ((l i H1 \<noteq> l i H2) \<noteq> l i H3) s" if "i \<in> set [0..<n]" for i
  proof -
    have "triple_world (\<lambda>r. ts r ! i) = triple_world (\<lambda>r. triple_new F r (l i r) (l i (peer r Right)))"
      using that assms(3) by simp
    with upgrade_triple_ok [OF triple_world_shares [OF trunc(1,2), of "l i"],
        of "narrow (narrow (narrow g (convert_step i)) ''upgrade'') ''upgrade''" rid]
    obtain a b c where "upgrade_triple P (narrow (narrow (narrow g (convert_step i)) ''upgrade'') ''upgrade'') rid
        (triple_world (\<lambda>r. ts r ! i)) = Inr (a, b, c)"
      "is_bit (l i H1) a" "zp Pvzz a" "is_bit (l i H2) b" "zp Pzvz b" "is_bit (l i H3) c" "zp Pzzv c" by auto
    with convert_bit_ok [of "truncate_from F", OF trunc(3)] show ?thesis by (simp add: Let_def)
  qed
  from sequence_res_list_all2 [of "[0..<n]" ?f, OF this]
  obtain row where row: "sequence_res (map ?f [0..<n]) = Inr row"
      "list_all2 (\<lambda>i. is_bit ((l i H1 \<noteq> l i H2) \<noteq> l i H3)) [0..<n] row" by blast
  then have "length row \<le> 64" using assms(2) list_all2_lengthD by fastforce
  with row show ?thesis by (simp add: convert_row_def assms(3) bd_new_def BitDecomposed_MAX_def)
qed

lemma convert_record_ok:
  assumes "prime_field F" and "length is \<le> 64" and "shares_bits T is b v"
  shows "\<exists>row. convert_record T F P g rid is v = Inr (row, \<lambda>r. residual T (v r)) \<and> list_all2 is_bit (map b is) row"
proof -
  define n where "n = length is"
  obtain l where l: "\<And>i r. i \<in> set is \<Longrightarrow> bit_pair T (v r) i = Inr (l i r, l i (peer r Right))"
      "\<And>i. i \<in> set is \<Longrightarrow> b i = ((l i H1 \<noteq> l i H2) \<noteq> l i H3)"
    using assms(3) unfolding shares_bits_def by metis
  define ts where "ts r = map (\<lambda>k. triple_new F r (l (is ! k) r) (l (is ! k) (peer r Right))) [0..<n]" for r
  have at: "map (triple_at T F r (v r)) is = map (\<lambda>i. Inr (triple_new F r (l i r) (l i (peer r Right)))) is" for r
    by (simp add: triple_at_def l)
  have "map (\<lambda>i. triple_new F r (l i r) (l i (peer r Right))) is = ts r" for r
    unfolding ts_def n_def by (rule nth_equalityI) simp_all
  then have "sequence_res (map (triple_at T F r (v r)) is) = Inr (ts r)" for r
    unfolding at by (simp only: sequence_res_map_Inr)
  then have "into_triples T F r (v r) is = Inr (ts r, residual T (v r))" for r
    using assms(2) by (simp add: into_triples_def triple_range_def bd_new_def BitDecomposed_MAX_def ts_def n_def)
  then have run: "run3 (\<lambda>r. into_triples T F r (v r) is) = Inr (\<lambda>r. (ts r, residual T (v r)))" by (rule run3_Inr)
  obtain row where row: "convert_row F P g rid ts = Inr row"
      "list_all2 (\<lambda>k. is_bit ((l (is ! k) H1 \<noteq> l (is ! k) H2) \<noteq> l (is ! k) H3)) [0..<n] row"
    using convert_row_ok [OF assms(1), of n ts "\<lambda>k. l (is ! k)" g rid] assms(2) by (auto simp: ts_def n_def)
  then have "list_all2 is_bit (map b is) row"
    by (simp add: list_all2_conv_all_nth n_def l(2))
  with row(1) run show ?thesis by (simp add: convert_record_def)
qed

lemma convert_some_bits_ok:
  assumes "prime_field F" and "length is \<le> 64" and "list_all2 (shares_bits T is) bs vs"
  shows "list_all2 (\<lambda>(b, v) out. \<exists>row. out = Inr (row, \<lambda>r. residual T (v r)) \<and> list_all2 is_bit (map b is) row)
    (zip bs vs) (convert_some_bits T F P g vs rid is)"
  using assms(3)
proof (induction arbitrary: rid rule: list_all2_induct)
  case (Cons b bs v vs)
  with convert_record_ok [OF assms(1,2)] show ?case by auto
qed simp

end

subsection \<open>Properties\<close>


lemma gf_triples_shares_bits:
  assumes "consistent s" and "\<forall>i \<in> set is. i < gf_bits G"
  shows "shares_bits (gf_triples G) is (bit (left (s H1) XOR left (s H2) XOR left (s H3))) s"
  unfolding shares_bits_def
proof
  fix i assume "i \<in> set is"
  then have "i < gf_bits G" using assms(2) by blast
  then have "bit_pair (gf_triples G) (s r) i = Inr (bit (left (s r)) i, bit (left (s (peer r Right))) i)" for r
    using consistentD [OF assms(1), of r] by (simp add: gf_triples_def gf_index_def)
  then show "\<exists>l. (\<forall>r. bit_pair (gf_triples G) (s r) i = Inr (l r, l (peer r Right)))
      \<and> bit (left (s H1) XOR left (s H2) XOR left (s H3)) i = ((l H1 \<noteq> l H2) \<noteq> l H3)"
    by (intro exI [of _ "\<lambda>r. bit (left (s r)) i"]) (auto simp: bit_xor_iff)
qed

definition example_gf8_share :: "u8 AdditiveShare world" where
  "example_gf8_share = by_role (AdditiveShare 1 2) (AdditiveShare 2 4) (AdditiveShare 4 1)"

lemma example_gf8_share_simps:
  "consistent example_gf8_share"
  "left (example_gf8_share H1) XOR left (example_gf8_share H2) XOR left (example_gf8_share H3) = 7"
  by (simp_all add: example_gf8_share_def by_role_def consistent_def)


text \<open>C28: On shares of a Galois field element the converted bits recompose to the integer value of the
  element; a bit index beyond the width of the field panics.\<close>

theorem convert_galois_field_element:
  fixes s :: "'w::len word AdditiveShare world"
  assumes "prime_field F" and "consistent s" and "gf_bits G \<le> 64" and "gf_bits G \<le> LENGTH('w)"
    and "unat (left (s H1) XOR left (s H2) XOR left (s H3)) < 2 ^ gf_bits G"
  shows "(\<exists>row bs. convert_bits (gf_triples G) F (sh_protocols rnd) g [s] [0..<gf_bits G] = [Inr row]
      \<and> list_all2 sh_bit bs row \<and> bits_nat bs = unat (left (s H1) XOR left (s H2) XOR left (s H3)))
    \<and> convert_bits (gf_triples G) F (sh_protocols rnd) g [s] [gf_bits G] = [Inl Panic]"
proof
  let ?x = "left (s H1) XOR left (s H2) XOR left (s H3)"
  have "shares_bits (gf_triples G) [0..<gf_bits G] (bit ?x) s"
    by (rule gf_triples_shares_bits [OF assms(2)]) simp
  from sh.convert_record_ok [OF assms(1) _ this, of rnd g 0] assms(3)
  obtain row where row: "convert_record (gf_triples G) F (sh_protocols rnd) g 0 [0..<gf_bits G] s
        = Inr (row, \<lambda>r. residual (gf_triples G) (s r))" "list_all2 sh_bit (map (bit ?x) [0..<gf_bits G]) row" by auto
  have "map (bit ?x) [0..<gf_bits G] = bits_of (gf_bits G) (unat ?x)"
    by (simp add: bits_of_def bit_unsigned_iff flip: bit_iff_odd)
  then have "bits_nat (map (bit ?x) [0..<gf_bits G]) = unat ?x"
    using assms(5) by (simp add: bits_nat_bits_of)
  with row show "\<exists>row bs. convert_bits (gf_triples G) F (sh_protocols rnd) g [s] [0..<gf_bits G] = [Inr row]
      \<and> list_all2 sh_bit bs row \<and> bits_nat bs = unat ?x"
    by (auto simp: convert_bits_def)
  show "convert_bits (gf_triples G) F (sh_protocols rnd) g [s] [gf_bits G] = [Inl Panic]"
    by (simp add: convert_bits_def convert_record_def run3_def into_triples_def triple_range_def triple_at_def
        gf_triples_def gf_index_def)
qed

theorem convert_galois_field_element_witness:
  "\<exists>row bs. convert_bits (gf_triples gf8bit) fp31_field (sh_protocols (\<lambda>g i r. 3)) default_gate [example_gf8_share] [0..<8] = [Inr row]
     \<and> list_all2 sh_bit bs row \<and> bits_nat bs = 7"
  using convert_galois_field_element [of fp31_field example_gf8_share gf8bit "\<lambda>g i r. 3" default_gate]
    fp31.prime_field_axioms example_gf8_share_simps
  by (auto simp: gf8bit_def)

end
