(* ===== verification/Random_Bits.thy ===== *)
theory Random_Bits
  imports Modulus_Conversion
begin

text \<open>
  Shared random numbers below the prime: random bits converted from the shared randomness
  (\<open>src/protocol/boolean/generate_random_bits.rs\<close>), one attempt at a number below the prime
  (\<open>solved_bits.rs\<close>), and the generator that tries again in a fallback context
  (\<open>random_bits_generator.rs\<close>). The fallback loop is a \<open>partial_function\<close>, so that not ending
  is \<open>None\<close>; its atomic counter is a 32-bit word that wraps.
\<close>

subsection \<open>Random bits\<close>

record RawRandomBits =
  raw_count :: nat
  raw_left :: u64
  raw_right :: u64

definition raw_generate :: "'v prime_field_ops \<Rightarrow> u128 prss \<Rightarrow> gate \<Rightarrow> record_id \<Rightarrow> role \<Rightarrow> RawRandomBits res" where
  "raw_generate F raw g rid r =
     (let cnt = prime_bits F in
      if \<not> cnt \<le> 64 then Inl Panic
      else case generate_fields raw g rid r of (l, rt) \<Rightarrow>
        Inr \<lparr>raw_count = cnt, raw_left = ucast l, raw_right = ucast rt\<rparr>)"

definition raw_triples :: "'v prime_field_ops \<Rightarrow> (RawRandomBits, unit) to_triples" where
  "raw_triples F =
     \<lparr>bit_pair = (\<lambda>v i. if \<not> prime_bits F \<ge> raw_count v then Inl Panic
        else if \<not> i < raw_count v then Inl Panic
        else Inr (drop_bit i (raw_left v) AND 1 = 1, drop_bit i (raw_right v) AND 1 = 1)),
      residual = (\<lambda>_. ())\<rparr>"

text \<open>The first \<open>n\<close> items of the endless stream.\<close>

definition random_bits ::
  "'v::comm_ring_1 prime_field_ops \<Rightarrow> ('s, 'v) protocols \<Rightarrow> u128 prss \<Rightarrow> gate \<Rightarrow> nat \<Rightarrow> 's BitDecomposed res list res" where
  "random_bits F P raw g n =
     bind_res (sequence_res (map (\<lambda>i. run3 (raw_generate F raw g i)) [0..<n])) (\<lambda>vs.
     Inr (convert_bits (raw_triples F) F P g vs [0..<prime_bits F]))"

definition one_random_bit ::
  "'v::comm_ring_1 prime_field_ops \<Rightarrow> ('s, 'v) protocols \<Rightarrow> u128 prss \<Rightarrow> gate \<Rightarrow> record_id \<Rightarrow> 's BitDecomposed res" where
  "one_random_bit F P raw g rid =
     bind_res (run3 (raw_generate F raw g rid)) (\<lambda>v.
     case convert_some_bits (raw_triples F) F P g [v] rid [0..<prime_bits F] of
       [] \<Rightarrow> Inl Panic
     | b # _ \<Rightarrow> bind_res b (\<lambda>(b, _). Inr b))"

subsection \<open>Solved bits\<close>

definition is_less_than_p ::
  "'v::comm_ring_1 prime_field_ops \<Rightarrow> ('s, 'v) protocols \<Rightarrow> gate \<Rightarrow> record_id \<Rightarrow> 's list \<Rightarrow> bool res" where
  "is_less_than_p F P g rid bits =
     bind_res (less_than_prime F P (narrow g ''is_p_less_than_b'') rid bits) (\<lambda>c_b.
     bind_res (p_reveal P c_b) (\<lambda>v. if v = 0 then Inr False else Inr True))"

definition solved_bits ::
  "'v::comm_ring_1 prime_field_ops \<Rightarrow> ('s, 'v) protocols \<Rightarrow> u128 prss \<Rightarrow> gate \<Rightarrow> record_id \<Rightarrow> 's RandomBitsShare option res" where
  "solved_bits F P raw g rid =
     bind_res (one_random_bit F P raw (narrow g ''random_bits'') rid) (\<lambda>bits.
     bind_res (is_less_than_p F P g rid bits) (\<lambda>lt.
     if \<not> lt then Inr None
     else Inr (Some \<lparr>b_b = bits, b_p = to_additive_sharing_in_large_field F P bits\<rparr>)))"

subsection \<open>The generator\<close>

record RandomBitsGenerator =
  rbg_ctx :: gate
  rbg_fallback_ctx :: gate
  rbg_fallback_count :: u32

definition rbg_new :: "gate \<Rightarrow> RandomBitsGenerator" where
  "rbg_new g = \<lparr>rbg_ctx = g, rbg_fallback_ctx = narrow g ''fallback'', rbg_fallback_count = 0\<rparr>"

partial_function (option) fallback_loop ::
  "'v::comm_ring_1 prime_field_ops \<Rightarrow> ('s, 'v) protocols \<Rightarrow> u128 prss \<Rightarrow> gate \<Rightarrow> u32 \<Rightarrow> ('s RandomBitsShare res \<times> u32) option" where
  "fallback_loop F P raw g i =
     (case solved_bits F P raw g (unat i) of
        Inl e \<Rightarrow> Some (Inl e, i + 1)
      | Inr v \<Rightarrow> (case v of Some v \<Rightarrow> Some (Inr v, i + 1) | None \<Rightarrow> fallback_loop F P raw g (i + 1)))"

definition rbg_generate ::
  "'v::comm_ring_1 prime_field_ops \<Rightarrow> ('s, 'v) protocols \<Rightarrow> u128 prss \<Rightarrow> RandomBitsGenerator \<Rightarrow> record_id
     \<Rightarrow> ('s RandomBitsShare res \<times> RandomBitsGenerator) option" where
  "rbg_generate F P raw st rid =
     (case solved_bits F P raw (rbg_ctx st) rid of
        Inl e \<Rightarrow> Some (Inl e, st)
      | Inr (Some v) \<Rightarrow> Some (Inr v, st)
      | Inr None \<Rightarrow>
          map_option (\<lambda>(v, i). (v, st\<lparr>rbg_fallback_count := i\<rparr>))
            (fallback_loop F P raw (rbg_fallback_ctx st) (rbg_fallback_count st)))"

subsection \<open>Correctness\<close>

text \<open>The number that the helpers draw together.\<close>

definition drawn :: "'v prime_field_ops \<Rightarrow> u128 prss \<Rightarrow> gate \<Rightarrow> record_id \<Rightarrow> nat" where
  "drawn F raw g rid = unat (raw g rid H1 XOR raw g rid H2 XOR raw g rid H3) mod 2 ^ prime_bits F"

text \<open>The primes that the comparison circuit supports.\<close>

definition supported_prime :: "'v::comm_ring_1 prime_field_ops \<Rightarrow> bool" where
  "supported_prime F \<longleftrightarrow> prime_field F \<and> 3 < prime_bits F \<and> (PRIME F = 2 ^ prime_bits F - 1 \<or> PRIME F = 2 ^ prime_bits F - 5)"

lemma fp_supported: "supported_prime fp31_field" "supported_prime fp32bit_field"
  using fp_prime_shapes fp31.prime_field_axioms fp32bit.prime_field_axioms
  by (simp_all add: supported_prime_def fp_prime_bits)

lemma supported_primeD:
  assumes "supported_prime F"
  shows "prime_field F" "prime_bits F \<le> 64" "3 < prime_bits F" "PRIME F < 2 ^ 64"
    "PRIME F = 2 ^ prime_bits F - 1 \<or> PRIME F = 2 ^ prime_bits F - 5"
  using assms prime_field.PRIME_less [of F] prime_bits_bounds(2) [of F] by (auto simp: supported_prime_def)

lemma drop_bit_and_one: "drop_bit i w AND 1 = 1 \<longleftrightarrow> bit (w :: 'w::len word) i"
  by (simp add: bit_iff_odd_drop_bit and_one_eq odd_iff_mod_2_eq_one)

lemma raw_shares_bits:
  assumes "prime_bits F \<le> 64"
  obtains v where "run3 (raw_generate F raw g rid) = Inr v"
    "shares_bits (raw_triples F) [0..<prime_bits F] (\<lambda>i. odd (unat (raw g rid H1 XOR raw g rid H2 XOR raw g rid H3) div 2 ^ i)) v"
proof
  define v where "v = (\<lambda>r. \<lparr>raw_count = prime_bits F, raw_left = ucast (raw g rid r), raw_right = ucast (raw g rid (peer r Right))\<rparr> :: RawRandomBits)"
  show "run3 (raw_generate F raw g rid) = Inr v"
    using assms by (intro run3_Inr) (simp add: raw_generate_def generate_fields_def v_def)
  have odd: "odd (unat w div 2 ^ i) = bit w i" for w :: u128 and i
    by (simp add: bit_unsigned_iff flip: bit_iff_odd)
  show "shares_bits (raw_triples F) [0..<prime_bits F] (\<lambda>i. odd (unat (raw g rid H1 XOR raw g rid H2 XOR raw g rid H3) div 2 ^ i)) v"
    unfolding shares_bits_def
  proof
    fix i assume "i \<in> set [0..<prime_bits F]"
    then have "bit_pair (raw_triples F) (v r) i = Inr (bit (raw g rid r) i, bit (raw g rid (peer r Right)) i)" for r
      using assms by (simp add: raw_triples_def v_def drop_bit_and_one bit_ucast_iff)
    then show "\<exists>l. (\<forall>r. bit_pair (raw_triples F) (v r) i = Inr (l r, l (peer r Right)))
        \<and> odd (unat (raw g rid H1 XOR raw g rid H2 XOR raw g rid H3) div 2 ^ i) = ((l H1 \<noteq> l H2) \<noteq> l H3)"
      by (intro exI [of _ "\<lambda>r. bit (raw g rid r) i"]) (auto simp: odd bit_xor_iff)
  qed
qed

context mpc
begin

lemma one_random_bit_ok:
  assumes "prime_field F" and "prime_bits F \<le> 64"
  shows "\<exists>row. one_random_bit F P raw g rid = Inr row \<and> list_all2 is_bit (bits_of (prime_bits F) (drawn F raw g rid)) row"
proof -
  let ?x = "unat (raw g rid H1 XOR raw g rid H2 XOR raw g rid H3)"
  obtain v where v: "run3 (raw_generate F raw g rid) = Inr v"
      "shares_bits (raw_triples F) [0..<prime_bits F] (\<lambda>i. odd (?x div 2 ^ i)) v"
    by (rule raw_shares_bits [OF assms(2)])
  have "bits_of (prime_bits F) (?x mod 2 ^ prime_bits F) = bits_of (prime_bits F) ?x"
    using bits_nat_inject [of "bits_of (prime_bits F) (?x mod 2 ^ prime_bits F)" "bits_of (prime_bits F) ?x"]
    by (simp add: bits_nat_bits_of)
  then have b: "map (\<lambda>i. odd (?x div 2 ^ i)) [0..<prime_bits F] = bits_of (prime_bits F) (drawn F raw g rid)"
    by (simp add: drawn_def bits_of_def)
  from convert_record_ok [OF assms(1) _ v(2), of g rid] assms(2) v(1) b show ?thesis
    by (auto simp: one_random_bit_def)
qed

lemma solved_bits_ok:
  assumes "supported_prime F"
  shows "if drawn F raw (narrow g ''random_bits'') rid < PRIME F
    then \<exists>v. solved_bits F P raw g rid = Inr (Some v) \<and> solved F (bits_of (prime_bits F) (drawn F raw (narrow g ''random_bits'') rid)) v
    else solved_bits F P raw g rid = Inr None"
proof -
  note F = supported_primeD [OF assms]
  define d where "d = drawn F raw (narrow g ''random_bits'') rid"
  have d: "bits_nat (bits_of (prime_bits F) d) = d" by (simp add: bits_nat_bits_of d_def drawn_def)
  obtain row where row: "one_random_bit F P raw (narrow g ''random_bits'') rid = Inr row" "list_all2 is_bit (bits_of (prime_bits F) d) row"
    using one_random_bit_ok [OF F(1,2)] unfolding d_def by blast
  then have len: "length row = prime_bits F" using list_all2_lengthD by fastforce
  obtain c where c: "less_than_prime F P (narrow g ''is_p_less_than_b'') rid row = Inr c" "is_bit (d < PRIME F) c"
    using less_than_prime_ok [OF row(2) _ F(3-5)] len d by auto
  have lt: "is_less_than_p F P g rid row = Inr (d < PRIME F)"
    using c by (auto simp: is_less_than_p_def is_bit_def)
  have trunc: "truncate_from F (2 ^ i) = of_nat (2 ^ i)" if "i < length row" for i
    using that F(2) len power_strict_increasing [of i 128 "2 :: nat"] by (simp add: prime_field.truncate_from_eq [OF F(1)])
  have "solved F (bits_of (prime_bits F) d) \<lparr>b_b = row, b_p = to_additive_sharing_in_large_field F P row\<rparr>" if "d < PRIME F"
    using to_additive_sharing_ok [OF row(2) trunc] row(2) d that by (simp add: solved_def)
  with row(1) lt show ?thesis by (simp add: solved_bits_def d_def)
qed

lemma fallback_loop_ok:
  assumes "supported_prime F"
    and "\<And>j. j < k \<Longrightarrow> \<not> drawn F raw (narrow g ''random_bits'') (unat (i + of_nat j)) < PRIME F"
    and "drawn F raw (narrow g ''random_bits'') (unat (i + of_nat k)) < PRIME F"
  shows "\<exists>v. fallback_loop F P raw g i = Some (Inr v, i + of_nat k + 1)
    \<and> solved F (bits_of (prime_bits F) (drawn F raw (narrow g ''random_bits'') (unat (i + of_nat k)))) v"
  using assms(2,3)
proof (induction k arbitrary: i)
  case 0
  with solved_bits_ok [OF assms(1), of raw g "unat i"] show ?case by (auto simp: fallback_loop.simps [of F P raw g i])
next
  case (Suc k)
  have "solved_bits F P raw g (unat i) = Inr None"
    using solved_bits_ok [OF assms(1), of raw g "unat i"] Suc.prems(1) [of 0] by simp
  then have "fallback_loop F P raw g i = fallback_loop F P raw g (i + 1)" by (simp add: fallback_loop.simps [of F P raw g i])
  moreover have "\<not> drawn F raw (narrow g ''random_bits'') (unat (i + 1 + of_nat j)) < PRIME F" if "j < k" for j
    using Suc.prems(1) [of "Suc j"] that by (simp add: add.assoc)
  ultimately show ?case using Suc.IH [of "i + 1"] Suc.prems(2) by (simp add: ac_simps)
qed

end

subsection \<open>Properties\<close>

text \<open>C29: One attempt at a random number succeeds exactly when the number drawn from the randomness
  that the three helpers share is below the prime, and then gives its bits and the number itself,
  both shared; otherwise it reports that there is none. It never fails, and leaks only that outcome.\<close>

theorem solved_bits_correct:
  assumes "supported_prime F" and "d = drawn F raw (narrow g ''random_bits'') rid"
  shows "if d < PRIME F
    then \<exists>v. solved_bits F (sh_protocols rnd) raw g rid = Inr (Some v) \<and> list_all2 sh_bit (bits_of (prime_bits F) d) (b_b v)
      \<and> consistent (b_p v) \<and> reconstruct (b_p v) = of_nat d
    else solved_bits F (sh_protocols rnd) raw g rid = Inr None"
proof -
  have "bits_nat (bits_of (prime_bits F) d) = d" by (simp add: bits_nat_bits_of assms(2) drawn_def)
  with sh.solved_bits_ok [OF assms(1), of raw g rid rnd] show ?thesis
    by (auto simp: sh.solved_def assms(2))
qed

theorem solved_bits_correct_witness:
  "(\<exists>v. solved_bits fp31_field (sh_protocols (\<lambda>g i r. 3)) (\<lambda>g i r. 7) default_gate 0 = Inr (Some v)
      \<and> list_all2 sh_bit (bits_of 5 7) (b_b v) \<and> reconstruct (b_p v) = 7)
   \<and> solved_bits fp31_field (sh_protocols (\<lambda>g i r. 3)) (\<lambda>g i r. 31) default_gate 0 = Inr None"
proof -
  have "drawn fp31_field (\<lambda>g i r. 7) g i = 7" "drawn fp31_field (\<lambda>g i r. 31) g i = 31" for g i
    by (simp_all add: drawn_def fp_prime_bits)
  moreover have "PRIME fp31_field = 31" by (simp add: fp31_field_def fp31_prime_def)
  ultimately show ?thesis
    using solved_bits_correct [OF fp_supported(1) refl, of "\<lambda>g i r. 7" default_gate 0 "\<lambda>g i r. 3"]
    solved_bits_correct [OF fp_supported(1) refl, of "\<lambda>g i r. 31" default_gate 0 "\<lambda>g i r. 3"]
    by (auto simp: fp_prime_bits)
qed

text \<open>C30: The generator returns as soon as one of the attempts in its fallback context draws a number
  below the prime, with that number, and its counter has then moved past exactly the attempts
  that were made; the malicious protocol included.\<close>

theorem rbg_generate_returns:
  assumes "supported_prime F" and "ctx = upgraded_ctx prime_to_extended rnd rnd_e g0"
    and "\<not> drawn F raw (narrow (rbg_ctx st) ''random_bits'') rid < PRIME F"
    and "drawn F raw (narrow (rbg_fallback_ctx st) ''random_bits'') (unat (rbg_fallback_count st + of_nat k)) < PRIME F"
    and "\<forall>j<k. \<not> drawn F raw (narrow (rbg_fallback_ctx st) ''random_bits'') (unat (rbg_fallback_count st + of_nat j)) < PRIME F"
  shows "\<exists>v. rbg_generate F (mal_protocols ctx) raw st rid = Some (Inr v, st\<lparr>rbg_fallback_count := rbg_fallback_count st + of_nat k + 1\<rparr>)
    \<and> list_all2 (mal_bit ctx)
        (bits_of (prime_bits F) (drawn F raw (narrow (rbg_fallback_ctx st) ''random_bits'') (unat (rbg_fallback_count st + of_nat k)))) (b_b v)
    \<and> mac_valid ctx (b_p v)
    \<and> mal_value (b_p v) = of_nat (drawn F raw (narrow (rbg_fallback_ctx st) ''random_bits'') (unat (rbg_fallback_count st + of_nat k)))"
proof -
  let ?d = "drawn F raw (narrow (rbg_fallback_ctx st) ''random_bits'') (unat (rbg_fallback_count st + of_nat k))"
  have d: "bits_nat (bits_of (prime_bits F) ?d) = ?d" by (simp add: bits_nat_bits_of drawn_def)
  have "solved_bits F (mal_protocols ctx) raw (rbg_ctx st) rid = Inr None"
    using mal_prime.solved_bits_ok [OF assms(1), of raw "rbg_ctx st" rid rnd rnd_e g0] assms(2,3) by simp
  with mal_prime.fallback_loop_ok [OF assms(1), of k raw "rbg_fallback_ctx st" "rbg_fallback_count st" rnd rnd_e g0] assms(4,5) d
  show ?thesis unfolding assms(2) by (auto simp: rbg_generate_def mal_prime.solved_def)
qed

definition example_raw :: "u128 prss" where
  "example_raw g i r = (if i < 2 then 31 else 7)"

theorem rbg_generate_returns_witness:
  "\<exists>v. rbg_generate fp31_field (mal_protocols (upgraded_ctx prime_to_extended (\<lambda>g i r. 3) (\<lambda>g i r. 5) default_gate)) example_raw
       (rbg_new default_gate) 0 = Some (Inr v, (rbg_new default_gate)\<lparr>rbg_fallback_count := 3\<rparr>)
     \<and> list_all2 (mal_bit (upgraded_ctx prime_to_extended (\<lambda>g i r. 3) (\<lambda>g i r. 5) default_gate)) (bits_of 5 7) (b_b v)"
proof -
  have d: "drawn fp31_field example_raw g i = (if i < 2 then 31 else 7)" for g i
    by (simp add: drawn_def example_raw_def fp_prime_bits)
  have p: "PRIME fp31_field = 31" by (simp add: fp31_field_def fp31_prime_def)
  have "\<forall>j < 2 :: nat. unat (of_nat j :: u32) < 2" by (auto simp: unsigned_of_nat numeral_2_eq_2 less_Suc_eq)
  with rbg_generate_returns [OF fp_supported(1) refl, of example_raw "rbg_new default_gate" 0 2 "\<lambda>g i r. 3" "\<lambda>g i r. 5" default_gate]
  show ?thesis by (auto simp: d p rbg_new_def fp_prime_bits)
qed

end
