(* ===== verification/Shuffle.thy ===== *)
theory Shuffle
  imports Permutations Random_Bits
begin

text \<open>
  The oblivious shuffle of \<open>src/protocol/sort/shuffle.rs\<close> and \<open>sort/apply_sort/\<close>, and what the sort
  builds from it: the composition of shared permutations (\<open>compose.rs\<close>), their application to shared
  vectors (\<open>secureapplyinv.rs\<close>, \<open>apply_sort/mod.rs\<close>), and shuffling and revealing a permutation
  (\<open>generate_permutation.rs\<close>). The trait \<open>Reshare\<close> (\<open>src/protocol/basics/reshare.rs\<close>) is a record
  \<open>resharable\<close> of operations with the contract \<open>reshares\<close>. A helper holds two of three
  random permutations, one for each neighbour. \<open>None\<close> is a permutation loop that does not end.
\<close>

subsection \<open>Resharing of shares, bit vectors and lists\<close>

record 'x resharable =
  rs_reshare :: "gate \<Rightarrow> record_id \<Rightarrow> role \<Rightarrow> 'x \<Rightarrow> 'x res"
  rs_mix :: "role \<Rightarrow> 'x \<Rightarrow> 'x \<Rightarrow> 'x"

definition share_rs :: "('s, 'v) protocols \<Rightarrow> 's resharable" where
  "share_rs P = \<lparr>rs_reshare = (\<lambda>g rid to s. Inr (p_reshare P g rid to s)), rs_mix = p_mix P\<rparr>"

definition elem_step :: "nat \<Rightarrow> string" where
  "elem_step i = ''elem'' @ show_nat i"

definition bits_rs :: "'x resharable \<Rightarrow> 'x BitDecomposed resharable" where
  "bits_rs R =
     \<lparr>rs_reshare = (\<lambda>g rid to xs. bind_res (sequence_res (map (\<lambda>(i, x). rs_reshare R (narrow g (elem_step i)) rid to x)
        (enumerate 0 xs))) bd_try_from),
      rs_mix = (\<lambda>to. map2 (rs_mix R to))\<rparr>"

definition reshare_vec :: "'x resharable \<Rightarrow> gate \<Rightarrow> role \<Rightarrow> 'x list \<Rightarrow> 'x list res" where
  "reshare_vec R g to xs = sequence_res (map (\<lambda>(i, x). rs_reshare R g i to x) (enumerate 0 xs))"

subsection \<open>Random permutations\<close>

text \<open>\<open>shuf g r\<close> is \<open>SliceRandom::shuffle\<close> with the generator that the helper \<open>r\<close> shares with its left
  neighbour at gate \<open>g\<close>; the generator on its right is the left one of its right neighbour.\<close>

type_synonym shuffler = "gate \<Rightarrow> role \<Rightarrow> nat list \<Rightarrow> nat list"

type_synonym permutation_pair = "nat list \<times> nat list"

definition get_two_of_three_random_permutations :: "nat \<Rightarrow> shuffler \<Rightarrow> gate \<Rightarrow> permutation_pair world" where
  "get_two_of_three_random_permutations batch_size shuf g r =
     (let left_permutation = [0..<batch_size]; right_permutation = left_permutation
      in (shuf g r left_permutation, shuf g (peer r Right) right_permutation))"

subsection \<open>Shuffling\<close>

datatype ShuffleStep = Shuffle1 | Shuffle2 | Shuffle3

fun shuffle_step_name :: "ShuffleStep \<Rightarrow> string" where
  "shuffle_step_name Shuffle1 = ''shuffle1''"
| "shuffle_step_name Shuffle2 = ''shuffle2''"
| "shuffle_step_name Shuffle3 = ''shuffle3''"

fun shuffle_for_helper :: "ShuffleStep \<Rightarrow> role" where
  "shuffle_for_helper Shuffle1 = H1"
| "shuffle_for_helper Shuffle2 = H2"
| "shuffle_for_helper Shuffle3 = H3"

datatype ShuffleOrUnshuffle = DoShuffle | DoUnshuffle

fun apply_dir :: "ShuffleOrUnshuffle \<Rightarrow> nat list \<Rightarrow> 'x list \<Rightarrow> 'x list res option" where
  "apply_dir DoShuffle perm xs = apply_inv perm xs"
| "apply_dir DoUnshuffle perm xs = apply_perm perm xs"

definition bind_ro :: "'a res option \<Rightarrow> ('a \<Rightarrow> 'b res option) \<Rightarrow> 'b res option" where
  "bind_ro m f = (case m of None \<Rightarrow> None | Some (Inl e) \<Rightarrow> Some (Inl e) | Some (Inr x) \<Rightarrow> f x)"

lemma bind_ro_simps [simp]:
  "bind_ro None f = None" "bind_ro (Some (Inl e)) f = Some (Inl e)" "bind_ro (Some (Inr x)) f = f x"
  by (simp_all add: bind_ro_def)

text \<open>One round: the neighbours of \<open>to_helper\<close> permute their vectors, each with the permutation that
  it shares with the other one; \<open>to_helper\<close> leaves its own as it is.\<close>

definition shuffle_once ::
  "'x resharable \<Rightarrow> permutation_pair world \<Rightarrow> ShuffleOrUnshuffle \<Rightarrow> gate \<Rightarrow> ShuffleStep \<Rightarrow> 'x list \<Rightarrow> 'x list res option" where
  "shuffle_once R perms dir g which_step input =
     (let to_helper = shuffle_for_helper which_step; lt = peer to_helper Left; rt = peer to_helper Right;
          g' = narrow g (shuffle_step_name which_step)
      in bind_ro (apply_dir dir (fst (perms lt)) input) (\<lambda>at_left.
         bind_ro (apply_dir dir (snd (perms rt)) input) (\<lambda>at_right.
         Some (reshare_vec R g' to_helper
           (map2 (rs_mix R to_helper) input (map2 (rs_mix R lt) at_left at_right))))))"

definition shuffle_shares :: "'x resharable \<Rightarrow> permutation_pair world \<Rightarrow> gate \<Rightarrow> 'x list \<Rightarrow> 'x list res option" where
  "shuffle_shares R perms g input =
     bind_ro (shuffle_once R perms DoShuffle g Shuffle1 input) (\<lambda>input.
     bind_ro (shuffle_once R perms DoShuffle g Shuffle2 input) (\<lambda>input.
     shuffle_once R perms DoShuffle g Shuffle3 input))"

definition unshuffle_shares :: "'x resharable \<Rightarrow> permutation_pair world \<Rightarrow> gate \<Rightarrow> 'x list \<Rightarrow> 'x list res option" where
  "unshuffle_shares R perms g input =
     bind_ro (shuffle_once R perms DoUnshuffle g Shuffle3 input) (\<lambda>input.
     bind_ro (shuffle_once R perms DoUnshuffle g Shuffle2 input) (\<lambda>input.
     shuffle_once R perms DoUnshuffle g Shuffle1 input))"

subsection \<open>Permutations in shared form\<close>

definition compose :: "'x resharable \<Rightarrow> permutation_pair world \<Rightarrow> nat list \<Rightarrow> gate \<Rightarrow> 'x list \<Rightarrow> 'x list res option" where
  "compose R perms shuffled_sigma g rho =
     bind_ro (apply_perm shuffled_sigma rho) (\<lambda>rho. unshuffle_shares R perms (narrow g ''unshuffle_rho'') rho)"

definition secureapplyinv_multi ::
  "'x resharable \<Rightarrow> permutation_pair world \<Rightarrow> nat list \<Rightarrow> gate \<Rightarrow> 'x list \<Rightarrow> 'x list res option" where
  "secureapplyinv_multi R perms shuffled_sort_permutation g input =
     bind_ro (shuffle_shares R perms (narrow g ''shuffle_inputs'') input) (\<lambda>shuffled_input.
     apply_inv shuffled_sort_permutation shuffled_input)"

record RevealedAndRandomPermutations =
  revealed :: "nat list"
  randoms_for_shuffle :: "permutation_pair world"

definition apply_sort_permutation ::
  "'x resharable \<Rightarrow> RevealedAndRandomPermutations \<Rightarrow> gate \<Rightarrow> 'x list \<Rightarrow> 'x list res option" where
  "apply_sort_permutation R sort_permutation g input =
     bind_ro (shuffle_shares R (randoms_for_shuffle sort_permutation) (narrow g ''shuffle_inputs'') input) (\<lambda>shuffled_objects.
     apply_inv (revealed sort_permutation) shuffled_objects)"

text \<open>Revealing a shuffled permutation; an entry that does not fit into \<open>u32\<close> panics. The validator reveals
  when it downgrades, and unwraps the result.\<close>

definition reveal_permutation :: "'v prime_field_ops \<Rightarrow> ('s, 'v) protocols \<Rightarrow> 's list \<Rightarrow> nat list res" where
  "reveal_permutation F P perm =
     sequence_res (map (\<lambda>s. bind_res (p_reveal P s) (\<lambda>v.
       if as_u128 F v < 2 ^ 32 then Inr (as_u128 F v) else Inl Panic)) perm)"

definition shuffle_and_reveal_permutation ::
  "'v prime_field_ops \<Rightarrow> ('s, 'v) protocols \<Rightarrow> shuffler \<Rightarrow> gate \<Rightarrow> 's list \<Rightarrow> RevealedAndRandomPermutations res option" where
  "shuffle_and_reveal_permutation F P shuf g input_permutation =
     (if \<not> length input_permutation < 2 ^ 32 then Some (Inl Panic)
      else
        let perms = get_two_of_three_random_permutations (length input_permutation) shuf (narrow g ''generate'')
        in bind_ro (shuffle_shares (share_rs P) perms (narrow g ''shuffle'') input_permutation) (\<lambda>shuffled_permutation.
           Some (case reveal_permutation F P shuffled_permutation of
               Inl _ \<Rightarrow> Inl Panic
             | Inr revealed_permutation \<Rightarrow> Inr \<lparr>revealed = revealed_permutation, randoms_for_shuffle = perms\<rparr>)))"

subsection \<open>Correctness of a round\<close>

definition perms_agree :: "nat \<Rightarrow> (role \<Rightarrow> nat list) \<Rightarrow> permutation_pair world \<Rightarrow> bool" where
  "perms_agree n \<pi> perms \<longleftrightarrow> (\<forall>r. is_perm n (\<pi> r) \<and> perms r = (\<pi> r, \<pi> (peer r Right)))"

text \<open>The permutation that the three rounds make up.\<close>

definition shuffled :: "(role \<Rightarrow> nat list) \<Rightarrow> 'a list \<Rightarrow> 'a list" where
  "shuffled \<pi> xs = unpermute (\<pi> H2) (unpermute (\<pi> H1) (unpermute (\<pi> H3) xs))"

definition unshuffled :: "(role \<Rightarrow> nat list) \<Rightarrow> 'a list \<Rightarrow> 'a list" where
  "unshuffled \<pi> xs = permute (\<pi> H3) (permute (\<pi> H1) (permute (\<pi> H2) xs))"

lemma unpermute_is_perm:
  assumes "is_perm n p" and "is_perm n s"
  shows "is_perm n (unpermute p s)"
proof (rule is_permI)
  fix y assume "y < n"
  then obtain x where "x < n" "y = p ! x" using is_perm_surj [OF assms(1)] by metis
  then show "unpermute p s ! y < n" using is_permD(2) [OF assms(2)] by (simp add: nth_unpermute [OF assms(1)])
next
  fix y z assume "y < n" "z < n" and eq: "unpermute p s ! y = unpermute p s ! z"
  then obtain u v where "u < n" "y = p ! u" "v < n" "z = p ! v" using is_perm_surj [OF assms(1)] by metis
  with eq show "y = z" using is_perm_eq_iff [OF assms(2)] by (simp add: nth_unpermute [OF assms(1)])
qed (simp add: is_permD(1) [OF assms(1)])

lemma unpermute_unpermute:
  assumes "is_perm n p" and "is_perm n s"
  shows "unpermute (unpermute p s) (unpermute p xs) = unpermute s xs"
proof (rule sym, rule unpermuteI [OF unpermute_is_perm [OF assms]])
  show "length (unpermute s xs) = n" using is_permD(1) [OF assms(2)] by simp
  fix y assume "y < n"
  then obtain x where "x < n" "y = p ! x" using is_perm_surj [OF assms(1)] by metis
  then show "unpermute s xs ! (unpermute p s ! y) = unpermute p xs ! y"
    by (simp add: nth_unpermute [OF assms(1)] nth_unpermute [OF assms(2)])
qed

lemma permute_permute_unpermute:
  assumes "is_perm n p" and "is_perm n s"
  shows "permute p (permute (unpermute p s) xs) = permute s xs"
  using is_permD [OF assms(1)] is_permD(1) [OF assms(2)]
  by (intro nth_equalityI) (simp_all add: nth_permute nth_unpermute [OF assms(1)])

lemma shuffled_facts:
  assumes "\<And>r. is_perm n (\<pi> r)" and "is_perm n s"
  shows "is_perm n (shuffled \<pi> s)" and "unpermute (shuffled \<pi> s) (shuffled \<pi> xs) = unpermute s xs"
    and "unshuffled \<pi> (permute (shuffled \<pi> s) xs) = permute s xs"
proof -
  note p = unpermute_is_perm [OF assms(1)]
  note 1 = p [OF assms(2), of H3] and 2 = p [OF p [OF assms(2), of H3], of H1]
  show "is_perm n (shuffled \<pi> s)" unfolding shuffled_def by (intro p assms(2))
  show "unpermute (shuffled \<pi> s) (shuffled \<pi> xs) = unpermute s xs"
    unfolding shuffled_def unpermute_unpermute [OF assms(1) 2] unpermute_unpermute [OF assms(1) 1]
    by (rule unpermute_unpermute [OF assms])
  show "unshuffled \<pi> (permute (shuffled \<pi> s) xs) = permute s xs"
    unfolding shuffled_def unshuffled_def permute_permute_unpermute [OF assms(1) 2] permute_permute_unpermute [OF assms(1) 1]
    by (rule permute_permute_unpermute [OF assms])
qed

lemma shuffled_map:
  assumes "\<And>r. is_perm (length xs) (\<pi> r)"
  shows "shuffled \<pi> (map f xs) = map f (shuffled \<pi> xs)"
  using assms is_permD(1) [OF assms] by (simp add: shuffled_def unpermute_map)

text \<open>What a resharable object promises: \<open>good\<close> objects have a content \<open>content\<close>, and resharing keeps
  the content even when the target helper holds its part of another object.\<close>

locale reshares =
  fixes R :: "'x resharable" and good :: "'x \<Rightarrow> bool" and content :: "'x \<Rightarrow> 'a"
  assumes reshare_mixed: "good a \<Longrightarrow> good b \<Longrightarrow>
      \<exists>c. rs_reshare R g rid to (rs_mix R to a b) = Inr c \<and> good c \<and> content c = content b"
    and mix_same: "good a \<Longrightarrow> rs_mix R to a a = a"
begin

lemma reshare_vec_mixed:
  assumes "length as = length bs" and "list_all good as" and "list_all good bs"
  shows "\<exists>cs. reshare_vec R g to (map2 (rs_mix R to) as bs) = Inr cs \<and> list_all good cs
    \<and> map content cs = map content bs"
proof -
  have "\<exists>cs. sequence_res (map (\<lambda>(i, x). rs_reshare R g i to x) (enumerate k (map2 (rs_mix R to) as bs))) = Inr cs
      \<and> list_all good cs \<and> map content cs = map content bs" for k
    using assms
  proof (induction as bs arbitrary: k rule: list_induct2)
    case (Cons a as b bs)
    obtain cs where "sequence_res (map (\<lambda>(i, x). rs_reshare R g i to x) (enumerate (Suc k) (map2 (rs_mix R to) as bs))) = Inr cs"
        "list_all good cs" "map content cs = map content bs" using Cons by auto
    moreover obtain c where "rs_reshare R g k to (rs_mix R to a b) = Inr c" "good c" "content c = content b"
      using reshare_mixed Cons.prems by fastforce
    ultimately show ?case by auto
  qed simp
  then show ?thesis by (simp add: reshare_vec_def)
qed

lemma list_all_unpermute: "is_perm (length xs) p \<Longrightarrow> list_all good xs \<Longrightarrow> list_all good (unpermute p xs)"
  unfolding list_all_iff using mset_permute [OF is_perm_inv, of xs p] by (metis set_mset_mset unpermute_def)

lemma list_all_permute: "is_perm (length xs) p \<Longrightarrow> list_all good xs \<Longrightarrow> list_all good (permute p xs)"
  unfolding list_all_iff using mset_permute [of xs p] by (metis set_mset_mset)

lemma map2_mix_same: "list_all good xs \<Longrightarrow> map2 (rs_mix R to) xs xs = xs"
  by (induction xs) (simp_all add: mix_same)

lemma shuffle_once_ok:
  assumes "perms_agree (length xs) \<pi> perms" and "list_all good xs"
    and "p = \<pi> (peer (shuffle_for_helper st) Left)"
  shows "\<exists>ys. shuffle_once R perms dir g st xs = Some (Inr ys) \<and> list_all good ys
    \<and> map content ys = (case dir of DoShuffle \<Rightarrow> unpermute p (map content xs) | DoUnshuffle \<Rightarrow> permute p (map content xs))"
proof -
  let ?to = "shuffle_for_helper st"
  have p: "is_perm (length xs) p" using assms(1,3) by (simp add: perms_agree_def)
  have perms: "fst (perms (peer ?to Left)) = p" "snd (perms (peer ?to Right)) = p"
    using assms(1,3) by (cases st; simp add: perms_agree_def)+
  define zs where "zs = (case dir of DoShuffle \<Rightarrow> unpermute p xs | DoUnshuffle \<Rightarrow> permute p xs)"
  have dir: "apply_dir dir p xs = Some (Inr zs)"
    using p by (cases dir) (simp_all add: zs_def apply_inv_ok apply_perm_ok)
  have zs: "list_all good zs" "length zs = length xs"
    using p assms(2) is_permD(1) [OF p] by (auto simp: zs_def list_all_unpermute list_all_permute split: ShuffleOrUnshuffle.splits)
  obtain ys where "reshare_vec R (narrow g (shuffle_step_name st)) ?to (map2 (rs_mix R ?to) xs zs) = Inr ys"
      "list_all good ys" "map content ys = map content zs"
    using reshare_vec_mixed [OF _ assms(2) zs(1)] zs(2) by metis
  moreover have "map content zs = (case dir of DoShuffle \<Rightarrow> unpermute p (map content xs) | DoUnshuffle \<Rightarrow> permute p (map content xs))"
    using p by (simp add: zs_def unpermute_map permute_map split: ShuffleOrUnshuffle.splits)
  ultimately show ?thesis
    by (simp add: shuffle_once_def perms dir map2_mix_same [OF zs(1)] Let_def)
qed

lemma shuffle_shares_ok:
  assumes "perms_agree (length xs) \<pi> perms" and "list_all good xs"
  shows "\<exists>ys. shuffle_shares R perms g xs = Some (Inr ys) \<and> list_all good ys \<and> map content ys = shuffled \<pi> (map content xs)"
proof -
  have len: "length (\<pi> r) = length xs" for r using assms(1) is_permD(1) by (auto simp: perms_agree_def)
  obtain ys where ys: "shuffle_once R perms DoShuffle g Shuffle1 xs = Some (Inr ys)" "list_all good ys"
      "map content ys = unpermute (\<pi> H3) (map content xs)"
    using shuffle_once_ok [OF assms, where st = Shuffle1 and dir = DoShuffle] by fastforce
  then have "length ys = length xs" using len by (metis length_map length_unpermute)
  with shuffle_once_ok [of ys \<pi> perms, OF _ ys(2), where st = Shuffle2 and dir = DoShuffle] assms(1)
  obtain zs where zs: "shuffle_once R perms DoShuffle g Shuffle2 ys = Some (Inr zs)" "list_all good zs"
      "map content zs = unpermute (\<pi> H1) (map content ys)" by fastforce
  then have "length zs = length xs" using len by (metis length_map length_unpermute)
  with shuffle_once_ok [of zs \<pi> perms, OF _ zs(2), where st = Shuffle3 and dir = DoShuffle] assms(1)
  obtain us where "shuffle_once R perms DoShuffle g Shuffle3 zs = Some (Inr us)" "list_all good us"
      "map content us = unpermute (\<pi> H2) (map content zs)" by fastforce
  with ys zs show ?thesis by (simp add: shuffle_shares_def shuffled_def)
qed

lemma unshuffle_shares_ok:
  assumes "perms_agree (length xs) \<pi> perms" and "list_all good xs"
  shows "\<exists>ys. unshuffle_shares R perms g xs = Some (Inr ys) \<and> list_all good ys \<and> map content ys = unshuffled \<pi> (map content xs)"
proof -
  have len: "length (\<pi> r) = length xs" for r using assms(1) is_permD(1) by (auto simp: perms_agree_def)
  obtain ys where ys: "shuffle_once R perms DoUnshuffle g Shuffle3 xs = Some (Inr ys)" "list_all good ys"
      "map content ys = permute (\<pi> H2) (map content xs)"
    using shuffle_once_ok [OF assms, where st = Shuffle3 and dir = DoUnshuffle] by fastforce
  then have "length ys = length xs" using len by (metis length_map length_permute)
  with shuffle_once_ok [of ys \<pi> perms, OF _ ys(2), where st = Shuffle2 and dir = DoUnshuffle] assms(1)
  obtain zs where zs: "shuffle_once R perms DoUnshuffle g Shuffle2 ys = Some (Inr zs)" "list_all good zs"
      "map content zs = permute (\<pi> H1) (map content ys)" by fastforce
  then have "length zs = length xs" using len by (metis length_map length_permute)
  with shuffle_once_ok [of zs \<pi> perms, OF _ zs(2), where st = Shuffle1 and dir = DoUnshuffle] assms(1)
  obtain us where "shuffle_once R perms DoUnshuffle g Shuffle1 zs = Some (Inr us)" "list_all good us"
      "map content us = permute (\<pi> H3) (map content zs)" by fastforce
  with ys zs show ?thesis by (simp add: unshuffle_shares_def unshuffled_def)
qed

text \<open>A permutation that was shuffled and revealed, applied to a vector shuffled the same way, or composed
  with a shared permutation.\<close>

lemma secureapplyinv_multi_ok:
  assumes "perms_agree (length xs) \<pi> perms" and "list_all good xs" and "is_perm (length xs) s"
  shows "\<exists>ys. secureapplyinv_multi R perms (shuffled \<pi> s) g xs = Some (Inr ys) \<and> list_all good ys
    \<and> map content ys = unpermute s (map content xs)"
proof -
  have \<pi>: "is_perm (length xs) (\<pi> r)" for r using assms(1) by (simp add: perms_agree_def)
  note sh = shuffled_facts [OF \<pi> assms(3)]
  obtain ys where ys: "shuffle_shares R perms (narrow g ''shuffle_inputs'') xs = Some (Inr ys)" "list_all good ys"
      "map content ys = shuffled \<pi> (map content xs)"
    using shuffle_shares_ok [OF assms(1,2)] by blast
  have len: "length ys = length xs"
    using ys(3) is_permD(1) [OF \<pi>] by (metis length_map length_unpermute shuffled_def)
  then have "apply_inv (shuffled \<pi> s) ys = Some (Inr (unpermute (shuffled \<pi> s) ys))"
    using sh(1) by (simp add: apply_inv_ok)
  moreover have "map content (unpermute (shuffled \<pi> s) ys) = unpermute s (map content xs)"
    using sh(1,2) len by (simp add: ys(3) flip: unpermute_map)
  moreover have "list_all good (unpermute (shuffled \<pi> s) ys)"
    using sh(1) len ys(2) by (simp add: list_all_unpermute)
  ultimately show ?thesis using ys(1) by (simp add: secureapplyinv_multi_def)
qed

lemma apply_sort_permutation_ok:
  assumes "perms_agree (length xs) \<pi> perms" and "list_all good xs" and "is_perm (length xs) s"
  shows "\<exists>ys. apply_sort_permutation R \<lparr>revealed = shuffled \<pi> s, randoms_for_shuffle = perms\<rparr> g xs = Some (Inr ys)
    \<and> list_all good ys \<and> map content ys = unpermute s (map content xs)"
  using secureapplyinv_multi_ok [OF assms, of g]
  by (simp add: apply_sort_permutation_def secureapplyinv_multi_def)

lemma compose_ok:
  assumes "perms_agree (length rho) \<pi> perms" and "list_all good rho" and "is_perm (length rho) s"
  shows "\<exists>ys. compose R perms (shuffled \<pi> s) g rho = Some (Inr ys) \<and> list_all good ys
    \<and> map content ys = permute s (map content rho)"
proof -
  have \<pi>: "is_perm (length rho) (\<pi> r)" for r using assms(1) by (simp add: perms_agree_def)
  note sh = shuffled_facts [OF \<pi> assms(3)]
  let ?xs = "permute (shuffled \<pi> s) rho"
  have len: "length ?xs = length rho" using is_permD(1) [OF sh(1)] by simp
  obtain ys where ys: "unshuffle_shares R perms (narrow g ''unshuffle_rho'') ?xs = Some (Inr ys)" "list_all good ys"
      "map content ys = unshuffled \<pi> (map content ?xs)"
    using unshuffle_shares_ok [of ?xs \<pi> perms] assms(1) len list_all_permute [OF sh(1) assms(2)] by fastforce
  have "map content ?xs = permute (shuffled \<pi> s) (map content rho)" using sh(1) by (simp add: permute_map)
  then show ?thesis using ys sh(1,3) by (simp add: compose_def apply_perm_ok)
qed

lemma bits_reshares: "reshares (bits_rs R) (\<lambda>xs. list_all good xs \<and> length xs = m \<and> m \<le> 64) (map content)"
proof
  fix as bs g rid to
  assume as: "list_all good as \<and> length as = m \<and> m \<le> 64" and bs: "list_all good bs \<and> length bs = m \<and> m \<le> 64"
  then have "length as = length bs" by simp
  then have "\<exists>cs. sequence_res (map (\<lambda>(i, x). rs_reshare R (narrow g (elem_step i)) rid to x) (enumerate k (map2 (rs_mix R to) as bs))) = Inr cs
      \<and> list_all good cs \<and> map content cs = map content bs" for k
    using as [THEN conjunct1] bs [THEN conjunct1]
  proof (induction as bs arbitrary: k rule: list_induct2)
    case (Cons a as b bs)
    then obtain cs where "sequence_res (map (\<lambda>(i, x). rs_reshare R (narrow g (elem_step i)) rid to x)
          (enumerate (Suc k) (map2 (rs_mix R to) as bs))) = Inr cs"
        "list_all good cs" "map content cs = map content bs" by auto
    moreover obtain c where "rs_reshare R (narrow g (elem_step k)) rid to (rs_mix R to a b) = Inr c" "good c" "content c = content b"
      using reshare_mixed Cons.prems by fastforce
    ultimately show ?case by auto
  qed simp
  from this [of 0] obtain cs where cs: "sequence_res (map (\<lambda>(i, x). rs_reshare R (narrow g (elem_step i)) rid to x)
        (enumerate 0 (map2 (rs_mix R to) as bs))) = Inr cs" "list_all good cs" "map content cs = map content bs" by blast
  then have "length cs = m" using bs by (metis length_map)
  with cs bs show "\<exists>c. rs_reshare (bits_rs R) g rid to (rs_mix (bits_rs R) to as bs) = Inr c
      \<and> (list_all good c \<and> length c = m \<and> m \<le> 64) \<and> map content c = map content bs"
    by (simp add: bits_rs_def bd_try_from_def BitDecomposed_MAX_def)
qed (simp add: bits_rs_def map2_mix_same)

end

sublocale mpc \<subseteq> share: reshares "share_rs P" ok val
  by unfold_locales (simp_all add: share_rs_def reshare_mix mix_same)

sublocale mpc \<subseteq> bitvec: reshares "bits_rs (share_rs P)" "\<lambda>xs. list_all ok xs \<and> length xs = m \<and> m \<le> 64" "map val" for m
  by (rule share.bits_reshares)

subsection \<open>Shuffle and reveal\<close>

text \<open>The documented behaviour of \<open>SliceRandom::shuffle\<close>.\<close>

definition shuffles :: "shuffler \<Rightarrow> bool" where
  "shuffles shuf \<longleftrightarrow> (\<forall>g r xs. mset (shuf g r xs) = mset xs)"

lemma random_permutations_agree:
  assumes "shuffles shuf"
  shows "perms_agree n (\<lambda>r. shuf g r [0..<n]) (get_two_of_three_random_permutations n shuf g)"
proof -
  have "is_perm n (shuf g r [0..<n])" for r
  proof -
    have eq: "mset (shuf g r [0..<n]) = mset [0..<n]" using assms by (simp add: shuffles_def)
    show ?thesis
      using mset_eq_setD [OF eq] mset_eq_imp_distinct_iff [OF eq] mset_eq_length [OF eq]
      by (simp add: is_perm_def lessThan_atLeast0)
  qed
  then show ?thesis by (simp add: perms_agree_def get_two_of_three_random_permutations_def Let_def)
qed

context mpc
begin

lemma reveal_permutation_ok:
  assumes "prime_field F" and "list_all ok ss" and "map val ss = map of_nat s" and "\<forall>x \<in> set s. x < PRIME F \<and> x < 2 ^ 32"
  shows "reveal_permutation F P ss = Inr s"
  unfolding reveal_permutation_def using assms(2-4)
proof (induction ss arbitrary: s)
  case (Cons a ss)
  then obtain x xs where s: "s = x # xs" by (cases s) auto
  with Cons have "ok a" "val a = of_nat x" "x < PRIME F" "x < 2 ^ 32" by simp_all
  with prime_field.as_u128_of_nat [OF assms(1), of x] Cons.IH [of xs] Cons.prems s show ?case by simp
qed simp

lemma shuffle_and_reveal_ok:
  assumes "prime_field F" and "shuffles shuf" and "list_all ok ss" and "map val ss = map of_nat s" and "is_perm (length ss) s"
    and "length ss < 2 ^ 32" and "length ss \<le> PRIME F"
  shows "\<exists>\<pi> perms. perms_agree (length ss) \<pi> perms
    \<and> shuffle_and_reveal_permutation F P shuf g ss = Some (Inr \<lparr>revealed = shuffled \<pi> s, randoms_for_shuffle = perms\<rparr>)"
proof -
  let ?\<pi> = "\<lambda>r. shuf (narrow g ''generate'') r [0..<length ss]"
    and ?perms = "get_two_of_three_random_permutations (length ss) shuf (narrow g ''generate'')"
  have agree: "perms_agree (length ss) ?\<pi> ?perms" by (rule random_permutations_agree [OF assms(2)])
  then have \<pi>: "is_perm (length ss) (?\<pi> r)" for r by (simp add: perms_agree_def)
  obtain ys where ys: "shuffle_shares (share_rs P) ?perms (narrow g ''shuffle'') ss = Some (Inr ys)" "list_all ok ys"
      "map val ys = shuffled ?\<pi> (map val ss)"
    using share.shuffle_shares_ok [OF agree assms(3)] by blast
  have "length s = length ss" using is_permD(1) [OF assms(5)] by simp
  then have "map val ys = map of_nat (shuffled ?\<pi> s)"
    unfolding ys(3) assms(4) using shuffled_map [of s ?\<pi> of_nat] \<pi> by simp
  moreover have "x < PRIME F \<and> x < 2 ^ 32" if "x \<in> set (shuffled ?\<pi> s)" for x
    using that shuffled_facts(1) [OF \<pi> assms(5)] assms(6,7) by (auto simp: is_perm_def)
  ultimately have "reveal_permutation F P ys = Inr (shuffled ?\<pi> s)"
    using reveal_permutation_ok [OF assms(1) ys(2)] by blast
  then have "shuffle_and_reveal_permutation F P shuf g ss = Some (Inr \<lparr>revealed = shuffled ?\<pi> s, randoms_for_shuffle = ?perms\<rparr>)"
    using ys(1) assms(6) by (simp add: shuffle_and_reveal_permutation_def Let_def)
  with agree show ?thesis by blast
qed

end

subsection \<open>Properties\<close>

lemma mset_shuffled:
  assumes "\<And>r. is_perm (length xs) (\<pi> r)"
  shows "mset (shuffled \<pi> xs) = mset xs"
proof -
  have step: "mset (unpermute p ys) = mset ys" if "is_perm (length xs) p" "length ys = length xs" for p ys
    using mset_permute [of ys "inv_perm p"] is_perm_inv [OF that(1)] is_permD(1) [OF that(1)] that(2) by (simp add: unpermute_def)
  show ?thesis unfolding shuffled_def using is_permD(1) [OF assms] by (simp add: step assms)
qed

lemma unshuffled_shuffled:
  assumes "\<And>r. is_perm (length xs) (\<pi> r)"
  shows "unshuffled \<pi> (shuffled \<pi> xs) = xs"
  using is_permD(1) [OF assms] assms by (simp add: shuffled_def unshuffled_def permute_unpermute)

context reshares
begin

lemma shuffle_roundtrip_ok:
  assumes "shuffles shuf" and "list_all good xs"
  shows "\<exists>ys zs. shuffle_shares R (get_two_of_three_random_permutations (length xs) shuf g0) g xs = Some (Inr ys) \<and> list_all good ys
    \<and> mset (map content ys) = mset (map content xs)
    \<and> unshuffle_shares R (get_two_of_three_random_permutations (length xs) shuf g0) g' ys = Some (Inr zs) \<and> list_all good zs
    \<and> map content zs = map content xs"
proof -
  let ?\<pi> = "\<lambda>r. shuf g0 r [0..<length xs]" and ?perms = "get_two_of_three_random_permutations (length xs) shuf g0"
  have agree: "perms_agree (length xs) ?\<pi> ?perms" by (rule random_permutations_agree [OF assms(1)])
  then have \<pi>: "is_perm (length (map content xs)) (?\<pi> r)" for r by (simp add: perms_agree_def)
  obtain ys where ys: "shuffle_shares R ?perms g xs = Some (Inr ys)" "list_all good ys" "map content ys = shuffled ?\<pi> (map content xs)"
    using shuffle_shares_ok [OF agree assms(2)] by blast
  have mset: "mset (map content ys) = mset (map content xs)" unfolding ys(3) by (rule mset_shuffled [OF \<pi>])
  then have "length ys = length xs" by (metis length_map size_mset)
  with unshuffle_shares_ok [of ys ?\<pi> ?perms g'] agree ys(2)
  obtain zs where "unshuffle_shares R ?perms g' ys = Some (Inr zs)" "list_all good zs" "map content zs = unshuffled ?\<pi> (map content ys)"
    by auto
  moreover have "unshuffled ?\<pi> (map content ys) = map content xs" unfolding ys(3) by (rule unshuffled_shuffled [OF \<pi>])
  ultimately show ?thesis using ys(1,2) mset by metis
qed

end

text \<open>C31: Shuffling a shared vector with the pairwise known random permutations yields a sharing of a
  rearrangement of it, and unshuffling the result gives back a sharing of the vector, for
  semi-honest and malicious shares and for vectors of shared bits, for all randomness; no round fails or runs forever.\<close>

theorem shuffle_roundtrip:
  assumes "shuffles shuf" and "list_all consistent xs" and "list_all (mac_valid ctx) ms"
    and "list_all (\<lambda>bs. list_all consistent bs \<and> length bs = m \<and> m \<le> 64) bss"
    and "ctx = upgraded_ctx prime_to_extended rnd rnd_e g0"
  shows "(\<exists>ys zs. shuffle_shares (share_rs (sh_protocols rnd)) (get_two_of_three_random_permutations (length xs) shuf g1) g xs = Some (Inr ys)
      \<and> mset (map reconstruct ys) = mset (map reconstruct xs)
      \<and> unshuffle_shares (share_rs (sh_protocols rnd)) (get_two_of_three_random_permutations (length xs) shuf g1) g' ys = Some (Inr zs)
      \<and> list_all consistent zs \<and> map reconstruct zs = map reconstruct xs)
    \<and> (\<exists>ys zs. shuffle_shares (share_rs (mal_protocols ctx)) (get_two_of_three_random_permutations (length ms) shuf g1) g ms = Some (Inr ys)
      \<and> mset (map mal_value ys) = mset (map mal_value ms)
      \<and> unshuffle_shares (share_rs (mal_protocols ctx)) (get_two_of_three_random_permutations (length ms) shuf g1) g' ys = Some (Inr zs)
      \<and> list_all (mac_valid ctx) zs \<and> map mal_value zs = map mal_value ms)
    \<and> (\<exists>ys zs. shuffle_shares (bits_rs (share_rs (sh_protocols rnd))) (get_two_of_three_random_permutations (length bss) shuf g1) g bss = Some (Inr ys)
      \<and> mset (map (map reconstruct) ys) = mset (map (map reconstruct) bss)
      \<and> unshuffle_shares (bits_rs (share_rs (sh_protocols rnd))) (get_two_of_three_random_permutations (length bss) shuf g1) g' ys = Some (Inr zs)
      \<and> map (map reconstruct) zs = map (map reconstruct) bss)"
  using sh.share.shuffle_roundtrip_ok [OF assms(1,2), of rnd g1 g g']
    mal_prime.share.shuffle_roundtrip_ok [of shuf rnd rnd_e g0, OF assms(1) assms(3) [unfolded assms(5)], of g1 g g']
    sh.bitvec.shuffle_roundtrip_ok [OF assms(1,4), of rnd g1 g g']
  unfolding assms(5) by blast

definition example_shares :: "fp31 AdditiveShare world list" where
  "example_shares = map (\<lambda>v. by_role (AdditiveShare v 5) (AdditiveShare 5 1) (AdditiveShare 1 v)) [7, 2, 9]"

theorem shuffle_roundtrip_witness:
  "\<exists>ys zs. shuffle_shares (share_rs (sh_protocols (\<lambda>g i r. 3))) (get_two_of_three_random_permutations 3 (\<lambda>g r. rev) default_gate) default_gate
        example_shares = Some (Inr ys)
      \<and> mset (map reconstruct ys) = {#13, 8, 15#}
      \<and> unshuffle_shares (share_rs (sh_protocols (\<lambda>g i r. 3))) (get_two_of_three_random_permutations 3 (\<lambda>g r. rev) default_gate) default_gate
        ys = Some (Inr zs) \<and> map reconstruct zs = [13, 8, 15]"
proof -
  have ex: "list_all consistent example_shares" "map reconstruct example_shares = [13, 8, 15]" "length example_shares = 3"
    by (simp_all add: example_shares_def by_role_def consistent_def reconstruct_def)
  have "shuffles (\<lambda>g r. rev)" by (simp add: shuffles_def)
  from shuffle_roundtrip [OF this ex(1) _ _ refl, of "\<lambda>g i r. 3" "\<lambda>g i r. 3" default_gate "[]" 0 "[]" default_gate default_gate default_gate,
      THEN conjunct1]
  obtain ys zs where "shuffle_shares (share_rs (sh_protocols (\<lambda>g i r. 3))) (get_two_of_three_random_permutations 3 (\<lambda>g r. rev) default_gate) default_gate
        example_shares = Some (Inr ys)" "mset (map reconstruct ys) = mset [13, 8, 15]"
      "unshuffle_shares (share_rs (sh_protocols (\<lambda>g i r. 3))) (get_two_of_three_random_permutations 3 (\<lambda>g r. rev) default_gate) default_gate
        ys = Some (Inr zs)" "map reconstruct zs = [13, 8, 15]"
    unfolding ex(2,3) by auto
  then show ?thesis by (simp add: add_mset_commute)
qed

end
