(* ===== verification/Bit_Permutation.thy ===== *)
theory Bit_Permutation
  imports Shuffle
begin

text \<open>
  Sorting permutations in shared form: the one-hot encoding of a bitwise-shared number
  (\<open>src/protocol/sort/mod.rs\<close>), the permutation that sorts by one shared bit
  (\<open>sort/bit_permutation.rs\<close>) and the one that sorts by several
  (\<open>sort/multi_bit_permutation.rs\<close>). The reference is \<open>sort_perm\<close>: the position of every record in the
  stable sort of the keys.
\<close>

unbundle bit_operations_syntax

subsection \<open>One-hot encoding\<close>

text \<open>\<open>usize::count_ones\<close>, and \<open>!i & j\<close>.\<close>

definition count_ones :: "nat \<Rightarrow> nat" where
  "count_ones n = length (filter (bit n) [0..<64])"

definition and_not :: "nat \<Rightarrow> nat \<Rightarrow> nat" where
  "and_not j i = j XOR (i AND j)"

fun combinations_loop :: "('s, 'v) protocols \<Rightarrow> gate \<Rightarrow> record_id \<Rightarrow> 's list \<Rightarrow> nat \<Rightarrow> 's list \<Rightarrow> 's list" where
  "combinations_loop P g rid all_combinations bit_idx [] = all_combinations"
| "combinations_loop P g rid all_combinations bit_idx (b # bs) =
     (let st = 2 ^ bit_idx;
          multiplication_results = map (\<lambda>(j, combination). p_mul P (narrow g (bit_op_step (j + st))) rid combination b)
            (enumerate 0 (tl all_combinations))
      in combinations_loop P g rid (all_combinations @ b # multiplication_results) (bit_idx + 1) bs)"

definition generate_all_combinations :: "('s, 'v::comm_ring_1) protocols \<Rightarrow> gate \<Rightarrow> record_id \<Rightarrow> 's list \<Rightarrow> 's list" where
  "generate_all_combinations P g rid input = combinations_loop P g rid [p_known P 1] 0 input"

definition onehot_check :: "('s, 'v) protocols \<Rightarrow> 's list \<Rightarrow> nat \<Rightarrow> 's" where
  "onehot_check P combinations i =
     foldl (\<lambda>check (j, combination).
         if i AND j = i then
           if count_ones (and_not j i) AND 1 = 1 then p_sub P check combination else p_add P check combination
         else check)
       (combinations ! i) (drop (i + 1) (enumerate 0 combinations))"

definition bitwise_to_onehot :: "('s, 'v::comm_ring_1) protocols \<Rightarrow> gate \<Rightarrow> record_id \<Rightarrow> 's list \<Rightarrow> 's BitDecomposed res" where
  "bitwise_to_onehot P g rid number =
     bd_decompose (2 ^ length number) (onehot_check P (generate_all_combinations P g rid number))"

subsection \<open>Sorting by one bit\<close>

fun running_sums :: "('s, 'v) protocols \<Rightarrow> 's \<Rightarrow> 's list \<Rightarrow> ('s \<times> 's) list" where
  "running_sums P sm [] = []"
| "running_sums P sm (x # xs) = (let sm' = p_add P sm x in (x, sm') # running_sums P sm' xs)"

definition bit_permutation :: "('s, 'v::comm_ring_1) protocols \<Rightarrow> gate \<Rightarrow> 's list \<Rightarrow> 's list" where
  "bit_permutation P g input =
     (let share_of_one = p_known P 1;
          mult_input = running_sums P (p_zero P) (map (\<lambda>x. p_sub P share_of_one x) input @ input);
          mult_output = map (\<lambda>(i, (x, sm)). p_mul P g i x sm) (enumerate 0 mult_input);
          len = length mult_output div 2
      in map (\<lambda>i. p_add P (p_sub P (mult_output ! (i + len)) share_of_one) (mult_output ! i)) [0..<len])"

subsection \<open>Sorting by several bits\<close>

text \<open>The accumulated sums, one column per value of the bits; a row of the matrix of the code
  takes one entry of every column.\<close>

fun prefix_column :: "('s, 'v) protocols \<Rightarrow> nat \<Rightarrow> 's \<Rightarrow> 's list list \<Rightarrow> 's list \<times> 's" where
  "prefix_column P b cumulative_sum [] = ([], cumulative_sum)"
| "prefix_column P b cumulative_sum (eq # eqs) =
     (let cumulative_sum' = p_add P cumulative_sum (eq ! b)
      in case prefix_column P b cumulative_sum' eqs of (col, c) \<Rightarrow> (cumulative_sum' # col, c))"

fun prefix_columns :: "('s, 'v) protocols \<Rightarrow> 's \<Rightarrow> 's list list \<Rightarrow> nat list \<Rightarrow> 's list list" where
  "prefix_columns P cumulative_sum eqs [] = []"
| "prefix_columns P cumulative_sum eqs (b # bs) =
     (case prefix_column P b cumulative_sum eqs of (col, c) \<Rightarrow> col # prefix_columns P c eqs bs)"

definition multi_bit_permutation ::
  "'v::comm_ring_1 prime_field_ops \<Rightarrow> ('s, 'v) protocols \<Rightarrow> gate \<Rightarrow> 's BitDecomposed list \<Rightarrow> 's list res" where
  "multi_bit_permutation F P g input =
     (let num_records = length input in
      if num_records < 2 then Inr (replicate num_records (p_known P 0))
      else
        let num_multi_bits = length (input ! 0) in
        if num_multi_bits = 0 then Inl Panic
        else if num_records \<ge> PRIME F then Inl (FieldValueTruncation (PRIME F) num_records)
        else
          let num_possible_bit_values = 2 * 2 ^ (num_multi_bits - 1); share_of_one = p_known P 1 in
          bind_res (sequence_res (map (\<lambda>(idx, record). bitwise_to_onehot P g idx record) (enumerate 0 input))) (\<lambda>equality_checks.
          if \<not> list_all (\<lambda>eq. num_possible_bit_values \<le> length eq) equality_checks then Inl Panic
          else
            let cols = prefix_columns P (p_zero P) equality_checks [0..<num_possible_bit_values];
                prefix_sum = (\<lambda>i. map (\<lambda>col. col ! i) cols)
            in bind_res (sequence_res (map (\<lambda>(i, eq_checks). p_sop P g i eq_checks (prefix_sum i)) (enumerate 0 equality_checks)))
              (\<lambda>one_off_permutation. Inr (map (\<lambda>s. p_sub P s share_of_one) one_off_permutation))))"

subsection \<open>The reference\<close>

definition rank :: "nat list \<Rightarrow> nat \<Rightarrow> nat" where
  "rank ks i = length (filter (\<lambda>j. ks ! j < ks ! i \<or> ks ! j = ks ! i \<and> j < i) [0..<length ks])"

definition sort_perm :: "nat list \<Rightarrow> nat list" where
  "sort_perm ks = map (rank ks) [0..<length ks]"

lemma rank_card: "rank ks i = card {j. j < length ks \<and> (ks ! j < ks ! i \<or> ks ! j = ks ! i \<and> j < i)}"
  by (simp add: rank_def length_filter_conv_card cong: conj_cong)

lemma rank_less_iff:
  assumes "i < length ks" and "j < length ks"
  shows "rank ks i < rank ks j \<longleftrightarrow> ks ! i < ks ! j \<or> ks ! i = ks ! j \<and> i < j"
proof -
  let ?S = "\<lambda>i. {j. j < length ks \<and> (ks ! j < ks ! i \<or> ks ! j = ks ! i \<and> j < i)}"
  have fin: "finite (?S a)" for a by simp
  have mono: "rank ks a < rank ks b" if "a < length ks" "ks ! a < ks ! b \<or> ks ! a = ks ! b \<and> a < b" for a b
    unfolding rank_card
  proof (rule psubset_card_mono [OF fin])
    have "?S a \<subseteq> ?S b" using that by auto
    moreover have "a \<in> ?S b" "a \<notin> ?S a" using that by auto
    ultimately show "?S a \<subset> ?S b" by blast
  qed
  show ?thesis
    using mono [of i j] mono [of j i] assms by (metis linorder_neqE_nat less_irrefl order_less_asym)
qed

lemma rank_bound: "i < length ks \<Longrightarrow> rank ks i < length ks"
proof -
  assume "i < length ks"
  then have "{j. j < length ks \<and> (ks ! j < ks ! i \<or> ks ! j = ks ! i \<and> j < i)} \<subset> {..<length ks}" by auto
  from psubset_card_mono [OF _ this] show ?thesis by (simp add: rank_card)
qed

lemma length_sort_perm [simp]: "length (sort_perm ks) = length ks"
  by (simp add: sort_perm_def)

lemma is_perm_sort_perm: "is_perm (length ks) (sort_perm ks)"
proof (rule is_permI)
  fix x y assume xy: "x < length ks" "y < length ks" "sort_perm ks ! x = sort_perm ks ! y"
  then have "\<not> rank ks x < rank ks y" "\<not> rank ks y < rank ks x" by (simp_all add: sort_perm_def)
  then show "x = y" using rank_less_iff [of x ks y] rank_less_iff [of y ks x] xy(1,2) by auto
qed (simp_all add: sort_perm_def rank_bound)

text \<open>Moving every element to its rank is the stable sort of the library.\<close>

lemma unpermute_sort_perm:
  assumes "length xs = length ks"
  shows "unpermute (sort_perm ks) xs = map ((!) xs) (sort_key ((!) ks) [0..<length ks])"
proof -
  let ?n = "length ks" and ?ys = "unpermute (sort_perm ks) [0..<length ks]"
  note p = is_perm_sort_perm [of ks]
  have len: "length ?ys = ?n" by simp
  have at: "?ys ! rank ks i = i" if "i < ?n" for i
    using nth_unpermute [OF p that, of "[0..<length ks]"] that by (simp add: sort_perm_def)
  have order: "ks ! (?ys ! a) < ks ! (?ys ! b) \<or> ks ! (?ys ! a) = ks ! (?ys ! b) \<and> ?ys ! a < ?ys ! b" if ab: "a < b" "b < ?n" for a b
  proof -
    have "\<exists>i<?n. rank ks i = a" "\<exists>j<?n. rank ks j = b"
      using is_perm_surj [OF p, of a] is_perm_surj [OF p, of b] ab by (auto simp: sort_perm_def)
    then obtain i j where ij: "i < ?n" "rank ks i = a" "j < ?n" "rank ks j = b" by blast
    with rank_less_iff [OF ij(1,3)] ab(1) at [OF ij(1)] at [OF ij(3)] show ?thesis by simp
  qed
  have "sort_key ((!) ks) [0..<?n] = ?ys"
  proof (rule properties_for_sort_key)
    show "mset ?ys = mset [0..<?n]"
      unfolding unpermute_def using is_perm_inv [OF p] by (intro mset_permute) simp
    show "sorted (map ((!) ks) ?ys)"
      unfolding sorted_iff_nth_mono_less
    proof (intro allI impI)
      fix i j assume "i < j" "j < length (map ((!) ks) ?ys)"
      then show "map ((!) ks) ?ys ! i \<le> map ((!) ks) ?ys ! j" using order [of i j] by auto
    qed
    fix k
    have set: "set ?ys = {0..<?n}" using \<open>mset ?ys = mset [0..<?n]\<close> mset_eq_setD by fastforce
    have "sorted_wrt (\<lambda>x y. ks ! x < ks ! y \<or> ks ! x = ks ! y \<and> x < y) (filter (\<lambda>x. ks ! k = ks ! x) ?ys)"
      using order by (intro sorted_wrt_filter) (simp add: sorted_wrt_iff_nth_less)
    then have "sorted_wrt (<) (filter (\<lambda>x. ks ! k = ks ! x) ?ys)"
      by (rule sorted_wrt_mono_rel [rotated]) auto
    then show "filter (\<lambda>x. ks ! k = ks ! x) ?ys = filter (\<lambda>x. ks ! k = ks ! x) [0..<?n]"
      by (rule strict_sorted_equal [symmetric]) (auto simp: sorted_wrt_filter set)
  qed
  then show ?thesis using unpermute_map [of "[0..<?n]" "sort_perm ks" "(!) xs"] p map_nth [of xs] assms by simp
qed

text \<open>Radix sort: sorting by the low digits and then, stably, by the high one.\<close>

lemma radix_less_iff:
  fixes l l' h h' M :: nat
  assumes "l < M" and "l' < M"
  shows "l + M * h < l' + M * h' \<longleftrightarrow> h < h' \<or> h = h' \<and> l < l'" and "l + M * h = l' + M * h' \<longleftrightarrow> h = h' \<and> l = l'"
proof -
  have less: "l + M * h < l' + M * h'" if "h < h'" "l < M" for l h l' h' :: nat
  proof -
    have "l + M * h < M * Suc h" using that(2) by simp
    also have "\<dots> \<le> M * h'" using that(1) by (intro mult_le_mono2) simp
    finally show ?thesis by simp
  qed
  show "l + M * h < l' + M * h' \<longleftrightarrow> h < h' \<or> h = h' \<and> l < l'"
    using less [of h h' l l'] less [of h' h l' l] assms by (cases h h' rule: linorder_cases) auto
  show "l + M * h = l' + M * h' \<longleftrightarrow> h = h' \<and> l = l'"
    using less [of h h' l l'] less [of h' h l' l] assms by (cases h h' rule: linorder_cases) auto
qed

lemma sort_perm_radix:
  assumes "length hi = length lo" and "\<forall>l \<in> set lo. l < M"
  shows "permute (sort_perm lo) (sort_perm (unpermute (sort_perm lo) hi)) = sort_perm (map2 (\<lambda>l h. l + M * h) lo hi)"
proof (rule nth_equalityI)
  let ?s = "sort_perm lo" and ?hi' = "unpermute (sort_perm lo) hi" and ?k = "map2 (\<lambda>l h. l + M * h) lo hi"
  let ?n = "length lo"
  note p = is_perm_sort_perm [of lo]
  show "length (permute ?s (sort_perm ?hi')) = length (sort_perm ?k)" using assms(1) by simp
  fix i assume "i < length (permute ?s (sort_perm ?hi'))"
  then have i: "i < ?n" by simp
  let ?A = "{j. j < ?n \<and> (hi ! j < hi ! i \<or> hi ! j = hi ! i \<and> ?s ! j < ?s ! i)}"
  have "{j'. j' < ?n \<and> (?hi' ! j' < ?hi' ! (?s ! i) \<or> ?hi' ! j' = ?hi' ! (?s ! i) \<and> j' < ?s ! i)} = (!) ?s ` ?A"
  proof (intro set_eqI iffI)
    fix y assume y: "y \<in> {j'. j' < ?n \<and> (?hi' ! j' < ?hi' ! (?s ! i) \<or> ?hi' ! j' = ?hi' ! (?s ! i) \<and> j' < ?s ! i)}"
    then obtain j where "j < ?n" "y = ?s ! j" using is_perm_surj [OF p, of y] by auto
    with y i show "y \<in> (!) ?s ` ?A" by (auto simp: nth_unpermute [OF p])
  qed (auto simp: nth_unpermute [OF p] i is_permD(2) [OF p])
  moreover have "inj_on ((!) ?s) ?A" using is_perm_eq_iff [OF p] by (auto simp: inj_on_def)
  ultimately have "rank ?hi' (?s ! i) = card ?A" by (simp add: rank_card card_image)
  also have "?A = {j. j < ?n \<and> (?k ! j < ?k ! i \<or> ?k ! j = ?k ! i \<and> j < i)}"
  proof -
    have "hi ! j < hi ! i \<or> hi ! j = hi ! i \<and> ?s ! j < ?s ! i \<longleftrightarrow> ?k ! j < ?k ! i \<or> ?k ! j = ?k ! i \<and> j < i" if "j < ?n" for j
      using radix_less_iff [of "lo ! j" M "lo ! i" "hi ! j" "hi ! i"] assms that i rank_less_iff [of j lo i]
      by (auto simp: sort_perm_def)
    then show ?thesis by blast
  qed
  finally have "rank ?hi' (?s ! i) = rank ?k i" using assms(1) by (simp add: rank_card)
  moreover have "?s ! i < ?n" by (rule is_permD(2) [OF p i])
  ultimately show "permute ?s (sort_perm ?hi') ! i = sort_perm ?k ! i"
    using i assms(1) by (simp add: nth_permute sort_perm_def)
qed

lemma sequence_res_enumerate:
  assumes "\<And>i. i < length xs \<Longrightarrow> \<exists>y. f i (xs ! i) = Inr y \<and> Q i y"
  shows "\<exists>ys. sequence_res (map (\<lambda>(i, x). f i x) (enumerate 0 xs)) = Inr ys \<and> length ys = length xs
    \<and> (\<forall>i < length xs. Q i (ys ! i))"
proof -
  have "\<exists>y. (\<lambda>(i, x). f i x) p = Inr y \<and> Q (fst p) y" if "p \<in> set (enumerate 0 xs)" for p
    using that assms [of "fst p"] by (auto simp: in_set_enumerate_eq split: prod.splits)
  from sequence_res_list_all2 [of "enumerate 0 xs" "\<lambda>(i, x). f i x" "\<lambda>p y. Q (fst p) y", OF this]
  show ?thesis by (auto simp: list_all2_conv_all_nth nth_enumerate_eq)
qed

lemma length_filter_less_Suc:
  "length (filter (\<lambda>k. k < Suc b) ks) = length (filter (\<lambda>k. k < b) ks) + length (filter (\<lambda>k. k = b) ks)"
  by (induction ks) auto

lemma rank_prefix:
  assumes "i < length ks"
  shows "length (filter (\<lambda>k. k < ks ! i) ks) + length (filter (\<lambda>k. k = ks ! i) (take (Suc i) ks)) = Suc (rank ks i)"
proof -
  let ?A = "{j. j < length ks \<and> ks ! j < ks ! i}" and ?B = "{j. j < i \<and> ks ! j = ks ! i}"
  have "rank ks i = card (?A \<union> ?B)"
    unfolding rank_card using assms by (intro arg_cong [of _ _ card]) auto
  also have "\<dots> = card ?A + card ?B" by (rule card_Un_disjoint) auto
  also have "card ?A = length (filter (\<lambda>k. k < ks ! i) ks)" by (simp add: length_filter_conv_card)
  also have "card ?B = length (filter (\<lambda>k. k = ks ! i) (take i ks))"
    using assms by (simp add: length_filter_conv_card) (intro arg_cong [of _ _ card], auto)
  finally show ?thesis using assms by (simp add: take_Suc_conv_app_nth)
qed

subsection \<open>The one-hot encoding is correct\<close>

text \<open>The indices that contribute to row \<open>i\<close>, and their signs, split at the least significant bit.\<close>

definition weight :: "nat \<Rightarrow> nat" where
  "weight n = card {k. bit n k}"

lemma bit_le: "bit (n::nat) k \<Longrightarrow> 2 ^ k \<le> n"
  by (rule ccontr) (simp add: bit_iff_odd not_le)

lemma finite_bits: "finite {k. bit (n::nat) k}"
proof (rule finite_subset)
  show "{k. bit n k} \<subseteq> {..<n}"
  proof
    fix k assume "k \<in> {k. bit n k}"
    then show "k \<in> {..<n}" using less_le_trans [OF less_exp bit_le [of n k]] by simp
  qed
qed simp

lemma weight_rec: "weight (of_bool e + 2 * n) = of_bool e + weight n"
proof -
  have half: "(of_bool e + 2 * n) div 2 = n" by (cases e) simp_all
  have bit: "bit (of_bool e + 2 * n) k \<longleftrightarrow> (case k of 0 \<Rightarrow> e | Suc m \<Rightarrow> bit n m)" for k
    by (cases k) (simp_all only: bit_0 bit_Suc half nat.case, simp)
  have "{k. bit (of_bool e + 2 * n) k} = (if e then {0} else {}) \<union> Suc ` {k. bit n k}"
  proof (rule set_eqI)
    fix k show "k \<in> {k. bit (of_bool e + 2 * n) k} \<longleftrightarrow> k \<in> (if e then {0} else {}) \<union> Suc ` {k. bit n k}"
      unfolding mem_Collect_eq bit by (cases k) auto
  qed
  moreover have "card (Suc ` {k. bit n k}) = weight n" by (simp add: weight_def card_image)
  moreover have "finite (Suc ` {k. bit n k})" using finite_bits [of n] by simp
  ultimately show ?thesis unfolding weight_def [of "of_bool e + 2 * n"] by (cases e) simp_all
qed

lemma count_ones_weight:
  assumes "n < 2 ^ 64"
  shows "count_ones n = weight n"
proof -
  have "k < 64" if "bit n k" for k
  proof (rule ccontr)
    assume "\<not> k < 64"
    then have "n < 2 ^ k" using assms power_increasing [of 64 k "2::nat"] by linarith
    with bit_le [OF that] show False by simp
  qed
  then have "{k. k < 64 \<and> bit n k} = {k. bit n k}" by blast
  then show ?thesis by (simp add: count_ones_def weight_def length_filter_conv_card cong: conj_cong)
qed

lemma and_rec: "(of_bool c + 2 * i :: nat) AND (of_bool e + 2 * j) = of_bool (c \<and> e) + 2 * (i AND j)"
  by (subst and_nat_rec) (auto simp: of_bool_def)

lemma xor_rec: "(of_bool c + 2 * i :: nat) XOR (of_bool e + 2 * j) = of_bool (c \<noteq> e) + 2 * (i XOR j)"
  by (subst xor_nat_rec) (auto simp: of_bool_def)

lemma of_bool_double_eq: "of_bool a + 2 * x = of_bool b + 2 * (y::nat) \<longleftrightarrow> a = b \<and> x = y"
  by (cases a; cases b; simp; presburger)

definition term_at :: "nat \<Rightarrow> nat \<Rightarrow> nat \<Rightarrow> 'v::comm_ring_1" where
  "term_at i b j = (if i AND j = i \<and> j AND b = j then (- 1) ^ weight (and_not j i) else 0)"

lemma term_at_rec:
  "term_at (of_bool c + 2 * i) (of_bool d + 2 * b) (of_bool e + 2 * j)
     = (if (c \<longrightarrow> e) \<and> (e \<longrightarrow> d) then (if e \<and> \<not> c then - term_at i b j else term_at i b j) else 0)"
  unfolding term_at_def and_not_def and_rec xor_rec of_bool_double_eq weight_rec by auto

lemma sum_pairs: "(\<Sum>j<2 * n. f j) = (\<Sum>j<n. f (2 * j) + f (Suc (2 * j)))" for f :: "nat \<Rightarrow> 'v::comm_monoid_add"
  by (induction n) (simp_all add: ac_simps)

lemma sum_term_at:
  assumes "i < 2 ^ n" and "b < 2 ^ n"
  shows "(\<Sum>j<2 ^ n. term_at i b j) = (of_bool (i = b) :: 'v::comm_ring_1)"
  using assms
proof (induction n arbitrary: i b)
  case 0
  then show ?case by (simp add: term_at_def and_not_def weight_def)
next
  case (Suc n)
  have split: "x = of_bool (odd x) + 2 * (x div 2)" for x :: nat by (simp add: odd_two_times_div_two_succ)
  define i' b' c d where "i' = i div 2" and "b' = b div 2" and "c = odd i" and "d = odd b"
  then have ib: "i = of_bool c + 2 * i'" "b = of_bool d + 2 * b'" using split by auto
  have "i' < 2 ^ n" "b' < 2 ^ n" using Suc.prems by (auto simp: i'_def b'_def)
  note IH = Suc.IH [OF this]
  have even: "term_at i b (2 * j) = (if c then 0 else term_at i' b' j :: 'v)" for j
    using term_at_rec [where ?'a = 'v, of c i' d b' False j] by (simp flip: ib)
  have odd: "term_at i b (Suc (2 * j)) = (if d then (if c then term_at i' b' j else - term_at i' b' j) else 0 :: 'v)" for j
    using term_at_rec [where ?'a = 'v, of c i' d b' True j] by (simp flip: ib)
  have "(\<Sum>j<2 ^ Suc n. term_at i b j) = (\<Sum>j<2 ^ n. term_at i b (2 * j) + term_at i b (Suc (2 * j)) :: 'v)"
    by (simp only: power_Suc sum_pairs)
  also have "\<dots> = (if c = d then of_bool (i' = b') else 0)"
    by (cases c; cases d; simp add: even odd IH)
  finally show ?case unfolding ib of_bool_double_eq by auto
qed

lemma and_le: "(i::nat) AND j \<le> j"
proof (induction j arbitrary: i rule: less_induct)
  case (less j)
  show ?case
  proof (cases "j = 0")
    case False
    then have "i div 2 AND j div 2 \<le> j div 2" by (intro less) simp
    then show ?thesis by (subst and_nat_rec) (auto simp: of_bool_def elim!: oddE)
  qed simp
qed

lemma and_high:
  assumes "j < 2 ^ k" and "v < 2 ^ k"
  shows "(j + of_bool e * 2 ^ k) AND (v + of_bool c * 2 ^ k) = (j AND v) + of_bool (e \<and> c) * (2 ^ k :: nat)"
  using assms
proof (induction k arbitrary: j v)
  case (Suc k)
  have split: "x = of_bool (odd x) + 2 * (x div 2)" for x :: nat by (simp add: odd_two_times_div_two_succ)
  have high: "x + of_bool e * 2 ^ Suc k = of_bool (odd x) + 2 * (x div 2 + of_bool e * 2 ^ k)" for x :: nat and e
    by (subst split [of x]) simp
  have "j div 2 < 2 ^ k" "v div 2 < 2 ^ k" using Suc.prems by auto
  from Suc.IH [OF this] have "(j + of_bool e * 2 ^ Suc k) AND (v + of_bool c * 2 ^ Suc k)
      = of_bool (odd j \<and> odd v) + 2 * ((j div 2 AND v div 2) + of_bool (e \<and> c) * 2 ^ k)"
    unfolding high and_rec by simp
  also have "\<dots> = (j AND v) + of_bool (e \<and> c) * 2 ^ Suc k"
    using and_nat_rec [of j v] by simp
  finally show ?case .
qed (cases e; cases c; simp)

lemma subset_high:
  assumes "j < 2 ^ k" and "v < 2 ^ k"
  shows "(j + of_bool e * 2 ^ k) AND (v + of_bool c * 2 ^ k) = (j + of_bool e * 2 ^ k :: nat) \<longleftrightarrow> (e \<longrightarrow> c) \<and> j AND v = j"
  unfolding and_high [OF assms] using and_le [of v j] assms by (cases e; cases c) (auto simp: and.commute)

lemma enumerate_nth: "enumerate n xs = map (\<lambda>j. (j, xs ! (j - n))) [n..<n + length xs]"
  by (rule nth_equalityI) (simp_all add: nth_enumerate_eq)

context mpc
begin

definition combos :: "bool list \<Rightarrow> 's list \<Rightarrow> bool" where
  "combos bs all \<longleftrightarrow> length all = 2 ^ length bs \<and> list_all ok all
     \<and> (\<forall>j < 2 ^ length bs. val (all ! j) = of_bool (j AND bits_nat bs = j))"

lemma combos_step:
  assumes "combos bs all" and "is_bit c b"
  shows "combos (bs @ [c]) (all @ b # map (\<lambda>(j, combination). p_mul P (narrow g (bit_op_step (j + st))) rid combination b)
    (enumerate 0 (tl all)))" (is "combos _ (all @ b # ?ms)")
proof -
  let ?N = "2 ^ length bs :: nat"
  have all: "length all = ?N" "list_all ok all" and val: "\<And>j. j < ?N \<Longrightarrow> val (all ! j) = of_bool (j AND bits_nat bs = j)"
    using assms(1) by (auto simp: combos_def)
  have b: "ok b" "val b = of_bool c" using assms(2) by (simp_all add: is_bit_def)
  have oks: "ok (tl all ! m)" "tl all ! m = all ! Suc m" if "m < ?N - 1" for m
    using that all by (auto simp: list_all_length nth_tl)
  have ms: "length ?ms = ?N - 1" "\<And>m. m < ?N - 1 \<Longrightarrow> ok (?ms ! m) \<and> val (?ms ! m) = val (all ! Suc m) * of_bool c"
    using oks b all by (auto simp: nth_enumerate_eq)
  have "val ((all @ b # ?ms) ! j) = of_bool (j AND bits_nat (bs @ [c]) = j)" if "j < 2 ^ length (bs @ [c])" for j
  proof (cases "j < ?N")
    case True
    then show ?thesis
      using val all subset_high [OF True bits_nat_less, of False c] by (simp add: nth_append bits_nat_append ac_simps)
  next
    case False
    define m where "m = j - ?N"
    have m: "j = m + of_bool True * ?N" "m < ?N" using False that by (auto simp: m_def)
    have "val ((all @ b # ?ms) ! j) = of_bool (m AND bits_nat bs = m) * of_bool c"
      using m all ms b val by (cases m) (simp_all add: nth_append)
    then show ?thesis
      unfolding m(1) using subset_high [OF m(2) bits_nat_less, of True c] by (simp add: bits_nat_append ac_simps)
  qed
  moreover have "list_all ok ?ms" unfolding list_all_length ms(1) using ms(2) by blast
  then have "list_all ok (all @ b # ?ms)" using all(2) b by simp
  ultimately show ?thesis using all ms(1) by (simp add: combos_def)
qed

lemma combinations_loop_ok:
  assumes "list_all2 is_bit bs number" and "combos cs all"
  shows "combos (cs @ bs) (combinations_loop P g rid all (length cs) number)"
  using assms
proof (induction arbitrary: cs all rule: list_all2_induct)
  case (Cons c bs b number)
  from Cons.IH [OF combos_step [OF Cons.prems Cons.hyps(1)]] show ?case by (simp add: Let_def)
qed simp

lemma generate_all_combinations_ok:
  "list_all2 is_bit bs number \<Longrightarrow> combos bs (generate_all_combinations P g rid number)"
  unfolding generate_all_combinations_def
  using combinations_loop_ok [of bs number "[]" "[p_known P 1]"] by (simp add: combos_def)

lemma onehot_fold:
  assumes "list_all (\<lambda>(j, c). ok c) ps" and "ok check"
  shows "ok (foldl (\<lambda>check (j, c). if i AND j = i then
             if count_ones (and_not j i) AND 1 = 1 then p_sub P check c else p_add P check c else check) check ps)
    \<and> val (foldl (\<lambda>check (j, c). if i AND j = i then
             if count_ones (and_not j i) AND 1 = 1 then p_sub P check c else p_add P check c else check) check ps)
      = val check + (\<Sum>(j, c)\<leftarrow>ps. if i AND j = i then (- 1) ^ count_ones (and_not j i) * val c else 0)"
  using assms
proof (induction ps arbitrary: check)
  case (Cons q ps)
  obtain j c where q: "q = (j, c)" by (cases q)
  let ?check = "if i AND j = i then if count_ones (and_not j i) AND 1 = 1 then p_sub P check c else p_add P check c else check"
  have "ok ?check" using Cons.prems q by simp
  moreover have "val ?check = val check + (if i AND j = i then (- 1) ^ count_ones (and_not j i) * val c else 0)"
    by (simp add: and_one_eq mod_2_eq_odd)
  ultimately show ?case using Cons.IH [of ?check] Cons.prems q by (simp add: add.assoc)
qed simp

definition onehot :: "nat \<Rightarrow> nat \<Rightarrow> 's list \<Rightarrow> bool" where
  "onehot N k eq \<longleftrightarrow> length eq = N \<and> list_all ok eq \<and> (\<forall>b<N. val (eq ! b) = of_bool (b = k))"

lemma onehot_check_ok:
  assumes "combos bs cs" and "i < 2 ^ length bs" and "length bs \<le> 64"
  shows "ok (onehot_check P cs i) \<and> val (onehot_check P cs i) = of_bool (i = bits_nat bs)"
proof -
  let ?N = "2 ^ length bs :: nat" and ?b = "bits_nat bs"
  have cs: "length cs = ?N" "list_all ok cs" and val: "\<And>j. j < ?N \<Longrightarrow> val (cs ! j) = of_bool (j AND ?b = j)"
    using assms(1) by (auto simp: combos_def)
  have small: "j < 2 ^ 64" if "j < ?N" for j
    using that power_increasing [OF assms(3), of "2::nat"] by simp
  have term_eq: "(if i AND j = i then (- 1) ^ count_ones (and_not j i) * val (cs ! j) else 0) = term_at i ?b j" if "j < ?N" for j
  proof -
    have "take_bit 64 (and_not j i) = and_not j i"
      using small [OF that] small [OF assms(2)] by (simp add: and_not_def take_bit_nat_eq_self)
    then have "and_not j i < 2 ^ 64" by (simp add: take_bit_nat_eq_self_iff)
    then show ?thesis using val [OF that] by (auto simp: term_at_def count_ones_weight)
  qed
  let ?ps = "drop (i + 1) (enumerate 0 cs)"
  have ps: "?ps = map (\<lambda>j. (j, cs ! j)) [i + 1..<?N]" using cs(1) by (simp add: enumerate_nth drop_map)
  have ok: "list_all (\<lambda>(j, c). ok c) ?ps" "ok (cs ! i)"
    unfolding ps using cs assms(2) by (auto simp: list_all_length)
  have "val (onehot_check P cs i) = val (cs ! i) + (\<Sum>(j, c)\<leftarrow>?ps. if i AND j = i then (- 1) ^ count_ones (and_not j i) * val c else 0)"
    unfolding onehot_check_def using onehot_fold [OF ok] by blast
  also have "(\<Sum>(j, c)\<leftarrow>?ps. if i AND j = i then (- 1) ^ count_ones (and_not j i) * val c else 0) = (\<Sum>j\<leftarrow>[i + 1..<?N]. term_at i ?b j)"
    unfolding ps by (rule arg_cong [of _ _ sum_list]) (auto simp: term_eq)
  also have "\<dots> = (\<Sum>j = i + 1..<?N. term_at i ?b j)" by (simp add: interv_sum_list_conv_sum_set_nat)
  also have "val (cs ! i) = term_at i ?b i" using val [OF assms(2)] by (simp add: term_at_def and_not_def weight_def)
  also have "term_at i ?b i + (\<Sum>j = i + 1..<?N. term_at i ?b j) = (\<Sum>j<?N. term_at i ?b j :: 'v)"
  proof -
    have "term_at i ?b j = (0 :: 'v)" if "j < i" for j
      using and_le [of i j] that by (auto simp: term_at_def)
    then have "(\<Sum>j<i. term_at i ?b j) = (0 :: 'v)" by simp
    moreover have "(\<Sum>j<?N. term_at i ?b j) = (\<Sum>j<i. term_at i ?b j) + (\<Sum>j = i..<?N. term_at i ?b j :: 'v)"
      using assms(2) by (simp add: lessThan_atLeast0 sum.atLeastLessThan_concat)
    ultimately show ?thesis using assms(2) by (simp add: sum.atLeast_Suc_lessThan)
  qed
  finally have "val (onehot_check P cs i) = of_bool (i = ?b)" using sum_term_at [OF assms(2) bits_nat_less] by simp
  then show ?thesis unfolding onehot_check_def using onehot_fold [OF ok] by blast
qed

lemma bitwise_to_onehot_ok:
  assumes "list_all2 is_bit bs number" and "length bs \<le> 6"
  shows "\<exists>eq. bitwise_to_onehot P g rid number = Inr eq \<and> onehot (2 ^ length bs) (bits_nat bs) eq"
proof -
  let ?N = "2 ^ length bs :: nat" and ?f = "onehot_check P (generate_all_combinations P g rid number)"
  have N: "?N \<le> 64" using power_increasing [OF assms(2), of "2::nat"] by simp
  have "bitwise_to_onehot P g rid number = Inr (map ?f [0..<?N])"
    using N list_all2_lengthD [OF assms(1)]
    by (simp add: bitwise_to_onehot_def bd_decompose_def bd_try_from_def BitDecomposed_MAX_def)
  moreover have "onehot ?N (bits_nat bs) (map ?f [0..<?N])"
    using onehot_check_ok [OF generate_all_combinations_ok [OF assms(1)]] assms(2) by (simp add: onehot_def list_all_length)
  ultimately show ?thesis by blast
qed

lemma prefix_column_ok:
  assumes "list_all2 (onehot N) ks eqs" and "b < N" and "ok c"
  shows "case prefix_column P b c eqs of (col, c') \<Rightarrow>
    length col = length ks \<and> list_all ok col \<and> ok c' \<and> val c' = val c + of_nat (length (filter (\<lambda>k. k = b) ks))
    \<and> (\<forall>i < length ks. val (col ! i) = val c + of_nat (length (filter (\<lambda>k. k = b) (take (Suc i) ks))))"
  using assms
proof (induction arbitrary: c rule: list_all2_induct)
  case (Cons k ks eq eqs)
  then have eq: "ok (eq ! b)" "val (eq ! b) = of_bool (k = b)" by (auto simp: onehot_def list_all_length)
  obtain col c' where col: "prefix_column P b (p_add P c (eq ! b)) eqs = (col, c')" by fastforce
  from Cons.IH [of "p_add P c (eq ! b)"] Cons.prems eq col
  show ?case by (auto simp: Let_def less_Suc_eq_0_disj)
qed simp

lemma prefix_columns_ok:
  assumes "list_all2 (onehot N) ks eqs" and "N = a + n" and "ok c" and "val c = of_nat (length (filter (\<lambda>k. k < a) ks))"
  shows "length (prefix_columns P c eqs [a..<N]) = n \<and> (\<forall>d < n. list_all ok (prefix_columns P c eqs [a..<N] ! d)
      \<and> length (prefix_columns P c eqs [a..<N] ! d) = length ks
      \<and> (\<forall>i < length ks. val (prefix_columns P c eqs [a..<N] ! d ! i)
            = of_nat (length (filter (\<lambda>k. k < a + d) ks) + length (filter (\<lambda>k. k = a + d) (take (Suc i) ks)))))"
  using assms(2-)
proof (induction n arbitrary: a c)
  case (Suc n)
  obtain col c' where col: "prefix_column P a c eqs = (col, c')" by fastforce
  have upt: "[a..<N] = a # [Suc a..<N]" using Suc.prems(1) by (simp add: upt_rec)
  have c': "length col = length ks" "list_all ok col" "ok c'" "val c' = of_nat (length (filter (\<lambda>k. k < Suc a) ks))"
    "\<And>i. i < length ks \<Longrightarrow> val (col ! i) = val c + of_nat (length (filter (\<lambda>k. k = a) (take (Suc i) ks)))"
    using prefix_column_ok [OF assms(1) _ Suc.prems(2), of a] Suc.prems(1,3) col by (auto simp: length_filter_less_Suc)
  note IH = Suc.IH [of "Suc a" c', OF _ c'(3,4)]
  show ?case
    unfolding upt prefix_columns.simps col prod.case
    using IH c' Suc.prems by (auto simp: less_Suc_eq_0_disj)
qed simp

lemma multi_bit_permutation_ok:
  assumes "list_all2 (list_all2 is_bit) bss input" and "\<forall>bs \<in> set bss. length bs = m" and "0 < m" and "m \<le> 6"
    and "length input < PRIME F"
  shows "\<exists>out. multi_bit_permutation F P g input = Inr out \<and> list_all ok out
    \<and> map val out = map of_nat (sort_perm (map bits_nat bss))"
proof (cases "length input < 2")
  case True
  let ?ks = "map bits_nat bss"
  have len: "length bss = length input" using assms(1) by (rule list_all2_lengthD)
  have "rank ?ks i = 0" if "i < length bss" for i using rank_bound [of i ?ks] that True len by simp
  then have "sort_perm ?ks = replicate (length input) 0"
    using len by (intro nth_equalityI) (simp_all add: sort_perm_def)
  then show ?thesis using True by (simp add: multi_bit_permutation_def list_all_length)
next
  case False
  let ?ks = "map bits_nat bss" and ?N = "2 ^ m :: nat"
  have len: "length bss = length input" using assms(1) by (rule list_all2_lengthD)
  have rec: "list_all2 is_bit (bss ! i) (input ! i)" "length (bss ! i) = m" "length (input ! i) = m" if "i < length input" for i
    using that assms(1,2) len list_all2_nthD2 [OF assms(1) that] by (auto dest: list_all2_lengthD)
  have N: "2 * 2 ^ (length (input ! 0) - 1) = ?N" "length (input ! 0) \<noteq> 0"
    using rec(3) [of 0] False assms(3) by (cases input; cases m; simp)+
  have "\<exists>y. bitwise_to_onehot P g i (input ! i) = Inr y \<and> onehot ?N (?ks ! i) y" if "i < length input" for i
    using bitwise_to_onehot_ok [OF rec(1) [OF that]] rec(2) [OF that] assms(4) that len by simp
  from sequence_res_enumerate [of input "bitwise_to_onehot P g" "\<lambda>i y. onehot ?N (?ks ! i) y", OF this]
  obtain eqs where eqs: "sequence_res (map (\<lambda>(i, x). bitwise_to_onehot P g i x) (enumerate 0 input)) = Inr eqs"
      "length eqs = length input" "\<And>i. i < length input \<Longrightarrow> onehot ?N (?ks ! i) (eqs ! i)" by blast
  then have all: "list_all2 (onehot ?N) ?ks eqs" using len by (simp add: list_all2_conv_all_nth)
  have lens: "list_all (\<lambda>eq. ?N \<le> length eq) eqs" using eqs by (auto simp: list_all_length onehot_def)
  define cols where "cols = prefix_columns P (p_zero P) eqs [0..<?N]"
  have cols: "length cols = ?N" "\<And>b. b < ?N \<Longrightarrow> list_all ok (cols ! b) \<and> length (cols ! b) = length input"
    "\<And>b i. b < ?N \<Longrightarrow> i < length input \<Longrightarrow> val (cols ! b ! i)
       = of_nat (length (filter (\<lambda>k. k < b) ?ks) + length (filter (\<lambda>k. k = b) (take (Suc i) ?ks)))"
    unfolding cols_def using prefix_columns_ok [OF all, of 0 ?N "p_zero P"] len by auto
  let ?row = "\<lambda>i. map (\<lambda>col. col ! i) cols"
  have "\<exists>c. p_sop P g i (eqs ! i) (?row i) = Inr c \<and> ok c \<and> val c = of_nat (Suc (rank ?ks i))" if i: "i < length input" for i
  proof -
    have eq: "length (eqs ! i) = ?N" "list_all ok (eqs ! i)" "\<And>b. b < ?N \<Longrightarrow> val (eqs ! i ! b) = of_bool (b = ?ks ! i)"
      using eqs(3) [OF i] by (auto simp: onehot_def)
    have row: "list_all ok (?row i)" using cols(1,2) i by (auto simp: list_all_length)
    have k: "?ks ! i < ?N" using bits_nat_less [of "bss ! i"] rec(2) [OF i] i len by simp
    have "(\<Sum>(a, b)\<leftarrow>zip (eqs ! i) (?row i). val a * val b) = (\<Sum>b<?N. of_bool (b = ?ks ! i) * val (cols ! b ! i))"
      using eq cols(1) by (simp add: sum_list_sum_nth lessThan_atLeast0)
    also have "\<dots> = val (cols ! (?ks ! i) ! i)" using k by (subst sum.remove [of _ "?ks ! i"]) auto
    also have "\<dots> = of_nat (Suc (rank ?ks i))"
      unfolding cols(3) [OF k i] using rank_prefix [of i ?ks] i len by simp
    finally show ?thesis using sop [OF _ eq(2) row] eq(1) cols(1) by simp
  qed
  from sequence_res_enumerate [of eqs "\<lambda>i eq. p_sop P g i eq (?row i)" "\<lambda>i c. ok c \<and> val c = of_nat (Suc (rank ?ks i))"] this eqs(2)
  obtain cs where cs: "sequence_res (map (\<lambda>(i, eq). p_sop P g i eq (?row i)) (enumerate 0 eqs)) = Inr cs"
      "length cs = length input" "\<And>i. i < length input \<Longrightarrow> ok (cs ! i) \<and> val (cs ! i) = of_nat (Suc (rank ?ks i))" by auto
  then have "multi_bit_permutation F P g input = Inr (map (\<lambda>s. p_sub P s (p_known P 1)) cs)"
    using False assms(5) N eqs(1) lens by (simp add: multi_bit_permutation_def Let_def cols_def)
  moreover have "map val (map (\<lambda>s. p_sub P s (p_known P 1)) cs) = map of_nat (sort_perm ?ks)"
    using cs len by (intro nth_equalityI) (simp_all add: sort_perm_def)
  ultimately show ?thesis using cs by (auto simp: list_all_length)
qed

lemma running_sums_ok:
  assumes "list_all ok xs" and "ok sm" and "i < length xs"
  shows "length (running_sums P sm xs) = length xs \<and> fst (running_sums P sm xs ! i) = xs ! i
    \<and> ok (snd (running_sums P sm xs ! i)) \<and> val (snd (running_sums P sm xs ! i)) = val sm + (\<Sum>x\<leftarrow>take (Suc i) xs. val x)"
  using assms
proof (induction xs arbitrary: sm i)
  case (Cons x xs)
  have len: "length (running_sums P sm ys) = length ys" for sm ys by (induction ys arbitrary: sm) (simp_all add: Let_def)
  from Cons show ?case by (cases i) (auto simp: Let_def len add.assoc)
qed simp

lemma bit_sums:
  assumes "list_all2 is_bit bs xs"
  shows "(\<Sum>x\<leftarrow>xs. val x) = of_nat (length (filter id bs))"
    and "(\<Sum>x\<leftarrow>xs. 1 - val x) = of_nat (length (filter Not bs))"
  using assms by (induction rule: list_all2_induct) (auto simp: is_bit_def)

lemma bit_permutation_ok:
  assumes "list_all2 is_bit bs input"
  shows "list_all ok (bit_permutation P g input)
    \<and> map val (bit_permutation P g input) = map of_nat (sort_perm (map of_bool bs))"
proof -
  let ?n = "length input" and ?ks = "map of_bool bs :: nat list"
  let ?neg = "map (\<lambda>x. p_sub P (p_known P 1) x) input"
  define ms where "ms = running_sums P (p_zero P) (?neg @ input)"
  have len: "length bs = ?n" using assms by (rule list_all2_lengthD)
  have oks: "list_all ok (?neg @ input)" using is_bits_ok [OF assms] by (auto simp: list_all_iff)
  have bit: "ok (input ! i)" "val (input ! i) = of_bool (bs ! i)" if "i < ?n" for i
    using list_all2_nthD2 [OF assms that] by (simp_all add: is_bit_def)
  have lms: "length ms = 2 * ?n"
    using running_sums_ok [OF oks, of "p_zero P" 0] by (cases "?n = 0") (auto simp: ms_def)
  have at: "fst (ms ! i) = (?neg @ input) ! i" "ok (snd (ms ! i))" "val (snd (ms ! i)) = (\<Sum>x\<leftarrow>take (Suc i) (?neg @ input). val x)"
    if "i < 2 * ?n" for i
    using running_sums_ok [OF oks, of "p_zero P" i] that by (simp_all add: ms_def)
  define mo where "mo = map (\<lambda>(i, (x, sm)). p_mul P g i x sm) (enumerate 0 ms)"
  have mo: "length mo = 2 * ?n" "\<And>i. i < 2 * ?n \<Longrightarrow> mo ! i = p_mul P g i (fst (ms ! i)) (snd (ms ! i))"
    using lms by (auto simp: mo_def nth_enumerate_eq split: prod.splits)
  have out: "bit_permutation P g input = map (\<lambda>i. p_add P (p_sub P (mo ! (i + ?n)) (p_known P 1)) (mo ! i)) [0..<?n]"
    using mo(1) by (simp add: bit_permutation_def Let_def mo_def ms_def)
  have low: "ok (mo ! i)" "val (mo ! i) = of_bool (\<not> bs ! i) * of_nat (length (filter Not (take (Suc i) bs)))" if i: "i < ?n" for i
  proof -
    have "list_all2 is_bit (take (Suc i) bs) (take (Suc i) input)" using assms by (rule list_all2_takeI)
    then have "(\<Sum>x\<leftarrow>take (Suc i) (?neg @ input). val x) = of_nat (length (filter Not (take (Suc i) bs)))"
      using i bit_sums(2) by (simp add: take_map o_def)
    then show "ok (mo ! i)" "val (mo ! i) = of_bool (\<not> bs ! i) * of_nat (length (filter Not (take (Suc i) bs)))"
      using i at [of i] bit [OF i] by (simp_all add: mo nth_append)
  qed
  have high: "ok (mo ! (i + ?n))" "val (mo ! (i + ?n)) = of_bool (bs ! i) * of_nat (length (filter Not bs) + length (filter id (take (Suc i) bs)))"
    if i: "i < ?n" for i
  proof -
    have "list_all2 is_bit (take (Suc i) bs) (take (Suc i) input)" using assms by (rule list_all2_takeI)
    then have "(\<Sum>x\<leftarrow>take (Suc (i + ?n)) (?neg @ input). val x) = of_nat (length (filter Not bs) + length (filter id (take (Suc i) bs)))"
      using bit_sums(2) [OF assms] bit_sums(1) by (simp add: o_def Suc_diff_le)
    then show "ok (mo ! (i + ?n))" "val (mo ! (i + ?n)) = of_bool (bs ! i) * of_nat (length (filter Not bs) + length (filter id (take (Suc i) bs)))"
      using i at [of "i + ?n"] bit [OF i] by (simp_all add: mo nth_append)
  qed
  have [simp]: "of_bool x = Suc 0 \<longleftrightarrow> x" for x by (cases x) simp_all
  have "Suc (rank ?ks i) = (if bs ! i then length (filter Not bs) + length (filter id (take (Suc i) bs)) else length (filter Not (take (Suc i) bs)))"
    if "i < ?n" for i
    using rank_prefix [of i ?ks] that len
    by (cases "bs ! i") (simp_all add: filter_map o_def take_map id_def)
  then have "of_nat (Suc (rank ?ks i)) = val (mo ! (i + ?n)) + val (mo ! i)" if "i < ?n" for i
    using low(2) [OF that] high(2) [OF that] that by simp
  then have "val (mo ! (i + ?n)) - 1 + val (mo ! i) = of_nat (rank ?ks i)" if "i < ?n" for i
    using that by (metis (no_types) add_diff_cancel_left' add_diff_eq diff_add_eq of_nat_Suc)
  then show ?thesis using low(1) high(1) len unfolding out by (auto simp: list_all_iff sort_perm_def)
qed

end

subsection \<open>Properties\<close>


definition example_mal :: "(fp31, fp31) mal_ctx" where
  "example_mal = upgraded_ctx prime_to_extended (\<lambda>g i r. 3) (\<lambda>g i r. 5) default_gate"

lemma known_bits:
  "list_all2 sh_bit bs (map (\<lambda>b. share_known_value (of_bool b)) bs)"
  "list_all2 (mal_bit example_mal) bs (map (\<lambda>b. mal_share_known_value example_mal (of_bool b)) bs)"
proof -
  have "mac_valid example_mal (mal_share_known_value example_mal c) \<and> mal_value (mal_share_known_value example_mal c) = c" for c
    using mal_prime.ok_known [of "\<lambda>g i r. 3" "\<lambda>g i r. 5" default_gate c] mal_prime.val_known [of "\<lambda>g i r. 3" "\<lambda>g i r. 5" default_gate c]
    by (simp add: example_mal_def mal_protocols_def)
  then show "list_all2 (mal_bit example_mal) bs (map (\<lambda>b. mal_share_known_value example_mal (of_bool b)) bs)"
    by (simp add: list_all2_map2 list_all2_same mal_bit_def)
qed (simp add: list_all2_map2 list_all2_same sh_bit_def)


text \<open>C7: The permutation that sorts by several shared bits: for two records or more with the same positive number
  of at most six bits, entry \<open>i\<close> of the result is a sharing of the position of record \<open>i\<close> in the
  stable sort by the bits read as numbers. A field too small for that many records is an error, and records
  without bits panic. Semi-honest and malicious, for all randomness.\<close>

theorem multi_bit_permutation_correct:
  assumes "list_all2 (list_all2 sh_bit) bss s" and "list_all2 (list_all2 (mal_bit ctx)) bss m" and "\<forall>bs \<in> set bss. length bs = n"
    and "n \<le> 6" and "2 \<le> length bss" and "ctx = upgraded_ctx prime_to_extended rnd rnd_e g0"
  shows "if n = 0 then multi_bit_permutation F (sh_protocols rnd) g s = Inl Panic \<and> multi_bit_permutation F (mal_protocols ctx) g m = Inl Panic
    else if length bss \<ge> PRIME F
    then multi_bit_permutation F (sh_protocols rnd) g s = Inl (FieldValueTruncation (PRIME F) (length bss))
      \<and> multi_bit_permutation F (mal_protocols ctx) g m = Inl (FieldValueTruncation (PRIME F) (length bss))
    else (\<exists>out. multi_bit_permutation F (sh_protocols rnd) g s = Inr out \<and> list_all consistent out
        \<and> map reconstruct out = map of_nat (sort_perm (map bits_nat bss)))
      \<and> (\<exists>out. multi_bit_permutation F (mal_protocols ctx) g m = Inr out \<and> list_all (mac_valid ctx) out
        \<and> map mal_value out = map of_nat (sort_perm (map bits_nat bss)))"
proof -
  have bits: "list_all2 (list_all2 sh.is_bit) bss s" "list_all2 (list_all2 (mal_prime.is_bit rnd rnd_e g0)) bss m"
    using assms(1,2,6) by simp_all
  have len: "length s = length bss" "length m = length bss" using assms(1,2) by (auto dest: list_all2_lengthD)
  then have first: "length (s ! 0) = n" "length (m ! 0) = n"
    using assms(3,5) list_all2_nthD [OF assms(1), of 0] list_all2_nthD [OF assms(2), of 0]
    by (auto dest!: list_all2_lengthD simp flip: length_greater_0_conv)
  consider "n = 0" | "n \<noteq> 0" "length bss \<ge> PRIME F" | "0 < n" "length bss < PRIME F" by linarith
  then show ?thesis
  proof cases
    case 3
    with sh.multi_bit_permutation_ok [OF bits(1) assms(3) _ assms(4), of F rnd g]
      mal_prime.multi_bit_permutation_ok [OF bits(2) assms(3) _ assms(4), of F g] len show ?thesis by (auto simp: assms(6))
  qed (use len first assms(5) in \<open>simp_all add: multi_bit_permutation_def\<close>)
qed

theorem multi_bit_permutation_correct_witness:
  "\<exists>out. multi_bit_permutation fp31_field (sh_protocols (\<lambda>g i r. 3)) default_gate
       (map (map (\<lambda>b. share_known_value (of_bool b))) [[True, True], [False, True], [True, False]]) = Inr out
     \<and> list_all consistent out \<and> map reconstruct out = [2, 1, 0]"
proof -
  let ?bss = "[[True, True], [False, True], [True, False]]"
  have len: "\<forall>bs \<in> set ?bss. length bs = 2" "2 \<le> length ?bss" "(2::nat) \<le> 6" "3 < PRIME fp31_field"
    by (simp_all add: fp31_field_def fp31_prime_def)
  have same: "list_all2 Q xs (map f xs)" if "\<And>x. Q x (f x)" for Q f xs using that by (simp add: list_all2_map2 list_all2_same)
  have bits: "list_all2 (list_all2 sh_bit) ?bss (map (map (\<lambda>b. share_known_value (of_bool b))) ?bss)"
    "list_all2 (list_all2 (mal_bit example_mal)) ?bss (map (map (\<lambda>b. mal_share_known_value example_mal (of_bool b))) ?bss)"
    by (rule same, rule known_bits)+
  have perm: "sort_perm (map bits_nat ?bss) = [2, 1, 0]" by code_simp
  from multi_bit_permutation_correct [OF bits len(1,3,2) example_mal_def, of fp31_field default_gate] len(4)
  show ?thesis unfolding perm by simp
qed

text \<open>C33: Sorting by one bit with the single-bit protocol and with the several-bit protocol gives
  sharings of the same permutation, the stable sort by that bit, which moves every record with a zero before every
  record with a one and keeps the order within the two groups.\<close>

theorem bit_permutation_correct:
  assumes "list_all2 sh_bit bs s" and "list_all2 (mal_bit ctx) bs m" and "length bs < PRIME F"
    and "ctx = upgraded_ctx prime_to_extended rnd rnd_e g0"
  shows "list_all consistent (bit_permutation (sh_protocols rnd) g s)
    \<and> map reconstruct (bit_permutation (sh_protocols rnd) g s) = map of_nat (sort_perm (map of_bool bs))
    \<and> list_all (mac_valid ctx) (bit_permutation (mal_protocols ctx) g m)
    \<and> map mal_value (bit_permutation (mal_protocols ctx) g m) = map of_nat (sort_perm (map of_bool bs))
    \<and> (\<exists>out. multi_bit_permutation F (sh_protocols rnd) g' (map (\<lambda>x. [x]) s) = Inr out
        \<and> map reconstruct out = map reconstruct (bit_permutation (sh_protocols rnd) g s))
    \<and> unpermute (sort_perm (map of_bool bs)) [0..<length bs] = filter (\<lambda>i. \<not> bs ! i) [0..<length bs] @ filter (\<lambda>i. bs ! i) [0..<length bs]"
proof -
  have "list_all2 sh.is_bit bs s" "list_all2 (mal_prime.is_bit rnd rnd_e g0) bs m" using assms(1,2,4) by simp_all
  note perm = sh.bit_permutation_ok [OF this(1), of rnd g] mal_prime.bit_permutation_ok [OF this(2), of g]
  have "list_all2 (list_all2 sh.is_bit) (map (\<lambda>b. [b]) bs) (map (\<lambda>x. [x]) s)" using assms(1) by (simp add: list_all2_map1 list_all2_map2)
  from sh.multi_bit_permutation_ok [OF this, of 1 F rnd g'] assms(3) list_all2_lengthD [OF assms(1)]
  have "\<exists>out. multi_bit_permutation F (sh_protocols rnd) g' (map (\<lambda>x. [x]) s) = Inr out
        \<and> map reconstruct out = map of_nat (sort_perm (map of_bool bs))" by (auto simp: o_def)
  moreover have "unpermute (sort_perm (map of_bool bs)) [0..<length bs] = sort_key ((!) (map of_bool bs :: nat list)) [0..<length bs]"
  proof -
    have "map ((!) [0..<length bs]) xs = xs" if "set xs = {0..<length bs}" for xs
      using that by (intro map_idI) auto
    then show ?thesis using unpermute_sort_perm [of "[0..<length bs]" "map of_bool bs :: nat list"] by simp
  qed
  moreover have "sort_key ((!) (map of_bool bs :: nat list)) [0..<length bs]
      = filter (\<lambda>i. \<not> bs ! i) [0..<length bs] @ filter (\<lambda>i. bs ! i) [0..<length bs]"
  proof (rule properties_for_sort_key)
    show "mset (filter (\<lambda>i. \<not> bs ! i) [0..<length bs] @ filter (\<lambda>i. bs ! i) [0..<length bs]) = mset [0..<length bs]"
      by (simp only: mset_append mset_filter) (rule union_filter_mset_complement, simp)
    show "sorted (map ((!) (map of_bool bs :: nat list)) (filter (\<lambda>i. \<not> bs ! i) [0..<length bs] @ filter (\<lambda>i. bs ! i) [0..<length bs]))"
    proof -
      have "map ((!) (map of_bool bs :: nat list)) (filter (\<lambda>i. \<not> bs ! i) [0..<length bs]) = map (\<lambda>_. 0) (filter (\<lambda>i. \<not> bs ! i) [0..<length bs])"
        "map ((!) (map of_bool bs :: nat list)) (filter (\<lambda>i. bs ! i) [0..<length bs]) = map (\<lambda>_. 1) (filter (\<lambda>i. bs ! i) [0..<length bs])"
        by auto
      then show ?thesis unfolding map_append by (simp only: sorted_append map_replicate_const sorted_replicate) auto
    qed
    show "filter (\<lambda>x. map of_bool bs ! k = (map of_bool bs ! x :: nat)) (filter (\<lambda>i. \<not> bs ! i) [0..<length bs] @ filter (\<lambda>i. bs ! i) [0..<length bs])
        = filter (\<lambda>x. map of_bool bs ! k = (map of_bool bs ! x :: nat)) [0..<length bs]"
      if "k \<in> set (filter (\<lambda>i. \<not> bs ! i) [0..<length bs] @ filter (\<lambda>i. bs ! i) [0..<length bs])" for k
      using that by (cases "bs ! k") (auto intro!: filter_cong simp: filter_empty_conv of_bool_def split: if_splits)
  qed
  ultimately show ?thesis using perm by (simp add: assms(4))
qed

theorem bit_permutation_correct_witness:
  "map reconstruct (bit_permutation (sh_protocols (\<lambda>g i r. 3 :: fp31)) default_gate (map (\<lambda>b. share_known_value (of_bool b)) [True, False]))
     = map of_nat (sort_perm [1, 0])"
  using bit_permutation_correct [OF known_bits(1,2) _ example_mal_def, of "[True, False]" fp31_field default_gate]
  by (simp add: fp31_field_def fp31_prime_def)

end
