(* ===== verification/Sort.thy ===== *)
theory Sort
  imports Bit_Permutation
begin

text \<open>
  The sorting protocol: \<open>generate_permutation_opt\<close> (\<open>src/protocol/sort/generate_permutation_opt.rs\<close>), a
  radix sort whose digits are \<open>num_multi_bits\<close> bits of the shared keys, and
  \<open>generate_permutation_and_reveal_shuffled\<close> (\<open>sort/generate_permutation.rs\<close>). Every round runs under a
  validator of its own (\<open>src/protocol/context/validator.rs\<close>); a validator is given by the protocols of its
  context and the gate of that context. The MAC check that a malicious validator makes before
  it reveals is the subject of the theory on malicious security.
\<close>

subsection \<open>Validators\<close>

type_synonym ('s, 'v) ctx_validator = "('s, 'v) protocols \<times> gate"

definition sh_validator :: "'v::comm_ring_1 prss \<Rightarrow> gate \<Rightarrow> ('v AdditiveShare world, 'v) ctx_validator" where
  "sh_validator rnd g = (sh_protocols rnd, g)"

definition mal_validator ::
  "('v::comm_ring_1 \<Rightarrow> 'e::comm_ring_1) \<Rightarrow> 'v prss \<Rightarrow> 'e prss \<Rightarrow> gate \<Rightarrow> (('v, 'e) MaliciousShare world, 'v) ctx_validator" where
  "mal_validator ext rnd rnd_e g = (mal_protocols (upgraded_ctx ext rnd rnd_e g), narrow g ''malicious_protocol'')"

subsection \<open>The radix sort\<close>

text \<open>\<open>(start..end).step_by(step)\<close>, for a positive step; a step of zero panics at the call.\<close>

function step_by_range :: "nat \<Rightarrow> nat \<Rightarrow> nat \<Rightarrow> nat list" where
  "step_by_range start stop st = (if st = 0 \<or> start \<ge> stop then [] else start # step_by_range (start + st) stop st)"
  by pat_completeness auto
termination by (relation "measure (\<lambda>(start, stop, st). stop - start)") auto

declare step_by_range.simps [simp del]

definition sort_step :: "nat \<Rightarrow> string" where
  "sort_step i = ''sort'' @ show_nat i"

definition multi_apply_inv_step :: "nat \<Rightarrow> string" where
  "multi_apply_inv_step i = ''multi_apply_inv'' @ show_nat i"

fun sort_chunks ::
  "'v::comm_ring_1 prime_field_ops \<Rightarrow> (gate \<Rightarrow> ('s, 'v) ctx_validator) \<Rightarrow> ('x, unit) to_triples \<Rightarrow> shuffler \<Rightarrow> gate \<Rightarrow> 'x world list
     \<Rightarrow> nat \<Rightarrow> nat \<Rightarrow> (nat \<times> nat) list \<Rightarrow> ('s, 'v) ctx_validator \<Rightarrow> 's list \<Rightarrow> (('s, 'v) ctx_validator \<times> 's list) res option" where
  "sort_chunks F V T shuf sh_ctx sort_keys num_multi_bits max_bits [] malicious_validator composed = Some (Inr (malicious_validator, composed))"
| "sort_chunks F V T shuf sh_ctx sort_keys num_multi_bits max_bits ((chunk_num, chunk_start) # chunks) malicious_validator composed =
     bind_ro (shuffle_and_reveal_permutation F (fst malicious_validator) shuf
         (narrow (snd malicious_validator) ''shuffle_reveal_permutation'') composed) (\<lambda>rr.
     let malicious_validator = V (narrow sh_ctx (sort_step chunk_num));
         P = fst malicious_validator; m_ctx = snd malicious_validator;
         chunk = [chunk_start..<min (chunk_start + num_multi_bits) max_bits]
     in bind_ro (Some (sequence_res (convert_bits T F P (narrow m_ctx ''modulus_conversion'') sort_keys chunk))) (\<lambda>key_chunk.
        bind_ro (secureapplyinv_multi (bits_rs (share_rs P)) (randoms_for_shuffle rr) (revealed rr)
            (narrow m_ctx (multi_apply_inv_step chunk_num)) key_chunk) (\<lambda>next_few_bits_sorted.
        bind_ro (Some (multi_bit_permutation F P (narrow m_ctx ''bit_permutation'') next_few_bits_sorted)) (\<lambda>next_few_bits_permutation.
        bind_ro (compose (share_rs P) (randoms_for_shuffle rr) (revealed rr) (narrow m_ctx ''compose'') next_few_bits_permutation) (\<lambda>composed.
        sort_chunks F V T shuf sh_ctx sort_keys num_multi_bits max_bits chunks malicious_validator composed)))))"

definition generate_permutation_opt ::
  "'v::comm_ring_1 prime_field_ops \<Rightarrow> (gate \<Rightarrow> ('s, 'v) ctx_validator) \<Rightarrow> ('x, unit) to_triples \<Rightarrow> shuffler \<Rightarrow> gate \<Rightarrow> 'x world list
     \<Rightarrow> nat \<Rightarrow> nat \<Rightarrow> (('s, 'v) ctx_validator \<times> 's list) res option" where
  "generate_permutation_opt F V T shuf sh_ctx sort_keys num_multi_bits max_bits =
     (let malicious_validator = V sh_ctx; P = fst malicious_validator; m_ctx = snd malicious_validator in
      if sort_keys = [] then Some (Inr (malicious_validator, []))
      else
        bind_ro (Some (sequence_res (convert_bits T F P (narrow m_ctx ''modulus_conversion'') sort_keys [0..<min num_multi_bits max_bits]))) (\<lambda>key_chunk.
        bind_ro (Some (multi_bit_permutation F P (narrow m_ctx ''bit_permutation'') key_chunk)) (\<lambda>lsb_permutation.
        if num_multi_bits = 0 then Some (Inl Panic)
        else sort_chunks F V T shuf sh_ctx sort_keys num_multi_bits max_bits
          (enumerate 0 (step_by_range num_multi_bits max_bits num_multi_bits)) malicious_validator lsb_permutation)))"

definition generate_permutation_and_reveal_shuffled ::
  "'v::comm_ring_1 prime_field_ops \<Rightarrow> (gate \<Rightarrow> ('s, 'v) ctx_validator) \<Rightarrow> ('x, unit) to_triples \<Rightarrow> shuffler \<Rightarrow> gate \<Rightarrow> 'x world list
     \<Rightarrow> nat \<Rightarrow> nat \<Rightarrow> RevealedAndRandomPermutations res option" where
  "generate_permutation_and_reveal_shuffled F V T shuf sh_ctx sort_keys num_multi_bits max_bits =
     bind_ro (generate_permutation_opt F V T shuf (narrow sh_ctx ''sort_keys'') sort_keys num_multi_bits max_bits) (\<lambda>(validator, sort_permutation).
     shuffle_and_reveal_permutation F (fst validator) shuf (narrow (snd validator) ''shuffle_reveal_permutation'') sort_permutation)"

subsection \<open>Correctness\<close>

text \<open>The keys, up to bit \<open>a\<close>, as numbers.\<close>

definition key_values :: "(nat \<Rightarrow> bool) list \<Rightarrow> nat \<Rightarrow> nat list" where
  "key_values bs a = map (\<lambda>b. bits_nat (map b [0..<a])) bs"

lemma length_key_values [simp]: "length (key_values bs a) = length bs"
  by (simp add: key_values_def)

lemma key_values_extend:
  assumes "a \<le> a'"
  shows "key_values bs a' = map2 (\<lambda>l h. l + 2 ^ a * h) (key_values bs a) (map bits_nat (map (\<lambda>b. map b [a..<a']) bs))"
proof -
  have "[0..<a'] = [0..<a] @ [a..<a']" using assms upt_add_eq_append [of 0 a "a' - a"] by simp
  then show ?thesis by (intro nth_equalityI) (simp_all add: key_values_def bits_nat_append)
qed

lemma key_values_less: "\<forall>l \<in> set (key_values bs a). l < 2 ^ a"
  using bits_nat_less by (auto simp: key_values_def) (metis length_map diff_zero length_upt)

lemma sequence_res_list_all2_Inr:
  "list_all2 (\<lambda>x out. \<exists>y. out = Inr y \<and> Q x y) xs outs \<Longrightarrow> \<exists>ys. sequence_res outs = Inr ys \<and> list_all2 Q xs ys"
  by (induction rule: list_all2_induct) auto

context mpc
begin

lemma convert_bits_ok:
  assumes "prime_field F" and "length is \<le> 64" and "list_all2 (shares_bits T is) bs vs"
  shows "\<exists>rows. sequence_res (convert_bits T F P g vs is) = Inr rows \<and> list_all2 (list_all2 is_bit) (map (\<lambda>b. map b is) bs) rows"
proof -
  have len: "length bs = length vs" using assms(3) by (rule list_all2_lengthD)
  have "list_all2 (\<lambda>p out. \<exists>y. out = Inr y \<and> list_all2 is_bit (map (fst p) is) y) (zip bs vs) (convert_bits T F P g vs is)"
    unfolding convert_bits_def list_all2_map2
    by (rule list_all2_mono [OF convert_some_bits_ok [OF assms, of g 0]]) auto
  from sequence_res_list_all2_Inr [OF this] show ?thesis
    using len by (auto simp: list_all2_conv_all_nth)
qed

lemma is_bitsI:
  assumes "list_all (list_all ok) ys" and "map (map val) ys = map (map of_bool) bss"
  shows "list_all2 (list_all2 is_bit) bss ys"
proof -
  have row: "list_all2 is_bit bs y" if "list_all ok y" "map val y = map of_bool bs" for bs y
    using that
  proof (induction y arbitrary: bs)
    case (Cons x y)
    then show ?case by (cases bs) (auto simp: is_bit_def)
  qed simp
  show ?thesis using assms
  proof (induction ys arbitrary: bss)
    case (Cons y ys)
    then show ?case by (cases bss) (auto simp: row)
  qed simp
qed

lemma is_bits_content: "list_all2 (list_all2 is_bit) bss rows \<Longrightarrow> map (map val) rows = map (map of_bool) bss"
proof (induction rule: list_all2_induct)
  case (Cons bs bss row rows)
  from Cons(1) have "map val row = map of_bool bs"
    by (induction rule: list_all2_induct) (auto simp: is_bit_def)
  with Cons show ?case by simp
qed simp

lemma sort_round_ok:
  assumes "prime_field F" and "list_all2 (shares_bits T [a..<a']) bs keys" and "a < a'" and "a' \<le> a + 6"
    and "length keys < PRIME F" and "perms_agree (length keys) \<pi> perms"
  shows "\<exists>key_chunk next np composed. sequence_res (convert_bits T F P g1 keys [a..<a']) = Inr key_chunk
    \<and> secureapplyinv_multi (bits_rs (share_rs P)) perms (shuffled \<pi> (sort_perm (key_values bs a))) g2 key_chunk = Some (Inr next)
    \<and> multi_bit_permutation F P g3 next = Inr np
    \<and> compose (share_rs P) perms (shuffled \<pi> (sort_perm (key_values bs a))) g4 np = Some (Inr composed)
    \<and> list_all ok composed \<and> map val composed = map of_nat (sort_perm (key_values bs a'))"
proof -
  let ?lo = "key_values bs a" and ?digits = "map (\<lambda>b. map b [a..<a']) bs" and ?n = "length keys"
  let ?s = "sort_perm ?lo"
  have len: "length bs = ?n" using assms(2) by (rule list_all2_lengthD)
  have s: "is_perm ?n ?s" using is_perm_sort_perm [of ?lo] len by simp
  have six: "a' - a \<le> 6" and small: "length [a..<a'] \<le> 64" using assms(4) by simp_all
  obtain rows where rows: "sequence_res (convert_bits T F P g1 keys [a..<a']) = Inr rows" "list_all2 (list_all2 is_bit) ?digits rows"
    using convert_bits_ok [OF assms(1) small assms(2)] by blast
  have lrows: "length rows = ?n" using list_all2_lengthD [OF rows(2)] len by simp
  have good: "list_all (\<lambda>xs. list_all ok xs \<and> length xs = a' - a \<and> a' - a \<le> 64) rows"
    using rows(2) assms(4) by (auto simp: list_all2_conv_all_nth list_all_length is_bit_def)
  obtain ys where ys: "secureapplyinv_multi (bits_rs (share_rs P)) perms (shuffled \<pi> ?s) g2 rows = Some (Inr ys)"
      "list_all (\<lambda>xs. list_all ok xs \<and> length xs = a' - a \<and> a' - a \<le> 64) ys" "map (map val) ys = unpermute ?s (map (map val) rows)"
    using bitvec.secureapplyinv_multi_ok [OF _ good, of \<pi> perms ?s g2] assms(6) s lrows by auto
  have "map (map val) ys = map (map of_bool) (unpermute ?s ?digits)"
    unfolding ys(3) is_bits_content [OF rows(2)] using s len by (intro unpermute_map) simp
  then have bits: "list_all2 (list_all2 is_bit) (unpermute ?s ?digits) ys"
    using ys(2) by (intro is_bitsI) (auto simp: list_all_iff)
  have "set (unpermute ?s ?digits) = set ?digits"
    using mset_permute [OF is_perm_inv [of "length ?digits"], of ?s] s len unfolding unpermute_def by (metis length_map set_mset_mset)
  then have lens: "\<forall>bs \<in> set (unpermute ?s ?digits). length bs = a' - a" by auto
  have lys: "length ys = ?n" using list_all2_lengthD [OF bits] len by simp
  obtain np where np: "multi_bit_permutation F P g3 ys = Inr np" "list_all ok np"
      "map val np = map of_nat (sort_perm (map bits_nat (unpermute ?s ?digits)))"
    using multi_bit_permutation_ok [OF bits lens, of F g3] six assms(3,5) lys by auto
  have lnp: "length np = ?n" using arg_cong [OF np(3), of length] len by simp
  obtain cs where cs: "compose (share_rs P) perms (shuffled \<pi> ?s) g4 np = Some (Inr cs)" "list_all ok cs"
      "map val cs = permute ?s (map val np)"
    using share.compose_ok [OF _ np(2), of \<pi> perms ?s g4] assms(6) s lnp by auto
  have "map bits_nat (unpermute ?s ?digits) = unpermute ?s (map bits_nat ?digits)"
    using s len by (intro unpermute_map [symmetric]) simp
  then have "map val cs = map of_nat (permute ?s (sort_perm (unpermute ?s (map bits_nat ?digits))))"
    unfolding cs(3) np(3) using s len by (simp add: permute_map)
  also have "permute ?s (sort_perm (unpermute ?s (map bits_nat ?digits))) = sort_perm (key_values bs a')"
    unfolding key_values_extend [OF less_imp_le [OF assms(3)]] by (rule sort_perm_radix) (use key_values_less in auto)
  finally show ?thesis using rows(1) ys(1) np(1) cs(1,2) by blast
qed

end

text \<open>The contract of a family of validators: the context of each is a protocol suite.\<close>

locale validators =
  fixes V :: "gate \<Rightarrow> ('s, 'v::comm_ring_1) ctx_validator"
    and val :: "'s \<Rightarrow> 'v"
    and ok :: "gate \<Rightarrow> 's \<Rightarrow> bool"
    and zp :: "ZeroPositions \<Rightarrow> 's \<Rightarrow> bool"
  assumes context_mpc: "mpc (fst (V g)) val (ok g) zp"
begin

lemma sort_chunks_ok:
  assumes "prime_field F" and "shuffles shuf" and "list_all2 (shares_bits T [0..<max_bits]) bs keys"
    and "0 < n" and "n \<le> 6" and "length keys < PRIME F" and "length keys < 2 ^ 32"
    and "list_all (ok gv) perm" and "map val perm = map of_nat (sort_perm (key_values bs (min a max_bits)))"
  shows "\<exists>gv' out. sort_chunks F V T shuf g keys n max_bits (enumerate k (step_by_range a max_bits n)) (V gv) perm = Some (Inr (V gv', out))
    \<and> list_all (ok gv') out \<and> map val out = map of_nat (sort_perm (key_values bs max_bits))"
  using assms(8,9)
proof (induction "max_bits - a" arbitrary: a k gv perm rule: less_induct)
  case less
  show ?case
  proof (cases "a < max_bits")
    case False
    then show ?thesis using less.prems by (subst step_by_range.simps) (auto simp: min_absorb2)
  next
    case True
    let ?a' = "min (a + n) max_bits" and ?g = "narrow g (sort_step k)"
    have len: "length bs = length keys" "length perm = length keys"
      using list_all2_lengthD [OF assms(3)] arg_cong [OF less.prems(2), of length] by simp_all
    have perm: "map val perm = map of_nat (sort_perm (key_values bs a))" "is_perm (length perm) (sort_perm (key_values bs a))"
      using less.prems(2) True is_perm_sort_perm [of "key_values bs a"] len by (simp_all add: min_absorb1)
    obtain \<pi> perms where rr: "perms_agree (length perm) \<pi> perms"
        "shuffle_and_reveal_permutation F (fst (V gv)) shuf (narrow (snd (V gv)) ''shuffle_reveal_permutation'') perm
           = Some (Inr \<lparr>revealed = shuffled \<pi> (sort_perm (key_values bs a)), randoms_for_shuffle = perms\<rparr>)"
      using mpc.shuffle_and_reveal_ok [OF context_mpc assms(1,2) less.prems(1) perm,
          where g = "narrow (snd (V gv)) ''shuffle_reveal_permutation''"] assms(6,7) len by auto
    have chunk: "list_all2 (shares_bits T [a..<?a']) bs keys"
      using assms(3) by (rule list_all2_mono) (auto simp: shares_bits_def)
    have a': "a < ?a'" "?a' \<le> a + 6" using True assms(4,5) by auto
    obtain key_chunk next_bits np composed where round:
        "sequence_res (convert_bits T F (fst (V ?g)) (narrow (snd (V ?g)) ''modulus_conversion'') keys [a..<?a']) = Inr key_chunk"
        "secureapplyinv_multi (bits_rs (share_rs (fst (V ?g)))) perms (shuffled \<pi> (sort_perm (key_values bs a)))
           (narrow (snd (V ?g)) (multi_apply_inv_step k)) key_chunk = Some (Inr next_bits)"
        "multi_bit_permutation F (fst (V ?g)) (narrow (snd (V ?g)) ''bit_permutation'') next_bits = Inr np"
        "compose (share_rs (fst (V ?g))) perms (shuffled \<pi> (sort_perm (key_values bs a))) (narrow (snd (V ?g)) ''compose'') np
           = Some (Inr composed)"
        "list_all (ok ?g) composed" "map val composed = map of_nat (sort_perm (key_values bs ?a'))"
      using mpc.sort_round_ok [OF context_mpc assms(1) chunk a' assms(6)] rr(1) len by metis
    have "sort_chunks F V T shuf g keys n max_bits (enumerate k (step_by_range a max_bits n)) (V gv) perm
        = sort_chunks F V T shuf g keys n max_bits (enumerate (Suc k) (step_by_range (a + n) max_bits n)) (V ?g) composed"
      using True assms(4) by (subst step_by_range.simps) (simp add: rr(2) round Let_def)
    then show ?thesis using less.hyps [OF _ round(5), of "a + n" "Suc k"] round(6) True assms(4) by auto
  qed
qed

lemma generate_permutation_opt_ok:
  assumes "prime_field F" and "shuffles shuf" and "list_all2 (shares_bits T [0..<max_bits]) bs keys"
    and "0 < n" and "n \<le> 6" and "0 < max_bits" and "length keys < PRIME F" and "length keys < 2 ^ 32"
  shows "\<exists>gv out. generate_permutation_opt F V T shuf g keys n max_bits = Some (Inr (V gv, out))
    \<and> list_all (ok gv) out \<and> map val out = map of_nat (sort_perm (key_values bs max_bits))"
proof (cases "keys = []")
  case True
  then show ?thesis using assms(3) by (auto simp: generate_permutation_opt_def key_values_def sort_perm_def)
next
  case False
  let ?m = "min n max_bits"
  have six: "?m \<le> 6" and small: "length [0..<?m] \<le> 64" using assms(5) by simp_all
  have "list_all2 (shares_bits T [0..<?m]) bs keys"
    using assms(3) by (rule list_all2_mono) (auto simp: shares_bits_def)
  then obtain rows where rows: "sequence_res (convert_bits T F (fst (V g)) (narrow (snd (V g)) ''modulus_conversion'') keys [0..<?m]) = Inr rows"
      "list_all2 (list_all2 (mpc.is_bit val (ok g))) (map (\<lambda>b. map b [0..<?m]) bs) rows"
    using mpc.convert_bits_ok [OF context_mpc assms(1) small] by blast
  then have "length rows = length keys" using list_all2_lengthD [OF assms(3)] by (auto dest: list_all2_lengthD)
  then obtain lsb where lsb: "multi_bit_permutation F (fst (V g)) (narrow (snd (V g)) ''bit_permutation'') rows = Inr lsb"
      "list_all (ok g) lsb" "map val lsb = map of_nat (sort_perm (key_values bs ?m))"
    using mpc.multi_bit_permutation_ok [OF context_mpc rows(2), of ?m F "narrow (snd (V g)) ''bit_permutation''"] six assms(4,6,7)
    by (auto simp: key_values_def o_def)
  show ?thesis
    using sort_chunks_ok [OF assms(1-5,7,8) lsb(2,3), of g 0] False assms(4)
    by (simp add: generate_permutation_opt_def Let_def rows(1) lsb(1))
qed

lemma generate_and_reveal_ok:
  assumes "prime_field F" and "shuffles shuf" and "list_all2 (shares_bits T [0..<max_bits]) bs keys"
    and "0 < n" and "n \<le> 6" and "0 < max_bits" and "length keys < PRIME F" and "length keys < 2 ^ 32"
  shows "\<exists>\<pi> perms. perms_agree (length keys) \<pi> perms
    \<and> generate_permutation_and_reveal_shuffled F V T shuf g keys n max_bits
      = Some (Inr \<lparr>revealed = shuffled \<pi> (sort_perm (key_values bs max_bits)), randoms_for_shuffle = perms\<rparr>)"
proof -
  obtain gv out where out: "generate_permutation_opt F V T shuf (narrow g ''sort_keys'') keys n max_bits = Some (Inr (V gv, out))"
      "list_all (ok gv) out" "map val out = map of_nat (sort_perm (key_values bs max_bits))"
    using generate_permutation_opt_ok [OF assms] by blast
  have len: "length out = length keys" "length bs = length keys"
    using list_all2_lengthD [OF assms(3)] arg_cong [OF out(3), of length] by simp_all
  have "is_perm (length out) (sort_perm (key_values bs max_bits))"
    using is_perm_sort_perm [of "key_values bs max_bits"] len by simp
  from mpc.shuffle_and_reveal_ok [OF context_mpc assms(1,2) out(2,3) this, of "narrow (snd (V gv)) ''shuffle_reveal_permutation''"]
  show ?thesis using out(1) len assms(7,8) by (simp add: generate_permutation_and_reveal_shuffled_def)
qed

end

interpretation sh_v: validators "sh_validator rnd" reconstruct "\<lambda>_. consistent" zeros_match for rnd
  by (rule validators.intro) (simp add: sh_validator_def sh.mpc_axioms)

interpretation mal_v: validators "mal_validator prime_to_extended rnd rnd_e" mal_value
    "\<lambda>g. mac_valid (upgraded_ctx prime_to_extended rnd rnd_e g)" mal_zeros
  for rnd rnd_e :: "'v::comm_ring_1 prss"
  by (rule validators.intro) (simp add: mal_validator_def mal_prime.mpc_axioms)

subsection \<open>Properties\<close>

text \<open>C1: The sort: for keys of any number of records shared bitwise, with up to six bits sorted at a
  time, semi-honest and malicious helpers generate, for all randomness, a permutation in shuffled form
  that, applied to a shared vector, yields a sharing of that vector stably sorted by the keys.\<close>

theorem sort_correct:
  assumes "prime_field F" and "shuffles shuf" and "list_all2 (shares_bits T [0..<max_bits]) bs keys"
    and "0 < num_multi_bits" and "num_multi_bits \<le> 6" and "0 < max_bits"
    and "length keys < PRIME F" and "length keys < 2 ^ 32"
    and "list_all consistent xs" and "length xs = length keys"
    and "V = sh_validator rnd" and "VM = mal_validator prime_to_extended rnd rnd_e"
  shows "\<exists>rr ys rr' ys'. generate_permutation_and_reveal_shuffled F V T shuf g keys num_multi_bits max_bits = Some (Inr rr)
    \<and> apply_sort_permutation (share_rs (sh_protocols rnd)) rr g' xs = Some (Inr ys)
    \<and> generate_permutation_and_reveal_shuffled F VM T shuf g keys num_multi_bits max_bits = Some (Inr rr')
    \<and> apply_sort_permutation (share_rs (sh_protocols rnd)) rr' g' xs = Some (Inr ys')
    \<and> list_all consistent (ys @ ys') \<and> map reconstruct ys = map reconstruct ys'
    \<and> map reconstruct ys = map (\<lambda>i. reconstruct (xs ! i)) (sort_key ((!) (key_values bs max_bits)) [0..<length keys])"
proof -
  let ?ks = "key_values bs max_bits"
  have len: "length ?ks = length keys" using list_all2_lengthD [OF assms(3)] by simp
  have sp: "is_perm (length xs) (sort_perm ?ks)" using is_perm_sort_perm [of ?ks] len assms(10) by simp
  have "unpermute (sort_perm ?ks) (map reconstruct xs) = map ((!) (map reconstruct xs)) (sort_key ((!) ?ks) [0..<length keys])"
    using unpermute_sort_perm [of "map reconstruct xs" ?ks] len assms(10) by simp
  also have "\<dots> = map (\<lambda>i. reconstruct (xs ! i)) (sort_key ((!) ?ks) [0..<length keys])"
    using assms(10) by (intro map_cong) (simp_all add: set_sort)
  finally have sorted: "unpermute (sort_perm ?ks) (map reconstruct xs) = map (\<lambda>i. reconstruct (xs ! i)) (sort_key ((!) ?ks) [0..<length keys])" .
  obtain \<pi> perms where a: "perms_agree (length xs) \<pi> perms"
      "generate_permutation_and_reveal_shuffled F V T shuf g keys num_multi_bits max_bits
        = Some (Inr \<lparr>revealed = shuffled \<pi> (sort_perm ?ks), randoms_for_shuffle = perms\<rparr>)"
    unfolding assms(10,11) using sh_v.generate_and_reveal_ok [OF assms(1-8)] by blast
  obtain \<pi>' perms' where b: "perms_agree (length xs) \<pi>' perms'"
      "generate_permutation_and_reveal_shuffled F VM T shuf g keys num_multi_bits max_bits
        = Some (Inr \<lparr>revealed = shuffled \<pi>' (sort_perm ?ks), randoms_for_shuffle = perms'\<rparr>)"
    unfolding assms(10,12) using mal_v.generate_and_reveal_ok [OF assms(1-8)] by blast
  from sh.share.apply_sort_permutation_ok [OF a(1) assms(9) sp, of rnd g'] sh.share.apply_sort_permutation_ok [OF b(1) assms(9) sp, of rnd g']
  show ?thesis unfolding a(2) b(2) sorted by auto
qed

definition example_keys :: "u8 AdditiveShare world list" where
  "example_keys = [example_gf8_share, by_role (AdditiveShare 1 0) (AdditiveShare 0 4) (AdditiveShare 4 1)]"

definition example_values :: "fp31 AdditiveShare world list" where
  "example_values = [by_role (AdditiveShare 4 5) (AdditiveShare 5 1) (AdditiveShare 1 4), by_role (AdditiveShare 7 7) (AdditiveShare 7 6) (AdditiveShare 6 7)]"

theorem sort_correct_witness:
  "\<exists>rr ys. generate_permutation_and_reveal_shuffled fp31_field (sh_validator (\<lambda>g i r. 3)) (gf_triples gf8bit) (\<lambda>g r. rev) default_gate
      example_keys 3 8 = Some (Inr rr)
    \<and> apply_sort_permutation (share_rs (sh_protocols (\<lambda>g i r. 3))) rr default_gate example_values = Some (Inr ys)
    \<and> map reconstruct ys = [20, 10]"
proof -
  let ?bs = "[bit (7 :: u8), bit (5 :: u8)]"
  have "shares_bits (gf_triples gf8bit) [0..<8] (bit (left (s H1) XOR left (s H2) XOR left (s H3))) s" if "consistent s" for s :: "u8 AdditiveShare world"
    using that by (rule gf_triples_shares_bits) (simp add: gf8bit_def)
  from this [OF example_gf8_share_simps(1)] this [of "example_keys ! 1"]
  have keys: "list_all2 (shares_bits (gf_triples gf8bit) [0..<8]) ?bs example_keys"
    by (simp add: example_keys_def example_gf8_share_simps(2) by_role_def consistent_def)
  have "key_values ?bs 8 = [7, 5]"
    by (simp add: key_values_def upt_rec bit_numeral_rec)
  then have "map (\<lambda>i. reconstruct (example_values ! i)) (sort_key ((!) (key_values ?bs 8)) [0..<length example_keys]) = [20, 10]"
    by (simp add: example_keys_def example_values_def reconstruct_def by_role_def upt_rec)
  moreover have len: "length example_keys = 2" "length example_values = 2" "2 < PRIME fp31_field"
    by (simp_all add: example_keys_def example_values_def fp31_field_def fp31_prime_def)
  moreover have "list_all consistent example_values" "shuffles (\<lambda>g r. rev)"
    by (simp_all add: example_values_def by_role_def consistent_def shuffles_def)
  ultimately show ?thesis
    using sort_correct [OF fp31.prime_field_axioms _ keys _ _ _ _ _ _ _ refl refl, 
        where shuf = "\<lambda>g r. rev" and num_multi_bits = 3 and xs = example_values and rnd = "\<lambda>g i r. 3" and g = default_gate and g' = default_gate]
    by (fastforce simp: len)
qed

end
