(* ===== verification/Share_Wire.thy ===== *)
theory Share_Wire
  imports Secret_Sharing
begin

text \<open>
  The wire format of shared values and of shares, the trait \<open>Serializable\<close> of \<open>src/ff/mod.rs\<close>
  and its implementations. A dictionary \<open>wire\<close> holds the size and the two functions of an
  implementation; \<open>GenericArray::from_slice\<close> panics when a slice has not the size of its type.
  The locale \<open>wire_format\<close> is the contract that the collections of shares rely on.
\<close>

record 'v wire =
  wire_size :: nat
  serialize :: "'v \<Rightarrow> u8 list"
  deserialize :: "u8 list \<Rightarrow> 'v res"

text \<open>\<open>deserialize\<close> behind \<open>GenericArray::from_slice\<close>.\<close>

definition deserialize_slice :: "'v wire \<Rightarrow> u8 list \<Rightarrow> 'v res" where
  "deserialize_slice w buf =
     (if length buf \<noteq> wire_size w then Inl Panic else deserialize w buf)"

subsection \<open>Shared values\<close>

definition fp31_wire :: "fp31 wire" where
  "fp31_wire = \<lparr>wire_size = 1, serialize = (\<lambda>a. fp_serialize (fp31_raw a)),
     deserialize = (\<lambda>buf. bind_res (fp_deserialize fp31_prime buf) (\<lambda>v. Inr (Fp31 v)))\<rparr>"

definition fp32bit_wire :: "fp32bit wire" where
  "fp32bit_wire = \<lparr>wire_size = 4, serialize = (\<lambda>a. fp_serialize (fp32bit_raw a)),
     deserialize = (\<lambda>buf. bind_res (fp_deserialize fp32bit_prime buf) (\<lambda>v. Inr (Fp32BitPrime v)))\<rparr>"

definition gf_wire :: "'w::len word wire" where
  "gf_wire = \<lparr>wire_size = LENGTH('w) div 8, serialize = gf_serialize,
     deserialize = (\<lambda>buf. Inr (gf_deserialize buf))\<rparr>"

subsection \<open>Shares\<close>

definition share_wire :: "'v wire \<Rightarrow> 'v AdditiveShare wire" where
  "share_wire w =
     \<lparr>wire_size = wire_size w + wire_size w,
      serialize = (\<lambda>s. serialize w (left s) @ serialize w (right s)),
      deserialize = (\<lambda>buf.
        bind_res (deserialize_slice w (take (wire_size w) buf)) (\<lambda>l.
        bind_res (deserialize_slice w (drop (wire_size w) buf)) (\<lambda>r.
        Inr (AdditiveShare l r))))\<rparr>"

text \<open>The malicious share reads \<open>rx\<close> from the offset \<open>Size\<close> of the share of the extended
  field, while \<open>serialize\<close> writes it at the offset \<open>Size\<close> of the share of the field.\<close>

definition mal_wire :: "'v wire \<Rightarrow> 'e wire \<Rightarrow> ('v, 'e) MaliciousShare wire" where
  "mal_wire w we =
     \<lparr>wire_size = wire_size (share_wire w) + wire_size (share_wire we),
      serialize = (\<lambda>s. serialize (share_wire w) (x_share s) @ serialize (share_wire we) (rx_share s)),
      deserialize = (\<lambda>buf.
        bind_res (deserialize_slice (share_wire w) (take (wire_size (share_wire w)) buf)) (\<lambda>xs.
        bind_res (deserialize_slice (share_wire we) (drop (wire_size (share_wire we)) buf)) (\<lambda>rxs.
        Inr (MaliciousShare xs rxs))))\<rparr>"

text \<open>The malicious share over \<open>Gf2\<close>, a bit in a store of one byte, and its extended field
  \<open>Gf32Bit\<close>.\<close>

definition gf2_mal_wire :: "(8 word, 32 word) MaliciousShare wire" where
  "gf2_mal_wire = mal_wire gf_wire gf_wire"

text \<open>\<open>from_byte_slice\<close>: the slice is cut with \<open>chunks\<close>, whose last chunk may be shorter.\<close>

function chunks :: "nat \<Rightarrow> 'a list \<Rightarrow> 'a list list" where
  "chunks n xs = (if n = 0 \<or> xs = [] then [] else take n xs # chunks n (drop n xs))"
  by pat_completeness auto
termination by (relation "measure (\<lambda>(n, xs). length xs)") auto

declare chunks.simps [simp del]

definition from_byte_slice :: "'v wire \<Rightarrow> u8 list \<Rightarrow> 'v AdditiveShare list res" where
  "from_byte_slice w buf =
     (if length buf mod wire_size (share_wire w) \<noteq> 0 then Inl Panic
      else sequence_res (map (deserialize_slice (share_wire w)) (chunks (wire_size (share_wire w)) buf)))"

subsection \<open>The contract\<close>

locale wire_format =
  fixes w :: "'v wire"
  assumes serialize_length: "length (serialize w v) = wire_size w"
    and deserialize_serialize: "deserialize w (serialize w v) = Inr v"
    and size_pos: "0 < wire_size w"
begin

lemma deserialize_slice_serialize: "deserialize_slice w (serialize w v) = Inr v"
  by (simp add: deserialize_slice_def serialize_length deserialize_serialize)

lemma chunks_serialized: "chunks (wire_size w) (concat (map (serialize w) vs)) = map (serialize w) vs"
proof (induction vs)
  case (Cons v vs)
  then show ?case
    by (subst chunks.simps) (use size_pos serialize_length [of v] in auto)
qed (simp add: chunks.simps)

lemma length_serialized: "length (concat (map (serialize w) vs)) = length vs * wire_size w"
  by (induction vs) (simp_all add: serialize_length)

end

locale replicated_wire = wire_format

sublocale replicated_wire \<subseteq> share: wire_format "share_wire w"
  by unfold_locales
    (simp_all add: share_wire_def serialize_length deserialize_slice_serialize size_pos)

context replicated_wire
begin

lemma from_byte_slice_serialize:
  "from_byte_slice w (concat (map (serialize (share_wire w)) ss)) = Inr ss"
proof -
  have "sequence_res (map (deserialize_slice (share_wire w) \<circ> serialize (share_wire w)) ss) = Inr ss"
    by (induction ss) (simp_all add: share.deserialize_slice_serialize)
  then show ?thesis
    by (simp add: from_byte_slice_def share.length_serialized share.chunks_serialized)
qed

end

locale malicious_wire = field: replicated_wire w + extended: replicated_wire we
  for w :: "'v wire" and we :: "'e wire" +
  assumes same_size: "wire_size w = wire_size we"

sublocale malicious_wire \<subseteq> mal: wire_format "mal_wire w we"
proof -
  have [simp]: "wire_size (share_wire w) = wire_size (share_wire we)"
    using same_size by (simp add: share_wire_def)
  show "wire_format (mal_wire w we)"
    by unfold_locales
      (use field.share.serialize_length extended.share.serialize_length extended.share.size_pos in
       \<open>simp_all add: mal_wire_def field.share.deserialize_slice_serialize
          extended.share.deserialize_slice_serialize\<close>)
qed

subsection \<open>The fields of the code meet the contract\<close>

interpretation fp31_wire: malicious_wire fp31_wire fp31_wire
  by unfold_locales
    (use fp31_raw in \<open>auto simp: fp31_wire_def fp31_prime_def fp_deserialize_serialize length_fp_serialize fp31_raw_inverse\<close>)

interpretation fp32bit_wire: malicious_wire fp32bit_wire fp32bit_wire
  by unfold_locales
    (use fp32bit_raw in \<open>auto simp: fp32bit_wire_def fp32bit_prime_def fp_deserialize_serialize length_fp_serialize fp32bit_raw_inverse\<close>)

interpretation gf8_wire: malicious_wire "gf_wire :: 8 word wire" "gf_wire :: 8 word wire"
  by unfold_locales (simp_all add: gf_wire_def gf_deserialize_serialize length_gf_serialize)

interpretation gf32_wire: malicious_wire "gf_wire :: 32 word wire" "gf_wire :: 32 word wire"
  by unfold_locales (simp_all add: gf_wire_def gf_deserialize_serialize length_gf_serialize)

interpretation gf40_wire: malicious_wire "gf_wire :: 40 word wire" "gf_wire :: 40 word wire"
  by unfold_locales (simp_all add: gf_wire_def gf_deserialize_serialize length_gf_serialize)

subsection \<open>Properties\<close>

text \<open>C18: Any batch of replicated shares over a field of the code that is written to a byte
  stream one share after the other is read back unchanged by \<open>from_byte_slice\<close>.\<close>

theorem from_byte_slice_roundtrip:
  "from_byte_slice fp31_wire (concat (map (serialize (share_wire fp31_wire)) s31)) = Inr s31
    \<and> from_byte_slice fp32bit_wire (concat (map (serialize (share_wire fp32bit_wire)) s32)) = Inr s32
    \<and> from_byte_slice gf_wire (concat (map (serialize (share_wire gf_wire)) g8)) = Inr (g8 :: 8 word AdditiveShare list)
    \<and> from_byte_slice gf_wire (concat (map (serialize (share_wire gf_wire)) g32)) = Inr (g32 :: 32 word AdditiveShare list)
    \<and> from_byte_slice gf_wire (concat (map (serialize (share_wire gf_wire)) g40)) = Inr (g40 :: 40 word AdditiveShare list)"
  by (intro conjI fp31_wire.field.from_byte_slice_serialize fp32bit_wire.field.from_byte_slice_serialize
      gf8_wire.field.from_byte_slice_serialize gf32_wire.field.from_byte_slice_serialize
      gf40_wire.field.from_byte_slice_serialize)

text \<open>C19: A malicious share over a prime field is read back unchanged. One over \<open>Gf2\<close>, whose
  extended field \<open>Gf32Bit\<close> has a longer representation, never is: \<open>deserialize\<close> takes \<open>rx\<close>
  from the offset that is the size of the extended share, and panics on every buffer that
  \<open>serialize\<close> writes.\<close>

theorem malicious_share_wire:
  "deserialize (mal_wire fp31_wire fp31_wire) (serialize (mal_wire fp31_wire fp31_wire) s) = Inr s
    \<and> deserialize (mal_wire fp32bit_wire fp32bit_wire) (serialize (mal_wire fp32bit_wire fp32bit_wire) t) = Inr t
    \<and> deserialize gf2_mal_wire (serialize gf2_mal_wire g) = Inl Panic"
proof (intro conjI fp31_wire.mal.deserialize_serialize fp32bit_wire.mal.deserialize_serialize)
  have "length (serialize gf2_mal_wire g) = 10"
    using gf8_wire.field.share.serialize_length [of "x_share g"]
      gf32_wire.field.share.serialize_length [of "rx_share g"]
    by (simp add: gf2_mal_wire_def mal_wire_def share_wire_def gf_wire_def)
  moreover have "deserialize gf2_mal_wire buf = Inl Panic" if "length buf = 10" for buf
    using that
    by (simp add: gf2_mal_wire_def mal_wire_def deserialize_slice_def share_wire_def gf_wire_def)
  ultimately show "deserialize gf2_mal_wire (serialize gf2_mal_wire g) = Inl Panic" by simp
qed

end
