(* ===== verification/Ordering_Sender.thy ===== *)
theory Ordering_Sender
  imports Ipa_Errors "HOL-Library.Sublist"
begin

text \<open>
  The sending end of a channel, \<open>src/helpers/buffers/ordering_sender.rs\<close>: messages may be sent in any order and
  from many tasks, and come out of the stream in the order of their indices. The operations on the
  byte buffer (\<open>State\<close>) and on the saved wakers (\<open>WaitingShard\<close>, \<open>Waiting\<close>) run under a mutex and are
  functions here. The polls of \<open>Send\<close>, \<open>Close\<close> and of the stream are not atomic: each is split into the
  actions it makes on the shared state (the load of \<open>next\<close>, the critical sections, \<open>fetch_add\<close>), and the actions
  of all tasks interleave in any order. A waker is the identity of its task; waking a task marks it
  as notified, and the executor polls notified tasks again.
\<close>

subsection \<open>Polls and wakers\<close>

datatype 'a poll = Pending | Ready 'a

datatype waker = Writer nat | Reader

definition opt_list :: "'a option \<Rightarrow> 'a list" where
  "opt_list v = (case v of None \<Rightarrow> [] | Some w \<Rightarrow> [w])"

subsection \<open>The buffer\<close>

record State =
  st_buf :: "u8 list"
  st_spare :: nat
  st_written :: nat
  st_closed :: bool
  st_write_ready :: "waker option"
  st_stream_ready :: "waker option"

definition state_new :: "nat \<Rightarrow> nat \<Rightarrow> State" where
  "state_new capacity spare =
     \<lparr>st_buf = replicate (capacity + spare) 0, st_spare = spare, st_written = 0, st_closed = False,
      st_write_ready = None, st_stream_ready = None\<rparr>"

text \<open>Every operation returns the wakers it wakes as the last component.\<close>

definition state_write :: "u8 list \<Rightarrow> waker \<Rightarrow> State \<Rightarrow> (unit poll \<times> State \<times> waker list) res" where
  "state_write m cx s =
     (if \<not> length m < st_spare s then Inl Panic
      else if st_written s > length (st_buf s) then Inl Panic
      else if length m \<le> length (st_buf s) - st_written s then
        let s' = s\<lparr>st_written := st_written s + length m,
                   st_buf := take (st_written s) (st_buf s) @ m @ drop (st_written s + length m) (st_buf s)\<rparr>
        in if st_written s' + st_spare s' \<ge> length (st_buf s')
           then Inr (Ready (), s'\<lparr>st_stream_ready := None\<rparr>, opt_list (st_stream_ready s'))
           else Inr (Ready (), s', [])
      else Inr (Pending, s\<lparr>st_write_ready := Some cx\<rparr>, []))"

definition can_take :: "State \<Rightarrow> bool" where
  "can_take s \<longleftrightarrow> st_written s > 0 \<and> (st_written s + st_spare s \<ge> length (st_buf s) \<or> st_closed s)"

definition state_take :: "waker \<Rightarrow> State \<Rightarrow> u8 list poll \<times> State \<times> waker list" where
  "state_take cx s =
     (if can_take s then
        (Ready (take (st_written s) (st_buf s)), s\<lparr>st_written := 0, st_write_ready := None\<rparr>, opt_list (st_write_ready s))
      else (Pending, s\<lparr>st_stream_ready := Some cx\<rparr>, []))"

definition state_close :: "State \<Rightarrow> (State \<times> waker list) res" where
  "state_close s =
     (if st_closed s then Inl Panic
      else Inr (s\<lparr>st_closed := True, st_stream_ready := None\<rparr>, opt_list (st_stream_ready s)))"

subsection \<open>Waiting writers\<close>

record WaitingShard =
  woken_at :: nat
  sh_wakers :: "(nat \<times> waker) list"

text \<open>The search runs backwards, so it is written on the reversed deque.\<close>

fun insert_waker :: "nat \<Rightarrow> waker \<Rightarrow> (nat \<times> waker) list \<Rightarrow> (nat \<times> waker) list res" where
  "insert_waker i w [] = Inr [(i, w)]"
| "insert_waker i w ((j, v) # rest) =
     (if j > i then bind_res (insert_waker i w rest) (\<lambda>rest'. Inr ((j, v) # rest'))
      else if j = i then (if w = v then Inr ((i, w) # rest) else Inl Panic)
      else Inr ((i, w) # (j, v) # rest))"

text \<open>\<open>Inr None\<close> is the rejection \<open>Err(())\<close>.\<close>

definition shard_add :: "nat \<Rightarrow> nat \<Rightarrow> waker \<Rightarrow> WaitingShard \<Rightarrow> WaitingShard option res" where
  "shard_add current i w sh =
     (if current < woken_at sh then Inr None
      else bind_res (insert_waker i w (rev (sh_wakers sh))) (\<lambda>ws. Inr (Some (sh\<lparr>sh_wakers := rev ws\<rparr>))))"

definition shard_wake :: "nat \<Rightarrow> WaitingShard \<Rightarrow> WaitingShard \<times> waker list" where
  "shard_wake i sh =
     (let sh' = sh\<lparr>woken_at := max (woken_at sh) i\<rparr>
      in case dropWhile (\<lambda>(j, w). j \<noteq> i) (takeWhile (\<lambda>(j, w). j \<le> i) (sh_wakers sh')) of
           [] \<Rightarrow> (sh', [])
         | (j, w) # _ \<Rightarrow> (sh'\<lparr>sh_wakers := tl (dropWhile (\<lambda>(j, w). j \<noteq> i) (sh_wakers sh'))\<rparr>, [w]))"

definition SHARDS :: nat where
  "SHARDS = 8"

definition CONTIGUOUS_BITS :: nat where
  "CONTIGUOUS_BITS = 6"

definition shard_of :: "nat \<Rightarrow> nat" where
  "shard_of i = (i div 2 ^ CONTIGUOUS_BITS) mod SHARDS"

type_synonym Waiting = "WaitingShard list"

definition waiting_default :: Waiting where
  "waiting_default = replicate SHARDS \<lparr>woken_at = 0, sh_wakers = []\<rparr>"

definition waiting_add :: "nat \<Rightarrow> nat \<Rightarrow> waker \<Rightarrow> Waiting \<Rightarrow> Waiting option res" where
  "waiting_add current i w ws =
     bind_res (shard_add current i w (ws ! shard_of i)) (\<lambda>r. Inr (map_option (\<lambda>sh. ws[shard_of i := sh]) r))"

definition waiting_wake :: "nat \<Rightarrow> Waiting \<Rightarrow> Waiting \<times> waker list" where
  "waiting_wake i ws = (case shard_wake i (ws ! shard_of i) of (sh, woken) \<Rightarrow> (ws[shard_of i := sh], woken))"

subsection \<open>The sender and its tasks\<close>

record OrderingSender =
  os_next :: nat
  os_state :: State
  os_waiting :: Waiting

definition os_new :: "nat \<Rightarrow> nat \<Rightarrow> OrderingSender" where
  "os_new write_size spare = \<lparr>os_next = 0, os_state = state_new write_size spare, os_waiting = waiting_default\<rparr>"

text \<open>The operation at an index: \<open>send(i, m)\<close> or \<open>close(i)\<close>, run by the task with that index.\<close>

datatype op = Send "u8 list" | Close

text \<open>Where the poll of a task stands: at the head of the loop of \<open>next_op\<close>, after the load of \<open>next\<close>, after the
  operation was carried out, after \<open>fetch_add\<close>; or between polls.\<close>

datatype pc = AtLoop | Loaded nat | Written | Added | Parked | Done | Panicked

text \<open>Where the poll of the stream stands; the state mutex is held from \<open>take\<close> until \<open>take_next\<close> returns.\<close>

datatype rpc = R_Poll | R_Took | R_TookLoaded nat | R_Parked | R_End

record sys = OrderingSender +
  s_pc :: "nat \<Rightarrow> pc"
  s_notified :: "nat \<Rightarrow> bool"
  s_rpc :: rpc
  s_rnotified :: bool
  s_out :: "u8 list"

definition sys_new :: "nat \<Rightarrow> nat \<Rightarrow> sys" where
  "sys_new write_size spare =
     OrderingSender.extend (os_new write_size spare)
       (sys.fields (\<lambda>_. AtLoop) (\<lambda>_. False) R_Poll False [])"

fun notify :: "waker list \<Rightarrow> sys \<Rightarrow> sys" where
  "notify [] s = s"
| "notify (Writer i # ws) s = notify ws (s\<lparr>s_notified := (s_notified s)(i := True)\<rparr>)"
| "notify (Reader # ws) s = notify ws (s\<lparr>s_rnotified := True\<rparr>)"

definition goto :: "nat \<Rightarrow> pc \<Rightarrow> sys \<Rightarrow> sys" where
  "goto i p s = s\<lparr>s_pc := (s_pc s)(i := p)\<rparr>"

definition state_locked :: "sys \<Rightarrow> bool" where
  "state_locked s = (case s_rpc s of R_Took \<Rightarrow> True | R_TookLoaded _ \<Rightarrow> True | _ \<Rightarrow> False)"

text \<open>The closures that \<open>Send::poll\<close> and \<open>Close::poll\<close> pass to \<open>next_op\<close>.\<close>

fun run_op :: "op \<Rightarrow> nat \<Rightarrow> State \<Rightarrow> (unit poll \<times> State \<times> waker list) res" where
  "run_op (Send m) i b = (if st_closed b then Inl Panic else state_write m (Writer i) b)"
| "run_op Close i b = bind_res (state_close b) (\<lambda>(b', ws). Inr (Ready (), b', ws))"

text \<open>The next action of the task at index \<open>i\<close>.\<close>

definition task_step :: "(nat \<Rightarrow> op option) \<Rightarrow> nat \<Rightarrow> sys \<Rightarrow> sys" where
  "task_step ops i s =
     (case ops i of
        None \<Rightarrow> s
      | Some oper \<Rightarrow>
          (case s_pc s i of
             AtLoop \<Rightarrow> goto i (Loaded (os_next s)) s
           | Loaded cur \<Rightarrow>
               if cur > i then goto i Panicked s
               else if cur = i then
                 (if state_locked s then s
                  else case run_op oper i (os_state s) of
                    Inl _ \<Rightarrow> goto i Panicked s
                  | Inr (Ready _, st, ws) \<Rightarrow> notify ws (goto i Written (s\<lparr>os_state := st\<rparr>))
                  | Inr (Pending, st, ws) \<Rightarrow> notify ws (goto i Parked (s\<lparr>os_state := st\<rparr>)))
               else
                 (case waiting_add cur i (Writer i) (os_waiting s) of
                    Inl _ \<Rightarrow> goto i Panicked s
                  | Inr None \<Rightarrow> goto i AtLoop s
                  | Inr (Some ws) \<Rightarrow> goto i Parked (s\<lparr>os_waiting := ws\<rparr>))
           | Written \<Rightarrow> goto i (if os_next s = i then Added else Panicked) (s\<lparr>os_next := os_next s + 1\<rparr>)
           | Added \<Rightarrow>
               (case oper of
                  Send _ \<Rightarrow> (case waiting_wake (i + 1) (os_waiting s) of
                    (ws, woken) \<Rightarrow> notify woken (goto i Done (s\<lparr>os_waiting := ws\<rparr>)))
                | Close \<Rightarrow> goto i Done s)
           | Parked \<Rightarrow> if s_notified s i then goto i AtLoop (s\<lparr>s_notified := (s_notified s)(i := False)\<rparr>) else s
           | Done \<Rightarrow> s
           | Panicked \<Rightarrow> s))"

text \<open>The next action of \<open>take_next\<close>, polled again after every chunk.\<close>

definition stream_step :: "sys \<Rightarrow> sys" where
  "stream_step s =
     (case s_rpc s of
        R_Poll \<Rightarrow>
          (case state_take Reader (os_state s) of
             (Ready v, st, ws) \<Rightarrow> notify ws (s\<lparr>os_state := st, s_out := s_out s @ v, s_rpc := R_Took\<rparr>)
           | (Pending, st, ws) \<Rightarrow> s\<lparr>os_state := st, s_rpc := (if st_closed st then R_End else R_Parked)\<rparr>)
      | R_Took \<Rightarrow> s\<lparr>s_rpc := R_TookLoaded (os_next s)\<rparr>
      | R_TookLoaded n \<Rightarrow> (case waiting_wake n (os_waiting s) of
          (ws, woken) \<Rightarrow> notify woken (s\<lparr>os_waiting := ws, s_rpc := R_Poll\<rparr>))
      | R_Parked \<Rightarrow> if s_rnotified s then s\<lparr>s_rpc := R_Poll, s_rnotified := False\<rparr> else s
      | R_End \<Rightarrow> s)"

text \<open>Who acts next. A future may also be polled without having been woken.\<close>

datatype actor = Task nat | Repoll nat | Stream | Restream

fun step :: "(nat \<Rightarrow> op option) \<Rightarrow> actor \<Rightarrow> sys \<Rightarrow> sys" where
  "step ops (Task i) s = task_step ops i s"
| "step ops (Repoll i) s = (if s_pc s i = Parked then goto i AtLoop s else s)"
| "step ops Stream s = stream_step s"
| "step ops Restream s = (if s_rpc s = R_Parked then s\<lparr>s_rpc := R_Poll\<rparr> else s)"

inductive reachable :: "(nat \<Rightarrow> op option) \<Rightarrow> nat \<Rightarrow> nat \<Rightarrow> sys \<Rightarrow> bool" for ops write_size spare where
  start: "reachable ops write_size spare (sys_new write_size spare)"
| act: "reachable ops write_size spare s \<Longrightarrow> reachable ops write_size spare (step ops a s)"

text \<open>A channel of known length: every message is sent at its index and the channel is closed after the last.\<close>

definition channel_ops :: "u8 list list \<Rightarrow> nat \<Rightarrow> op option" where
  "channel_ops ms i = (if i < length ms then Some (Send (ms ! i)) else if i = length ms then Some Close else None)"

subsection \<open>Saved wakers\<close>

abbreviation ascending :: "(nat \<times> waker) list \<Rightarrow> bool" where
  "ascending ws \<equiv> sorted_wrt (\<lambda>a b. fst a < fst b) ws"

lemma insert_waker_ok:
  assumes "sorted_wrt (\<lambda>a b. fst b < fst a) ws" and "\<And>j v. (j, v) \<in> set ws \<Longrightarrow> v = Writer j"
  shows "\<exists>ws'. insert_waker i (Writer i) ws = Inr ws' \<and> sorted_wrt (\<lambda>a b. fst b < fst a) ws' \<and> set ws' = insert (i, Writer i) (set ws)"
  using assms
proof (induction ws)
  case (Cons p ws)
  obtain j v where p: "p = (j, v)" by (cases p)
  have v: "v = Writer j" using Cons.prems(2) p by simp
  have below: "fst q < j" if "q \<in> set ws" for q using that Cons.prems(1) p by simp
  show ?case
  proof (cases "i < j")
    case True
    obtain ws' where "insert_waker i (Writer i) ws = Inr ws'" "sorted_wrt (\<lambda>a b. fst b < fst a) ws'"
        "set ws' = insert (i, Writer i) (set ws)"
      using Cons.IH Cons.prems by auto
    then show ?thesis using True below p by (intro exI [of _ "p # ws'"]) auto
  next
    case False
    then have "fst q < i" if "q \<in> set ws" "i \<noteq> j" for q using below [OF that(1)] that(2) by simp
    with False show ?thesis using below p v Cons.prems(1) by (cases "i = j") auto
  qed
qed simp

lemma shard_add_ok:
  assumes "ascending (sh_wakers sh)" and "\<And>j v. (j, v) \<in> set (sh_wakers sh) \<Longrightarrow> v = Writer j"
  shows "shard_add c i (Writer i) sh = Inr None \<and> c < woken_at sh
    \<or> (\<exists>sh'. shard_add c i (Writer i) sh = Inr (Some sh') \<and> woken_at sh' = woken_at sh \<and> woken_at sh \<le> c
        \<and> ascending (sh_wakers sh') \<and> set (sh_wakers sh') = insert (i, Writer i) (set (sh_wakers sh)))"
proof -
  have "sorted_wrt (\<lambda>a b. fst b < fst a) (rev (sh_wakers sh))" using assms(1) by (simp add: sorted_wrt_rev)
  with insert_waker_ok [of "rev (sh_wakers sh)" i] assms(2)
  obtain ws where "insert_waker i (Writer i) (rev (sh_wakers sh)) = Inr ws" "sorted_wrt (\<lambda>a b. fst b < fst a) ws"
      "set ws = insert (i, Writer i) (set (sh_wakers sh))" by auto
  then show ?thesis by (auto simp: shard_add_def sorted_wrt_rev)
qed

lemma wake_split:
  assumes "ascending ws"
  shows "(\<forall>v. (i, v) \<notin> set ws) \<and> dropWhile (\<lambda>(j, w). j \<noteq> i) (takeWhile (\<lambda>(j, w). j \<le> i) ws) = []
    \<or> (\<exists>v. (i, v) \<in> set ws \<and> dropWhile (\<lambda>(j, w). j \<noteq> i) (takeWhile (\<lambda>(j, w). j \<le> i) ws) = [(i, v)]
        \<and> dropWhile (\<lambda>(j, w). j \<noteq> i) ws = (i, v) # filter (\<lambda>(j, w). i < j) ws)"
  using assms
proof (induction ws)
  case (Cons p ws)
  obtain j v where p: "p = (j, v)" by (cases p)
  have above: "j < fst q" if "q \<in> set ws" for q using that Cons.prems p by simp
  consider "j < i" | "j = i" | "i < j" by linarith
  then show ?case
  proof cases
    case 1
    with Cons p show ?thesis by auto
  next
    case 2
    have "takeWhile (\<lambda>(j, w). j \<le> i) ws = []" "filter (\<lambda>(j, w). i < j) ws = ws"
      using above 2 by (cases ws; force simp: filter_id_conv)+
    with 2 p show ?thesis by auto
  next
    case 3
    with above p show ?thesis by force
  qed
qed simp

lemma ascending_unique: "ascending ws \<Longrightarrow> (i, v) \<in> set ws \<Longrightarrow> (i, v') \<in> set ws \<Longrightarrow> v = v'"
  by (induction ws) force+

lemma shard_wake_ok:
  assumes "ascending (sh_wakers sh)" and "shard_wake i sh = (sh', woken)"
  shows "woken_at sh' = max (woken_at sh) i" and "ascending (sh_wakers sh')" and "set (sh_wakers sh') \<subseteq> set (sh_wakers sh)"
    and "\<And>j v. i < j \<Longrightarrow> (j, v) \<in> set (sh_wakers sh) \<Longrightarrow> (j, v) \<in> set (sh_wakers sh')"
    and "\<And>v. (i, v) \<in> set (sh_wakers sh) \<Longrightarrow> v \<in> set woken"
proof -
  note uniq = ascending_unique [OF assms(1)]
  let ?ws = "sh_wakers sh" and ?sh = "sh\<lparr>woken_at := max (woken_at sh) i\<rparr>"
  consider "\<forall>v. (i, v) \<notin> set ?ws" "dropWhile (\<lambda>(j, w). j \<noteq> i) (takeWhile (\<lambda>(j, w). j \<le> i) ?ws) = []"
    | v where "(i, v) \<in> set ?ws" "dropWhile (\<lambda>(j, w). j \<noteq> i) (takeWhile (\<lambda>(j, w). j \<le> i) ?ws) = [(i, v)]"
        "dropWhile (\<lambda>(j, w). j \<noteq> i) ?ws = (i, v) # filter (\<lambda>(j, w). i < j) ?ws"
    using wake_split [OF assms(1), of i] by blast
  then consider "\<forall>v. (i, v) \<notin> set ?ws" "sh' = ?sh" "woken = []"
    | v where "(i, v) \<in> set ?ws" "woken = [v]" "sh' = ?sh\<lparr>sh_wakers := filter (\<lambda>(j, w). i < j) ?ws\<rparr>"
  proof cases
    case 1
    then show ?thesis using assms(2) that(1) by (simp add: shard_wake_def Let_def del: dropWhile_eq_Nil_conv)
  next
    case (2 v)
    then show ?thesis using assms(2) that(2) by (simp add: shard_wake_def Let_def)
  qed
  then show "woken_at sh' = max (woken_at sh) i" "ascending (sh_wakers sh')" "set (sh_wakers sh') \<subseteq> set (sh_wakers sh)"
    "\<And>j v. i < j \<Longrightarrow> (j, v) \<in> set (sh_wakers sh) \<Longrightarrow> (j, v) \<in> set (sh_wakers sh')"
    "\<And>v. (i, v) \<in> set (sh_wakers sh) \<Longrightarrow> v \<in> set woken"
    by (cases; use assms(1) uniq in \<open>auto simp: sorted_wrt_filter\<close>)+
qed

subsection \<open>The invariant\<close>

lemma notify_simps [simp]:
  "os_next (notify ws s) = os_next s" "os_state (notify ws s) = os_state s" "os_waiting (notify ws s) = os_waiting s"
  "s_pc (notify ws s) = s_pc s" "s_rpc (notify ws s) = s_rpc s" "s_out (notify ws s) = s_out s"
  "s_notified (notify ws s) i \<longleftrightarrow> s_notified s i \<or> Writer i \<in> set ws"
  "s_rnotified (notify ws s) \<longleftrightarrow> s_rnotified s \<or> Reader \<in> set ws"
  by (induction ws s rule: notify.induct) auto

lemma goto_simps [simp]:
  "os_next (goto i p s) = os_next s" "os_state (goto i p s) = os_state s" "os_waiting (goto i p s) = os_waiting s"
  "s_pc (goto i p s) = (s_pc s)(i := p)" "s_notified (goto i p s) = s_notified s" "s_rpc (goto i p s) = s_rpc s"
  "s_rnotified (goto i p s) = s_rnotified s" "s_out (goto i p s) = s_out s"
  by (simp_all add: goto_def)

text \<open>Indices below \<open>next\<close> have been sent, and nobody has loaded a value from the future.\<close>

definition inv_pc :: "u8 list list \<Rightarrow> sys \<Rightarrow> bool" where
  "inv_pc ms s \<longleftrightarrow> os_next s \<le> Suc (length ms)
     \<and> (\<forall>i. s_pc s i \<noteq> Panicked \<and> (s_pc s i \<in> {Added, Done} \<longleftrightarrow> i < os_next s) \<and> (s_pc s i = Written \<longrightarrow> i = os_next s)
          \<and> (\<forall>c. s_pc s i = Loaded c \<longrightarrow> c \<le> os_next s) \<and> (length ms < i \<longrightarrow> s_pc s i = AtLoop))
     \<and> (\<forall>n. s_rpc s = R_TookLoaded n \<longrightarrow> n \<le> os_next s)"

text \<open>The operations carried out so far, and the bytes they produced.\<close>

definition sent :: "sys \<Rightarrow> nat" where
  "sent s = os_next s + of_bool (s_pc s (os_next s) = Written)"

definition inv_buf :: "nat \<Rightarrow> nat \<Rightarrow> u8 list list \<Rightarrow> sys \<Rightarrow> bool" where
  "inv_buf write_size spare ms s \<longleftrightarrow> st_spare (os_state s) = spare \<and> length (st_buf (os_state s)) = write_size + spare
     \<and> st_written (os_state s) \<le> write_size + spare
     \<and> s_out s @ take (st_written (os_state s)) (st_buf (os_state s)) = concat (take (sent s) ms)
     \<and> (st_closed (os_state s) \<longleftrightarrow> length ms < sent s)"

text \<open>Every shard is sorted, holds only the wakers of its own indices, and is not ahead of \<open>next\<close>.\<close>

definition inv_shards :: "sys \<Rightarrow> bool" where
  "inv_shards s \<longleftrightarrow> length (os_waiting s) = SHARDS
     \<and> (\<forall>sh \<in> set (os_waiting s). woken_at sh \<le> os_next s \<and> ascending (sh_wakers sh) \<and> (\<forall>(j, v) \<in> set (sh_wakers sh). v = Writer j))"

definition registered :: "nat \<Rightarrow> sys \<Rightarrow> bool" where
  "registered i s \<longleftrightarrow> (i, Writer i) \<in> set (sh_wakers (os_waiting s ! shard_of i))"

text \<open>A parked writer that has not been notified has a waker in the right place: among the waiting ones when its turn has not
  come, or its predecessor is about to wake it, or it waits for space in the buffer.\<close>

definition placed :: "u8 list list \<Rightarrow> sys \<Rightarrow> nat \<Rightarrow> bool" where
  "placed ms s i \<longleftrightarrow>
     registered i s \<and> (os_next s < i \<or> os_next s = i \<and> 0 < i \<and> s_pc s (i - 1) = Added)
     \<or> os_next s = i \<and> i < length ms \<and> st_write_ready (os_state s) = Some (Writer i)
       \<and> length (st_buf (os_state s)) < st_written (os_state s) + length (ms ! i)"

definition inv_wake :: "u8 list list \<Rightarrow> sys \<Rightarrow> bool" where
  "inv_wake ms s \<longleftrightarrow> (\<forall>i. s_pc s i = Parked \<longrightarrow> \<not> s_notified s i \<longrightarrow> placed ms s i)"

definition inv_stream :: "sys \<Rightarrow> bool" where
  "inv_stream s \<longleftrightarrow> (s_rpc s = R_Parked \<and> \<not> s_rnotified s \<longrightarrow>
        st_stream_ready (os_state s) = Some Reader \<and> \<not> can_take (os_state s) \<and> \<not> st_closed (os_state s))
     \<and> (s_rpc s = R_End \<longrightarrow> st_closed (os_state s) \<and> st_written (os_state s) = 0)"

lemma shard_of_less [simp]: "shard_of i < SHARDS"
  by (simp add: shard_of_def SHARDS_def)

lemma inv_shardsD:
  assumes "inv_shards s"
  shows "woken_at (os_waiting s ! shard_of i) \<le> os_next s" "ascending (sh_wakers (os_waiting s ! shard_of i))"
    "\<And>j v. (j, v) \<in> set (sh_wakers (os_waiting s ! shard_of i)) \<Longrightarrow> v = Writer j" "shard_of i < length (os_waiting s)"
proof -
  show "shard_of i < length (os_waiting s)" using assms by (simp add: inv_shards_def)
  then have "os_waiting s ! shard_of i \<in> set (os_waiting s)" by simp
  with assms show "woken_at (os_waiting s ! shard_of i) \<le> os_next s" "ascending (sh_wakers (os_waiting s ! shard_of i))"
    "\<And>j v. (j, v) \<in> set (sh_wakers (os_waiting s ! shard_of i)) \<Longrightarrow> v = Writer j"
    unfolding inv_shards_def by fastforce+
qed

text \<open>Adding a waker, and waking one.\<close>

lemma waiting_add_ok:
  assumes "inv_shards s"
  shows "waiting_add c i (Writer i) (os_waiting s) = Inr None \<and> c < woken_at (os_waiting s ! shard_of i)
    \<or> (\<exists>ws. waiting_add c i (Writer i) (os_waiting s) = Inr (Some ws) \<and> woken_at (os_waiting s ! shard_of i) \<le> c
        \<and> inv_shards (s\<lparr>os_waiting := ws\<rparr>) \<and> registered i (s\<lparr>os_waiting := ws\<rparr>)
        \<and> (\<forall>j. registered j s \<longrightarrow> registered j (s\<lparr>os_waiting := ws\<rparr>)))"
proof -
  note sh = inv_shardsD [OF assms, where i = i]
  from shard_add_ok [OF sh(2,3), of c i] show ?thesis
  proof
    assume "shard_add c i (Writer i) (os_waiting s ! shard_of i) = Inr None \<and> c < woken_at (os_waiting s ! shard_of i)"
    then show ?thesis by (simp add: waiting_add_def)
  next
    assume "\<exists>sh'. shard_add c i (Writer i) (os_waiting s ! shard_of i) = Inr (Some sh') \<and> woken_at sh' = woken_at (os_waiting s ! shard_of i)
        \<and> woken_at (os_waiting s ! shard_of i) \<le> c
        \<and> ascending (sh_wakers sh') \<and> set (sh_wakers sh') = insert (i, Writer i) (set (sh_wakers (os_waiting s ! shard_of i)))"
    then obtain sh' where sh': "shard_add c i (Writer i) (os_waiting s ! shard_of i) = Inr (Some sh')"
        "woken_at sh' = woken_at (os_waiting s ! shard_of i)" "woken_at (os_waiting s ! shard_of i) \<le> c"
        "ascending (sh_wakers sh')" "set (sh_wakers sh') = insert (i, Writer i) (set (sh_wakers (os_waiting s ! shard_of i)))" by blast
    let ?ws = "(os_waiting s)[shard_of i := sh']"
    have "inv_shards (s\<lparr>os_waiting := ?ws\<rparr>)"
      using assms sh sh' by (auto simp: inv_shards_def dest!: set_update_subset_insert [THEN subsetD])
    moreover have "registered i (s\<lparr>os_waiting := ?ws\<rparr>)" using sh(4) sh'(5) by (simp add: registered_def)
    moreover have "registered j (s\<lparr>os_waiting := ?ws\<rparr>)" if "registered j s" for j
      using that sh(4) sh'(5) by (cases "shard_of j = shard_of i") (auto simp: registered_def)
    ultimately show ?thesis using sh'(1,3) by (simp add: waiting_add_def)
  qed
qed

lemma waiting_wake_ok:
  assumes "inv_shards s" and "i \<le> os_next s" and "waiting_wake i (os_waiting s) = (ws, woken)"
  shows "inv_shards (s\<lparr>os_waiting := ws\<rparr>)" and "\<And>j. i < j \<Longrightarrow> registered j s \<Longrightarrow> registered j (s\<lparr>os_waiting := ws\<rparr>)"
    and "registered i s \<Longrightarrow> Writer i \<in> set woken"
proof -
  note sh = inv_shardsD [OF assms(1), where i = i]
  obtain sh' where sh': "shard_wake i (os_waiting s ! shard_of i) = (sh', woken)" "ws = (os_waiting s)[shard_of i := sh']"
    using assms(3) by (auto simp: waiting_wake_def split: prod.splits)
  note w = shard_wake_ok [OF sh(2) sh'(1)]
  show "inv_shards (s\<lparr>os_waiting := ws\<rparr>)"
    using assms(1,2) sh w(1-3) by (auto simp: inv_shards_def sh'(2) dest!: set_update_subset_insert [THEN subsetD])
  show "registered j (s\<lparr>os_waiting := ws\<rparr>)" if "i < j" "registered j s" for j
    using that sh(4) w(4) by (cases "shard_of j = shard_of i") (auto simp: registered_def sh'(2))
  show "Writer i \<in> set woken" if "registered i s" using that w(5) by (simp add: registered_def)
qed

text \<open>A writer that is done has moved the shard of its successor.\<close>

definition inv_done :: "u8 list list \<Rightarrow> sys \<Rightarrow> bool" where
  "inv_done ms s \<longleftrightarrow> (\<forall>j < length ms. s_pc s j = Done \<longrightarrow> Suc j \<le> woken_at (os_waiting s ! shard_of (Suc j)))"

definition sender_inv :: "nat \<Rightarrow> nat \<Rightarrow> u8 list list \<Rightarrow> sys \<Rightarrow> bool" where
  "sender_inv write_size spare ms s \<longleftrightarrow> inv_pc ms s \<and> inv_buf write_size spare ms s \<and> inv_shards s \<and> inv_done ms s
     \<and> inv_wake ms s \<and> inv_stream s"

lemma inv_pcD:
  assumes "inv_pc ms s"
  shows "s_pc s i \<noteq> Panicked" "s_pc s i = Added \<Longrightarrow> i < os_next s" "s_pc s i = Done \<Longrightarrow> i < os_next s"
    "i < os_next s \<Longrightarrow> s_pc s i = Added \<or> s_pc s i = Done" "s_pc s i = Written \<Longrightarrow> i = os_next s"
    "s_pc s i = Loaded c \<Longrightarrow> c \<le> os_next s" "length ms < i \<Longrightarrow> s_pc s i = AtLoop" "s_rpc s = R_TookLoaded n \<Longrightarrow> n \<le> os_next s"
    "os_next s \<le> Suc (length ms)"
  using assms unfolding inv_pc_def by blast+

lemma waiting_wake_mono:
  assumes "inv_shards s" and "waiting_wake i (os_waiting s) = (ws, woken)"
  shows "woken_at (os_waiting s ! shard_of j) \<le> woken_at (ws ! shard_of j)" and "i \<le> woken_at (ws ! shard_of i)"
proof -
  note sh = inv_shardsD [OF assms(1), where i = i]
  obtain sh' where sh': "shard_wake i (os_waiting s ! shard_of i) = (sh', woken)" "ws = (os_waiting s)[shard_of i := sh']"
    using assms(2) by (auto simp: waiting_wake_def split: prod.splits)
  note w = shard_wake_ok(1) [OF sh(2) sh'(1)]
  show "woken_at (os_waiting s ! shard_of j) \<le> woken_at (ws ! shard_of j)" "i \<le> woken_at (ws ! shard_of i)"
    using sh(4) w by (cases "shard_of j = shard_of i"; simp add: sh'(2))+
qed

lemma waiting_add_mono:
  assumes "inv_shards s" and "waiting_add c i (Writer i) (os_waiting s) = Inr (Some ws)"
  shows "woken_at (ws ! shard_of j) = woken_at (os_waiting s ! shard_of j)"
proof -
  note sh = inv_shardsD [OF assms(1), where i = i]
  from shard_add_ok [OF sh(2,3), of c i] assms(2)
  obtain sh' where "ws = (os_waiting s)[shard_of i := sh']" "woken_at sh' = woken_at (os_waiting s ! shard_of i)"
    by (auto simp: waiting_add_def)
  then show ?thesis using sh(4) by (cases "shard_of j = shard_of i") simp_all
qed

subsection \<open>Every action keeps the invariant\<close>

text \<open>A move of a task between polls, to the head of the loop or past the load.\<close>

lemma inv_goto:
  assumes "sender_inv w sp ms s" and "s_pc s i \<notin> {Written, Added, Done}" and "p = AtLoop \<or> p = Loaded c \<and> c \<le> os_next s" and "i \<le> length ms"
    and "\<And>j. j \<noteq> i \<Longrightarrow> n j = s_notified s j"
  shows "sender_inv w sp ms (goto i p (s\<lparr>s_notified := n\<rparr>))"
proof -
  have p: "p \<notin> {Written, Added, Done, Parked, Panicked}" using assms(3) by auto
  have pc: "inv_pc ms s" using assms(1) by (simp add: sender_inv_def)
  have "sent (goto i p (s\<lparr>s_notified := n\<rparr>)) = sent s" using assms(2) p by (auto simp: sent_def)
  moreover have "inv_pc ms (goto i p (s\<lparr>s_notified := n\<rparr>))"
    using pc assms(2,3,4) p unfolding inv_pc_def by auto
  moreover have "placed ms (goto i p (s\<lparr>s_notified := n\<rparr>)) j" if "placed ms s j" for j
    using that assms(2) by (auto simp: placed_def registered_def)
  then have "inv_wake ms (goto i p (s\<lparr>s_notified := n\<rparr>))"
    using assms(1,5) p by (auto simp: sender_inv_def inv_wake_def)
  ultimately show ?thesis
    using assms(1) p by (auto simp: sender_inv_def inv_buf_def inv_shards_def inv_done_def inv_stream_def)
qed

lemma inv_park:
  assumes inv: "sender_inv w sp ms s" and i: "s_pc s i = Loaded c" "c < i" "i \<le> length ms"
    and add: "waiting_add c i (Writer i) (os_waiting s) = Inr (Some ws)"
  shows "sender_inv w sp ms (goto i Parked (s\<lparr>os_waiting := ws\<rparr>))"
proof -
  let ?s = "goto i Parked (s\<lparr>os_waiting := ws\<rparr>)"
  have pc: "inv_pc ms s" and shards: "inv_shards s" and dn: "inv_done ms s" and wake: "inv_wake ms s"
    using inv by (auto simp: sender_inv_def)
  from waiting_add_ok [OF shards, of c i] add
  have ws: "woken_at (os_waiting s ! shard_of i) \<le> c" "inv_shards (s\<lparr>os_waiting := ws\<rparr>)" "registered i (s\<lparr>os_waiting := ws\<rparr>)"
    "\<And>j. registered j s \<Longrightarrow> registered j (s\<lparr>os_waiting := ws\<rparr>)" by auto
  have next_le: "os_next s \<le> i" using inv_pcD(4) [OF pc, of i] i(1) by (cases "i < os_next s") auto
  have "s_pc s j = Added" if "os_next s = i" "i = Suc j" for j
  proof -
    have "s_pc s j \<noteq> Done"
    proof
      assume "s_pc s j = Done"
      then have "i \<le> woken_at (os_waiting s ! shard_of i)" using dn that i(3) by (auto simp: inv_done_def)
      with ws(1) i(2) show False by simp
    qed
    then show ?thesis using inv_pcD(4) [OF pc, of j] that by simp
  qed
  then have "placed ms ?s i" using ws(3) next_le i(2) by (cases i) (auto simp: placed_def registered_def)
  moreover have "placed ms ?s j" if "placed ms s j" for j
    using that ws(4) i(1) by (auto simp: placed_def registered_def)
  ultimately have "inv_wake ms ?s" using wake by (auto simp: inv_wake_def)
  moreover have "inv_pc ms ?s" using pc next_le i unfolding inv_pc_def by auto
  moreover have "sent ?s = sent s" using i(1) by (auto simp: sent_def)
  moreover have "inv_done ms ?s" using dn waiting_add_mono [OF shards add] by (auto simp: inv_done_def)
  ultimately show ?thesis
    using inv ws(2) by (auto simp: sender_inv_def inv_buf_def inv_shards_def inv_stream_def)
qed

lemma loaded_own:
  assumes "inv_pc ms s" and "s_pc s i = Loaded i"
  shows "os_next s = i" and "sent s = i"
proof -
  show "os_next s = i"
    using inv_pcD(4) [OF assms(1), of i] inv_pcD(6) [OF assms] assms(2) by (cases "i < os_next s") auto
  then show "sent s = i" using assms(2) by (simp add: sent_def)
qed

text \<open>A write, a write that finds the buffer full, and the close.\<close>

lemma inv_write:
  assumes inv: "sender_inv w sp ms s" and i: "s_pc s i = Loaded i" "i < length ms"
    and res: "state_write (ms ! i) (Writer i) (os_state s) = Inr (Ready u, st, wk)"
  shows "sender_inv w sp ms (notify wk (goto i Written (s\<lparr>os_state := st\<rparr>)))"
proof -
  let ?s = "notify wk (goto i Written (s\<lparr>os_state := st\<rparr>))" and ?st = "os_state s"
  have parts: "inv_pc ms s" "inv_buf w sp ms s" "inv_wake ms s" "inv_stream s" using inv by (auto simp: sender_inv_def)
  note own = loaded_own [OF parts(1) i(1)]
  have buf: "st_spare ?st = sp" "length (st_buf ?st) = w + sp" "st_written ?st \<le> w + sp"
    "s_out s @ take (st_written ?st) (st_buf ?st) = concat (take i ms)" "\<not> st_closed ?st"
    using parts(2) own(2) i(2) by (auto simp: inv_buf_def)
  have fits: "st_written ?st + length (ms ! i) \<le> w + sp"
    using res buf(2,3) by (auto simp: state_write_def Let_def split: if_splits)
  have st: "st_spare st = sp" "length (st_buf st) = w + sp" "st_written st = st_written ?st + length (ms ! i)" "\<not> st_closed st"
      "take (st_written st) (st_buf st) = take (st_written ?st) (st_buf ?st) @ ms ! i" "st_write_ready st = st_write_ready ?st"
    and wk: "Reader \<notin> set wk \<Longrightarrow> st_stream_ready ?st = Some Reader \<Longrightarrow> st_stream_ready st = Some Reader \<and> st_written st + sp < w + sp"
    using res buf fits by (auto simp: state_write_def Let_def opt_list_def split: if_splits)
  have sent: "sent ?s = Suc i" using own by (simp add: sent_def)
  have "inv_buf w sp ms ?s"
    using st buf fits i(2) by (simp add: inv_buf_def sent take_Suc_conv_app_nth)
  moreover have "inv_pc ms ?s" using parts(1) own i unfolding inv_pc_def by auto
  moreover have "placed ms ?s j" if "placed ms s j" "j \<noteq> i" for j
    using that i(1) own(1) by (auto simp: placed_def registered_def)
  then have "inv_wake ms ?s" using parts(3) by (auto simp: inv_wake_def)
  moreover have "inv_stream ?s"
    using parts(4) wk st(1,2,4) buf(5) by (auto simp: inv_stream_def can_take_def)
  ultimately show ?thesis using inv by (auto simp: sender_inv_def inv_shards_def inv_done_def)
qed

lemma inv_full:
  assumes inv: "sender_inv w sp ms s" and i: "s_pc s i = Loaded i" "i < length ms"
    and res: "state_write (ms ! i) (Writer i) (os_state s) = Inr (Pending, st, wk)"
  shows "sender_inv w sp ms (notify wk (goto i Parked (s\<lparr>os_state := st\<rparr>)))"
proof -
  let ?s = "notify wk (goto i Parked (s\<lparr>os_state := st\<rparr>))" and ?st = "os_state s"
  have parts: "inv_pc ms s" "inv_buf w sp ms s" "inv_wake ms s" "inv_stream s" using inv by (auto simp: sender_inv_def)
  note own = loaded_own [OF parts(1) i(1)]
  have st: "st = ?st\<lparr>st_write_ready := Some (Writer i)\<rparr>" "length (st_buf ?st) < st_written ?st + length (ms ! i)" "wk = []"
    using res by (auto simp: state_write_def Let_def split: if_splits)
  have "placed ms ?s i" using own(1) i(2) st by (simp add: placed_def)
  moreover have "placed ms ?s j" if "placed ms s j" for j
    using that i(1) own(1) st by (auto simp: placed_def registered_def)
  ultimately have "inv_wake ms ?s" using parts(3) st(3) by (auto simp: inv_wake_def)
  moreover have "inv_pc ms ?s" using parts(1) own i unfolding inv_pc_def by auto
  moreover have "sent ?s = sent s" using own by (simp add: sent_def i)
  ultimately show ?thesis
    using inv st by (auto simp: sender_inv_def inv_shards_def inv_done_def inv_buf_def inv_stream_def can_take_def)
qed

lemma inv_close:
  assumes inv: "sender_inv w sp ms s" and i: "s_pc s i = Loaded i" "i = length ms"
    and res: "state_close (os_state s) = Inr (st, wk)"
  shows "sender_inv w sp ms (notify wk (goto i Written (s\<lparr>os_state := st\<rparr>)))"
proof -
  let ?s = "notify wk (goto i Written (s\<lparr>os_state := st\<rparr>))" and ?st = "os_state s"
  have parts: "inv_pc ms s" "inv_buf w sp ms s" "inv_wake ms s" "inv_stream s" using inv by (auto simp: sender_inv_def)
  note own = loaded_own [OF parts(1) i(1)]
  have st: "st = ?st\<lparr>st_closed := True, st_stream_ready := None\<rparr>" "wk = opt_list (st_stream_ready ?st)" "\<not> st_closed ?st"
    using res by (auto simp: state_close_def split: if_splits)
  have sent: "sent ?s = Suc i" using own by (simp add: sent_def)
  have "inv_buf w sp ms ?s" using parts(2) own(2) i(2) st(1) unfolding inv_buf_def sent by simp
  moreover have "inv_pc ms ?s" using parts(1) own i unfolding inv_pc_def by auto
  moreover have "placed ms ?s j" if "placed ms s j" "j \<noteq> i" for j
    using that i own(1) by (auto simp: placed_def registered_def)
  then have "inv_wake ms ?s" using parts(3) by (auto simp: inv_wake_def)
  moreover have "inv_stream ?s" using parts(4) st by (auto simp: inv_stream_def opt_list_def)
  ultimately show ?thesis using inv by (auto simp: sender_inv_def inv_shards_def inv_done_def)
qed

text \<open>After the operation: \<open>fetch_add\<close>, and the wake of the next in line.\<close>

lemma inv_fetch_add:
  assumes inv: "sender_inv w sp ms s" and i: "s_pc s i = Written"
  shows "sender_inv w sp ms (goto i Added (s\<lparr>os_next := os_next s + 1\<rparr>))"
proof -
  let ?s = "goto i Added (s\<lparr>os_next := os_next s + 1\<rparr>)"
  have parts: "inv_pc ms s" "inv_shards s" "inv_wake ms s" using inv by (auto simp: sender_inv_def)
  have own: "i = os_next s" by (rule inv_pcD(5) [OF parts(1) i])
  have i_le: "i \<le> length ms" using inv_pcD(7) [OF parts(1), of i] i by (cases "length ms < i") auto
  have "s_pc s (Suc i) \<noteq> Written" using inv_pcD(5) [OF parts(1), of "Suc i"] own by auto
  then have "sent ?s = sent s" using i own by (simp add: sent_def)
  moreover have "placed ms ?s j" if "placed ms s j" "j \<noteq> i" for j
    using that own by (auto simp: placed_def registered_def)
  then have "inv_wake ms ?s" using parts(3) by (auto simp: inv_wake_def)
  moreover have "inv_pc ms ?s" using parts(1) own i_le unfolding inv_pc_def by (auto simp: less_Suc_eq le_Suc_eq)
  moreover have "inv_shards ?s" using parts(2) by (auto simp: inv_shards_def)
  ultimately show ?thesis
    using inv by (auto simp: sender_inv_def inv_done_def inv_buf_def inv_stream_def can_take_def)
qed

lemma inv_wake_next:
  assumes inv: "sender_inv w sp ms s" and i: "s_pc s i = Added" "i < length ms" and wk: "waiting_wake (i + 1) (os_waiting s) = (ws, woken)"
  shows "sender_inv w sp ms (notify woken (goto i Done (s\<lparr>os_waiting := ws\<rparr>)))"
proof -
  let ?s = "notify woken (goto i Done (s\<lparr>os_waiting := ws\<rparr>))"
  have parts: "inv_pc ms s" "inv_shards s" "inv_wake ms s" "inv_done ms s" using inv by (auto simp: sender_inv_def)
  have less: "i + 1 \<le> os_next s" using inv_pcD(2) [OF parts(1) i(1)] by simp
  note w = waiting_wake_ok [OF parts(2) less wk]
  have "sent ?s = sent s" using less by (simp add: sent_def)
  moreover have "placed ms ?s j" if "placed ms s j" "j = i + 1 \<longrightarrow> Writer j \<notin> set woken" for j
  proof (cases "j = i + 1")
    case True
    then show ?thesis using that w(3) less by (auto simp: placed_def registered_def)
  next
    case False
    then have j: "os_next s \<le> j \<Longrightarrow> i + 1 < j" "0 < j \<Longrightarrow> j - 1 \<noteq> i" using less by auto
    then show ?thesis using that(1) w(2) [of j] by (auto simp: placed_def registered_def)
  qed
  then have "inv_wake ms ?s" using parts(3) by (auto simp: inv_wake_def)
  moreover have "inv_pc ms ?s" using parts(1) less unfolding inv_pc_def by auto
  moreover have "inv_shards ?s" using w(1) by (auto simp: inv_shards_def)
  moreover have "inv_done ms ?s"
    using parts(4) waiting_wake_mono [OF parts(2) wk] order_trans by (fastforce simp: inv_done_def)
  ultimately show ?thesis using inv by (auto simp: sender_inv_def inv_buf_def inv_stream_def)
qed

lemma inv_closed:
  assumes inv: "sender_inv w sp ms s" and i: "s_pc s i = Added" "i = length ms"
  shows "sender_inv w sp ms (goto i Done s)"
proof -
  let ?s = "goto i Done s"
  have parts: "inv_pc ms s" "inv_wake ms s" "inv_done ms s" using inv by (auto simp: sender_inv_def)
  have less: "i < os_next s" by (rule inv_pcD(2) [OF parts(1) i(1)])
  have "sent ?s = sent s" using less by (simp add: sent_def)
  moreover have "placed ms ?s j" if "placed ms s j" "s_pc s j = Parked" for j
  proof -
    have "j \<le> i" using that(2) inv_pcD(7) [OF parts(1), of j] i(2) by (cases "length ms < j") auto
    then have "os_next s \<noteq> j" "\<not> os_next s < j" using less by auto
    then show ?thesis using that(1) by (simp add: placed_def)
  qed
  then have "inv_wake ms ?s" using parts(2) by (auto simp: inv_wake_def)
  moreover have "inv_pc ms ?s" using parts(1) less unfolding inv_pc_def by auto
  moreover have "inv_done ms ?s" using parts(3) i(2) by (auto simp: inv_done_def)
  ultimately show ?thesis using inv by (auto simp: sender_inv_def inv_buf_def inv_stream_def inv_shards_def)
qed

text \<open>The actions of the stream.\<close>

lemma inv_take:
  assumes inv: "sender_inv w sp ms s" and res: "state_take Reader (os_state s) = (Ready v, st, wk)"
  shows "sender_inv w sp ms (notify wk (s\<lparr>os_state := st, s_out := s_out s @ v, s_rpc := R_Took\<rparr>))"
proof -
  let ?s = "notify wk (s\<lparr>os_state := st, s_out := s_out s @ v, s_rpc := R_Took\<rparr>)" and ?st = "os_state s"
  have parts: "inv_pc ms s" "inv_buf w sp ms s" "inv_wake ms s" using inv by (auto simp: sender_inv_def)
  have st: "v = take (st_written ?st) (st_buf ?st)" "st = ?st\<lparr>st_written := 0, st_write_ready := None\<rparr>" "wk = opt_list (st_write_ready ?st)"
    using res by (auto simp: state_take_def split: if_splits)
  have sent: "sent ?s = sent s" by (simp add: sent_def)
  have "inv_buf w sp ms ?s" using parts(2) st unfolding inv_buf_def sent by simp
  moreover have "placed ms ?s j" if "placed ms s j" "Writer j \<notin> set wk" for j
    using that st by (auto simp: placed_def registered_def opt_list_def)
  then have "inv_wake ms ?s" using parts(3) by (auto simp: inv_wake_def)
  moreover have "inv_pc ms ?s" using parts(1) unfolding inv_pc_def by auto
  ultimately show ?thesis using inv by (auto simp: sender_inv_def inv_shards_def inv_done_def inv_stream_def)
qed

lemma inv_no_data:
  assumes inv: "sender_inv w sp ms s" and res: "state_take Reader (os_state s) = (Pending, st, wk)"
  shows "sender_inv w sp ms (s\<lparr>os_state := st, s_rpc := (if st_closed st then R_End else R_Parked)\<rparr>)"
proof -
  let ?s = "s\<lparr>os_state := st, s_rpc := (if st_closed st then R_End else R_Parked)\<rparr>" and ?st = "os_state s"
  have parts: "inv_pc ms s" "inv_buf w sp ms s" "inv_wake ms s" using inv by (auto simp: sender_inv_def)
  have st: "st = ?st\<lparr>st_stream_ready := Some Reader\<rparr>" "\<not> can_take ?st"
    using res by (auto simp: state_take_def split: if_splits)
  have sent: "sent ?s = sent s" by (simp add: sent_def)
  have "inv_buf w sp ms ?s" using parts(2) st unfolding inv_buf_def sent by simp
  moreover have "placed ms ?s j" if "placed ms s j" for j
    using that st(1) by (simp add: placed_def registered_def)
  then have "inv_wake ms ?s" using parts(3) by (simp add: inv_wake_def)
  moreover have "inv_pc ms ?s" using parts(1) unfolding inv_pc_def by simp
  moreover have "inv_stream ?s" using st by (auto simp: inv_stream_def can_take_def)
  ultimately show ?thesis using inv by (simp add: sender_inv_def inv_shards_def inv_done_def)
qed

lemma inv_rpc:
  assumes inv: "sender_inv w sp ms s" and "p \<noteq> R_Parked" "p \<noteq> R_End" "\<And>n. p = R_TookLoaded n \<Longrightarrow> n \<le> os_next s"
  shows "sender_inv w sp ms (s\<lparr>s_rpc := p, s_rnotified := b\<rparr>)"
proof -
  let ?s = "s\<lparr>s_rpc := p, s_rnotified := b\<rparr>"
  have parts: "inv_pc ms s" "inv_buf w sp ms s" "inv_wake ms s" using inv by (auto simp: sender_inv_def)
  have sent: "sent ?s = sent s" by (simp add: sent_def)
  have "inv_buf w sp ms ?s" using parts(2) unfolding inv_buf_def sent by simp
  moreover have "placed ms ?s j = placed ms s j" for j by (simp add: placed_def registered_def)
  then have "inv_wake ms ?s" using parts(3) by (simp add: inv_wake_def)
  moreover have "inv_pc ms ?s" using parts(1) assms(4) unfolding inv_pc_def by simp
  moreover have "inv_stream ?s" using assms(2,3) by (simp add: inv_stream_def)
  ultimately show ?thesis using inv by (simp add: sender_inv_def inv_shards_def inv_done_def)
qed

lemma inv_stream_wake:
  assumes inv: "sender_inv w sp ms s" and n: "s_rpc s = R_TookLoaded n" and wk: "waiting_wake n (os_waiting s) = (ws, woken)"
  shows "sender_inv w sp ms (notify woken (s\<lparr>os_waiting := ws, s_rpc := R_Poll\<rparr>))"
proof -
  let ?s = "notify woken (s\<lparr>os_waiting := ws, s_rpc := R_Poll\<rparr>)"
  have parts: "inv_pc ms s" "inv_shards s" "inv_wake ms s" "inv_done ms s" using inv by (auto simp: sender_inv_def)
  note w = waiting_wake_ok [OF parts(2) inv_pcD(8) [OF parts(1) n] wk]
  have "sent ?s = sent s" by (simp add: sent_def)
  moreover have "placed ms ?s j" if "placed ms s j" "Writer j \<notin> set woken" for j
    using that w(2) [of j] w(3) inv_pcD(8) [OF parts(1) n] by (cases "j = n") (auto simp: placed_def registered_def)
  then have "inv_wake ms ?s" using parts(3) by (auto simp: inv_wake_def)
  moreover have "inv_pc ms ?s" using parts(1) unfolding inv_pc_def by auto
  moreover have "inv_shards ?s" using w(1) by (auto simp: inv_shards_def)
  moreover have "inv_done ms ?s"
    using parts(4) waiting_wake_mono(1) [OF parts(2) wk] order_trans by (fastforce simp: inv_done_def)
  ultimately show ?thesis using inv by (auto simp: sender_inv_def inv_buf_def inv_stream_def)
qed

lemma inv_task_step:
  assumes inv: "sender_inv w sp ms s" and sizes: "\<forall>m \<in> set ms. length m < sp"
  shows "sender_inv w sp ms (task_step (channel_ops ms) i s)"
proof (cases "i \<le> length ms")
  case False
  then show ?thesis using inv by (simp add: task_step_def channel_ops_def)
next
  case True
  have parts: "inv_pc ms s" "inv_buf w sp ms s" "inv_shards s" using inv by (auto simp: sender_inv_def)
  obtain oper where oper: "channel_ops ms i = Some oper" "oper = (if i < length ms then Send (ms ! i) else Close)"
    using True by (simp add: channel_ops_def)
  show ?thesis
  proof (cases "s_pc s i")
    case AtLoop
    then show ?thesis using inv_goto [OF inv _ _ True, of "Loaded (os_next s)" "os_next s" "s_notified s"] oper by (simp add: task_step_def)
  next
    case (Loaded c)
    have c: "c \<le> os_next s" by (rule inv_pcD(6) [OF parts(1) Loaded])
    have next_le: "os_next s \<le> i" using inv_pcD(4) [OF parts(1), of i] Loaded by (cases "i < os_next s") auto
    show ?thesis
    proof (cases "c = i")
      case own: True
      note at = loaded_own [OF parts(1) Loaded [unfolded own]]
      have opn: "\<not> st_closed (os_state s)" using parts(2) at(2) True by (simp add: inv_buf_def)
      show ?thesis
      proof (cases "i < length ms")
        case send: True
        then have "state_write (ms ! i) (Writer i) (os_state s) \<noteq> Inl e" for e
          using parts(2) sizes by (auto simp: state_write_def inv_buf_def Let_def)
        then obtain r st wk where res: "state_write (ms ! i) (Writer i) (os_state s) = Inr (r, st, wk)" by (metis surj_pair sumE)
        then show ?thesis
          using inv_write [OF inv Loaded [unfolded own] send] inv_full [OF inv Loaded [unfolded own] send] inv oper send Loaded own opn
          by (cases r) (simp_all add: task_step_def)
      next
        case False
        then obtain st wk where res: "state_close (os_state s) = Inr (st, wk)" using opn by (simp add: state_close_def)
        then show ?thesis
          using inv_close [OF inv Loaded [unfolded own]] inv oper False True Loaded own by (simp add: task_step_def)
      qed
    next
      case False
      with c next_le have c_less: "c < i" by simp
      from waiting_add_ok [OF parts(3), of c i] show ?thesis
        using inv_park [OF inv Loaded c_less True] inv_goto [OF inv _ _ True, of AtLoop c "s_notified s"] oper Loaded c_less
        by (auto simp: task_step_def)
    qed
  next
    case Written
    then show ?thesis using inv_fetch_add [OF inv Written] inv_pcD(5) [OF parts(1) Written] oper by (simp add: task_step_def)
  next
    case Added
    show ?thesis
    proof (cases "i < length ms")
      case send: True
      obtain ws woken where "waiting_wake (i + 1) (os_waiting s) = (ws, woken)" by fastforce
      then show ?thesis using inv_wake_next [OF inv Added send] oper Added send by (simp add: task_step_def)
    next
      case False
      then show ?thesis using inv_closed [OF inv Added] oper Added True by (simp add: task_step_def)
    qed
  next
    case Parked
    then show ?thesis
      using inv inv_goto [OF inv _ _ True, of AtLoop 0 "(s_notified s)(i := False)"] oper by (simp add: task_step_def)
  qed (use inv oper in \<open>simp_all add: task_step_def\<close>)
qed

lemma inv_stream_step:
  assumes inv: "sender_inv w sp ms s"
  shows "sender_inv w sp ms (stream_step s)"
proof (cases "s_rpc s")
  case R_Poll
  obtain r st wk where res: "state_take Reader (os_state s) = (r, st, wk)" by (metis surj_pair)
  then show ?thesis
    using inv_take [OF inv] inv_no_data [OF inv] R_Poll by (cases r) (simp_all add: stream_step_def)
next
  case R_Took
  then show ?thesis using inv_rpc [OF inv, of "R_TookLoaded (os_next s)" "s_rnotified s"] by (simp add: stream_step_def)
next
  case (R_TookLoaded n)
  obtain ws woken where "waiting_wake n (os_waiting s) = (ws, woken)" by fastforce
  then show ?thesis using inv_stream_wake [OF inv R_TookLoaded] R_TookLoaded by (simp add: stream_step_def)
next
  case R_Parked
  then show ?thesis using inv inv_rpc [OF inv, of R_Poll False] by (simp add: stream_step_def)
qed (use inv in \<open>simp add: stream_step_def\<close>)

lemma inv_step:
  assumes inv: "sender_inv w sp ms s" and sizes: "\<forall>m \<in> set ms. length m < sp"
  shows "sender_inv w sp ms (step (channel_ops ms) a s)"
proof (cases a)
  case (Repoll i)
  have "inv_pc ms s" using inv by (simp add: sender_inv_def)
  then have "i \<le> length ms" if "s_pc s i = Parked" using inv_pcD(7) [of ms s i] that by (cases "length ms < i") auto
  then show ?thesis using Repoll inv inv_goto [OF inv, of i AtLoop 0 "s_notified s"] by auto
next
  case Restream
  then show ?thesis using inv inv_rpc [OF inv, of R_Poll "s_rnotified s"] by simp
qed (use inv_task_step [OF assms] inv_stream_step [OF inv] in auto)

lemma inv_start: "sender_inv w sp ms (sys_new w sp)"
  by (auto simp: sender_inv_def inv_pc_def inv_buf_def inv_shards_def inv_done_def inv_wake_def inv_stream_def sent_def
      sys_new_def os_new_def state_new_def waiting_default_def OrderingSender.defs sys.defs)

lemma reachable_inv:
  assumes "reachable (channel_ops ms) w sp s" and "\<forall>m \<in> set ms. length m < sp"
  shows "sender_inv w sp ms s"
  using assms(1) by induction (simp_all add: inv_start inv_step assms(2))

lemma reachable_bytes:
  assumes "reachable (channel_ops ms) write_size spare s" and "\<forall>m \<in> set ms. length m < spare"
  shows "s_pc s i \<noteq> Panicked" and "prefix (s_out s) (concat (take (Suc (os_next s)) ms))"
    and "s_rpc s = R_End \<Longrightarrow> s_out s = concat ms"
proof -
  have inv: "sender_inv write_size spare ms s" by (rule reachable_inv [OF assms])
  then have parts: "inv_pc ms s" "inv_buf write_size spare ms s" "inv_stream s" by (auto simp: sender_inv_def)
  show "s_pc s i \<noteq> Panicked" by (rule inv_pcD(1) [OF parts(1)])
  have out: "s_out s @ take (st_written (os_state s)) (st_buf (os_state s)) = concat (take (sent s) ms)"
    using parts(2) by (simp add: inv_buf_def)
  have "sent s \<le> Suc (os_next s)" by (simp add: sent_def)
  then have "take (Suc (os_next s)) ms = take (sent s) ms @ take (Suc (os_next s) - sent s) (drop (sent s) ms)"
    by (metis le_add_diff_inverse take_add)
  then show "prefix (s_out s) (concat (take (Suc (os_next s)) ms))"
    using out by (metis concat_append prefixI append.assoc)
  show "s_out s = concat ms" if "s_rpc s = R_End"
    using that parts(2,3) out by (auto simp: inv_stream_def inv_buf_def)
qed

lemma reachable_out:
  assumes "reachable (channel_ops ms) write_size spare s" and "\<forall>m \<in> set ms. length m < spare"
  shows "prefix (s_out s) (concat ms)" and "s_rpc s = R_End \<Longrightarrow> s_out s = concat ms"
proof -
  have "concat ms = concat (take (Suc (os_next s)) ms) @ concat (drop (Suc (os_next s)) ms)"
    by (metis append_take_drop_id concat_append)
  then have "prefix (concat (take (Suc (os_next s)) ms)) (concat ms)" by (metis prefixI)
  with reachable_bytes(2) [OF assms] show "prefix (s_out s) (concat ms)" by (rule prefix_order.trans)
qed (rule reachable_bytes(3) [OF assms])

subsection \<open>Stuck states\<close>

definition stuck :: "(nat \<Rightarrow> op option) \<Rightarrow> sys \<Rightarrow> bool" where
  "stuck ops s \<longleftrightarrow> (\<forall>i. step ops (Task i) s = s) \<and> step ops Stream s = s"

lemma stuck_stream:
  assumes "stream_step s = s"
  shows "s_rpc s = R_End \<or> s_rpc s = R_Parked \<and> \<not> s_rnotified s"
proof -
  have "s_rpc (stream_step s) = s_rpc s" using assms by simp
  then show ?thesis
    by (cases "s_rpc s") (auto simp: stream_step_def split: prod.splits poll.splits if_splits)
qed

lemma stuck_task:
  assumes "task_step (channel_ops ms) i s = s" and "i \<le> length ms" and "\<not> state_locked s" and "s_pc s i \<noteq> Panicked"
  shows "s_pc s i = Done \<or> s_pc s i = Parked \<and> \<not> s_notified s i"
proof -
  obtain oper where oper: "channel_ops ms i = Some oper" using assms(2) by (cases "i < length ms") (simp_all add: channel_ops_def)
  have "s_pc (task_step (channel_ops ms) i s) i = s_pc s i" using assms(1) by simp
  then show ?thesis
    using assms(3,4) oper
    by (cases "s_pc s i") (auto simp: task_step_def split: prod.splits poll.splits if_splits sum.splits option.splits op.splits)
qed

text \<open>When the tasks below \<open>k\<close> and the stream all sleep, the counter has passed \<open>k\<close>.\<close>

lemma idle_advances:
  assumes inv: "sender_inv w sp ms s" and sizes: "\<forall>m \<in> set ms. length m < sp"
    and rpc: "s_rpc s = R_End \<or> s_rpc s = R_Parked \<and> \<not> s_rnotified s"
    and idle: "\<And>i. i < k \<Longrightarrow> s_pc s i = Done \<or> s_pc s i = Parked \<and> \<not> s_notified s i" and k: "k \<le> Suc (length ms)"
  shows "k \<le> os_next s"
proof (rule ccontr)
  have parts: "inv_pc ms s" "inv_buf w sp ms s" "inv_wake ms s" "inv_stream s" using inv by (auto simp: sender_inv_def)
  assume "\<not> k \<le> os_next s"
  then have le: "os_next s < k" by simp
  have "s_pc s (os_next s) \<noteq> Done" using inv_pcD(3) [OF parts(1), of "os_next s"] by auto
  then have "placed ms s (os_next s)" using idle [OF le] parts(3) k le by (auto simp: inv_wake_def)
  moreover have "s_pc s (os_next s - 1) \<noteq> Added" using idle [OF less_imp_diff_less [OF le], of 1] by auto
  ultimately have full: "os_next s < length ms" "length (st_buf (os_state s)) < st_written (os_state s) + length (ms ! os_next s)"
    by (auto simp: placed_def)
  then have "length (ms ! os_next s) < sp" using sizes by simp
  then have "can_take (os_state s)" using full(2) parts(2) by (auto simp: can_take_def inv_buf_def)
  then show False using rpc parts(4) by (auto simp: inv_stream_def can_take_def)
qed

lemma stuck_complete:
  assumes inv: "sender_inv w sp ms s" and sizes: "\<forall>m \<in> set ms. length m < sp" and stuck: "stuck (channel_ops ms) s"
  shows "(\<forall>i \<le> length ms. s_pc s i = Done) \<and> s_rpc s = R_End \<and> s_out s = concat ms"
proof -
  have parts: "inv_pc ms s" "inv_buf w sp ms s" "inv_wake ms s" "inv_stream s" using inv by (auto simp: sender_inv_def)
  have rpc: "s_rpc s = R_End \<or> s_rpc s = R_Parked \<and> \<not> s_rnotified s" using stuck stuck_stream by (simp add: stuck_def)
  then have "\<not> state_locked s" by (auto simp: state_locked_def)
  then have idle: "s_pc s i = Done \<or> s_pc s i = Parked \<and> \<not> s_notified s i" if "i \<le> length ms" for i
    using stuck stuck_task [of ms i s] that inv_pcD(1) [OF parts(1), of i] by (simp add: stuck_def)
  have "length ms < os_next s" using idle_advances [OF inv sizes rpc, of "Suc (length ms)"] idle by (simp add: Suc_le_eq less_Suc_eq_le)
  then have all: "s_pc s i = Done" if "i \<le> length ms" for i
    using idle [OF that] inv_pcD(4) [OF parts(1), of i] that by auto
  have "st_closed (os_state s)" using parts(2) \<open>length ms < os_next s\<close> by (simp add: inv_buf_def sent_def)
  then have "s_rpc s = R_End" "st_written (os_state s) = 0" using rpc parts(4) by (auto simp: inv_stream_def)
  moreover have "s_out s @ take (st_written (os_state s)) (st_buf (os_state s)) = concat ms"
    using parts(2) \<open>length ms < os_next s\<close> by (simp add: inv_buf_def sent_def)
  ultimately show ?thesis using all by simp
qed

lemma done_stuck:
  assumes "\<forall>i \<le> length ms. s_pc s i = Done" and "s_rpc s = R_End"
  shows "stuck (channel_ops ms) s"
  using assms by (auto simp: stuck_def task_step_def stream_step_def channel_ops_def)

fun run_schedule :: "(nat \<Rightarrow> op option) \<Rightarrow> actor list \<Rightarrow> sys \<Rightarrow> sys" where
  "run_schedule ops [] s = s"
| "run_schedule ops (a # as) s = run_schedule ops as (step ops a s)"

lemma reachable_run: "reachable ops w sp s \<Longrightarrow> reachable ops w sp (run_schedule ops as s)"
  by (induction as arbitrary: s) (auto intro: reachable.act)

subsection \<open>Properties\<close>

text \<open>In every interleaving of the tasks that send the messages of a channel and close it with the task that reads
  the stream, and with any number of spurious polls, no poll panics, the bytes that the stream has
  produced are a prefix of the messages in the order of their indices, at most one message ahead of the counter, and the stream ends only after all of them.\<close>

lemma ordering_sender_order:
  assumes "reachable (channel_ops ms) write_size spare s" and "\<forall>m \<in> set ms. length m < spare"
  shows "(\<forall>i. s_pc s i \<noteq> Panicked) \<and> prefix (s_out s) (concat (take (Suc (os_next s)) ms))
    \<and> (s_rpc s = R_End \<longrightarrow> s_out s = concat ms)"
  using reachable_bytes [OF assms] by blast

definition example_messages :: "u8 list list" where
  "example_messages = [[1, 2], [3]]"

definition example_schedule :: "actor list" where
  "example_schedule = concat (map (replicate 8) [Task 1, Stream, Task 0, Stream, Repoll 1, Task 1, Stream, Task 2, Stream])"

definition example_run :: sys where
  "example_run = run_schedule (channel_ops example_messages) example_schedule (sys_new 1 4)"

lemma example_run_facts:
  "reachable (channel_ops example_messages) 1 4 example_run" "\<forall>m \<in> set example_messages. length m < 4"
  "\<forall>i \<le> length example_messages. s_pc example_run i = Done" "s_rpc example_run = R_End"
proof -
  show "reachable (channel_ops example_messages) 1 4 example_run"
    unfolding example_run_def by (intro reachable_run reachable.start)
  have "s_pc example_run 0 = Done" "s_pc example_run 1 = Done" "s_pc example_run 2 = Done" by code_simp+
  then show "\<forall>i \<le> length example_messages. s_pc example_run i = Done"
    by (auto simp: example_messages_def le_Suc_eq numeral_2_eq_2)
  show "s_rpc example_run = R_End" by code_simp
qed (simp add: example_messages_def)

lemma ordering_sender_order_witness: "s_rpc example_run = R_End \<and> s_out example_run = [1, 2, 3]"
  using ordering_sender_order [OF example_run_facts(1,2)] example_run_facts(4) by (simp add: example_messages_def)

text \<open>No wake-up is lost: whenever no task and not the stream can take another step, in whatever way they were interleaved, every message has been
  sent, the channel is closed and the stream has delivered all bytes in order.\<close>

lemma ordering_sender_no_lost_wakeup:
  assumes "reachable (channel_ops ms) write_size spare s" and "\<forall>m \<in> set ms. length m < spare" and "stuck (channel_ops ms) s"
  shows "(\<forall>i \<le> length ms. s_pc s i = Done) \<and> s_rpc s = R_End \<and> s_out s = concat ms"
  using stuck_complete [OF reachable_inv [OF assms(1,2)] assms(2,3)] .

end
