(* ===== verification/Record_Streams.thy ===== *)
theory Record_Streams
  imports Share_Wire Ordering_Sender
begin

text \<open>
  The streams that parse the inputs of a query, \<open>src/helpers/transport/stream/input.rs\<close>: a queue of byte buffers, a stream
  of records of fixed length and a stream of records with a length prefix. A byte stream is the sequence of its answers to
  polls, after which it is pending; \<open>Fuse\<close> is the flag that it has ended. \<open>Vec::with_capacity\<close> is taken to
  reserve the capacity it is asked for, as it does for bytes.
\<close>

subsection \<open>The queue of buffers\<close>

record BufDeque =
  buffered_size :: nat
  buffered :: "u8 list list"

definition buf_new :: BufDeque where
  "buf_new = \<lparr>buffered_size = 0, buffered = []\<rparr>"

definition contiguous_len :: "BufDeque \<Rightarrow> nat" where
  "contiguous_len b = (case buffered b of [] \<Rightarrow> 0 | x # _ \<Rightarrow> length x)"

text \<open>The loop that combines bytes across buffers.\<close>

function combine :: "nat \<Rightarrow> u8 list \<Rightarrow> u8 list list \<Rightarrow> (u8 list \<times> u8 list list) res" where
  "combine capacity out_bytes bufs =
     (let remaining_bytes = capacity - length out_bytes
      in if remaining_bytes = 0 then Inr (out_bytes, bufs)
         else case bufs of
           [] \<Rightarrow> Inl Panic
         | x # xs \<Rightarrow>
             if length x > remaining_bytes
             then combine capacity (out_bytes @ take remaining_bytes x) (drop remaining_bytes x # xs)
             else combine capacity (out_bytes @ x) xs)"
  by pat_completeness auto
termination
  by (relation "measure (\<lambda>(capacity, out_bytes, bufs). length bufs + (capacity - length out_bytes))") auto

declare combine.simps [simp del]

definition read_bytes :: "nat \<Rightarrow> BufDeque \<Rightarrow> (u8 list option \<times> BufDeque) res" where
  "read_bytes len b =
     (if len = 0 \<or> buffered_size b < len then Inr (None, b)
      else case buffered b of
        [] \<Rightarrow> Inl Panic
      | x # xs \<Rightarrow>
          if length x \<ge> len
          then Inr (Some (take len x),
                    \<lparr>buffered_size = buffered_size b - len, buffered = (if drop len x = [] then xs else drop len x # xs)\<rparr>)
          else bind_res (combine len [] (x # xs)) (\<lambda>(out_bytes, bufs).
                 Inr (Some out_bytes, \<lparr>buffered_size = buffered_size b - length out_bytes, buffered = bufs\<rparr>)))"

definition read_multi :: "'v wire \<Rightarrow> nat \<Rightarrow> BufDeque \<Rightarrow> ('v list option \<times> BufDeque) res" where
  "read_multi w count b =
     bind_res (read_bytes (count * wire_size w) b) (\<lambda>(r, b').
       case r of
         None \<Rightarrow> Inr (None, b')
       | Some bytes \<Rightarrow> bind_res (sequence_res (map (deserialize_slice w) (chunks (wire_size w) bytes))) (\<lambda>vs. Inr (Some vs, b')))"

definition read_one :: "'v wire \<Rightarrow> BufDeque \<Rightarrow> ('v option \<times> BufDeque) res" where
  "read_one w b =
     bind_res (read_bytes (wire_size w) b) (\<lambda>(r, b').
       case r of None \<Rightarrow> Inr (None, b') | Some bytes \<Rightarrow> bind_res (deserialize_slice w bytes) (\<lambda>v. Inr (Some v, b')))"

datatype 'e io_error = WriteZero nat | UnexpectedEof 'e | InvalidData 'e

datatype 'e ExtendResult = ExtendOk | Finished | ExtendError "'e io_error"

fun extend_buf :: "('e + u8 list) option \<Rightarrow> BufDeque \<Rightarrow> 'e ExtendResult \<times> BufDeque" where
  "extend_buf None b = (if buffered_size b > 0 then ExtendError (WriteZero (buffered_size b)) else Finished, b)"
| "extend_buf (Some (Inl err)) b = (ExtendError (UnexpectedEof err), b)"
| "extend_buf (Some (Inr bytes)) b =
     (ExtendOk, \<lparr>buffered_size = buffered_size b + length bytes, buffered = buffered b @ [bytes]\<rparr>)"

subsection \<open>Records of fixed length\<close>

type_synonym 'e byte_stream = "('e + u8 list) option poll list"

record 'e RecordsStream =
  rs_stream :: "'e byte_stream"
  rs_ended :: bool
  rs_buffer :: BufDeque

definition records_new :: "'e byte_stream \<Rightarrow> 'e RecordsStream" where
  "records_new str = \<lparr>rs_stream = str, rs_ended = False, rs_buffer = buf_new\<rparr>"

text \<open>A stream of one buffer, and of a list of buffers.\<close>

definition stream_of_vec :: "u8 list \<Rightarrow> 'e byte_stream" where
  "stream_of_vec v = [Ready (Some (Inr v)), Ready None]"

definition stream_of_iter :: "u8 list list \<Rightarrow> 'e byte_stream" where
  "stream_of_iter bufs = map (\<lambda>b. Ready (Some (Inr b))) bufs @ [Ready None]"

text \<open>What a poll does with an answer of the byte stream that is not data.\<close>

definition stop :: "'e ExtendResult \<Rightarrow> ('e io_error + 'v list) option poll" where
  "stop r = (case r of ExtendError err \<Rightarrow> Ready (Some (Inl err)) | _ \<Rightarrow> Ready None)"

fun records_loop ::
  "'v wire \<Rightarrow> BufDeque \<Rightarrow> bool \<Rightarrow> 'e byte_stream \<Rightarrow> (('e io_error + 'v list) option poll \<times> 'e RecordsStream) res"
where
  "records_loop w b ended str =
     bind_res (read_multi w (max 1 (contiguous_len b div wire_size w)) b) (\<lambda>(r, b').
       case r of
         Some items \<Rightarrow> Inr (Ready (Some (Inr items)), \<lparr>rs_stream = str, rs_ended = ended, rs_buffer = b'\<rparr>)
       | None \<Rightarrow>
           if ended then Inr (stop (fst (extend_buf None b' :: 'e ExtendResult \<times> BufDeque)), \<lparr>rs_stream = str, rs_ended = ended, rs_buffer = b'\<rparr>)
           else case str of
             [] \<Rightarrow> Inr (Pending, \<lparr>rs_stream = [], rs_ended = False, rs_buffer = b'\<rparr>)
           | Pending # str' \<Rightarrow> Inr (Pending, \<lparr>rs_stream = str', rs_ended = False, rs_buffer = b'\<rparr>)
           | Ready polled_item # str' \<Rightarrow>
               (case extend_buf polled_item b' of
                  (ExtendOk, b'') \<Rightarrow> records_loop w b'' False str'
                | (r', b'') \<Rightarrow> Inr (stop r', \<lparr>rs_stream = str', rs_ended = (polled_item = None), rs_buffer = b''\<rparr>)))"

declare records_loop.simps [simp del]

definition records_poll :: "'v wire \<Rightarrow> 'e RecordsStream \<Rightarrow> (('e io_error + 'v list) option poll \<times> 'e RecordsStream) res" where
  "records_poll w s =
     (if wire_size w = 0 then Inl Panic else records_loop w (rs_buffer s) (rs_ended s) (rs_stream s))"

subsection \<open>Records with a length prefix\<close>

text \<open>\<open>Length\<close> is a \<open>u16\<close> in little-endian order.\<close>

definition length_wire :: "16 word wire" where
  "length_wire = \<lparr>wire_size = 2, serialize = to_le_bytes, deserialize = (\<lambda>buf. Inr (from_le_bytes buf))\<rparr>"

record 'e LengthDelimitedStream =
  ld_stream :: "'e byte_stream"
  ld_ended :: bool
  ld_buffer :: BufDeque
  ld_pending_len :: "nat option"

definition length_delimited_new :: "'e byte_stream \<Rightarrow> 'e LengthDelimitedStream" where
  "length_delimited_new str = \<lparr>ld_stream = str, ld_ended = False, ld_buffer = buf_new, ld_pending_len = None\<rparr>"

text \<open>One turn of the loop up to the bytes of a record: the pending length, read when there is none, and the bytes it announces. The
  third component is the number of bytes consumed.\<close>

definition ld_length :: "nat option \<Rightarrow> BufDeque \<Rightarrow> (nat option \<times> nat \<times> BufDeque) res" where
  "ld_length pending b =
     (case pending of
        Some len \<Rightarrow> Inr (Some len, 0, b)
      | None \<Rightarrow> bind_res (read_one length_wire b) (\<lambda>(r, b').
          Inr (case r of Some len \<Rightarrow> (Some (unat len), wire_size length_wire, b') | None \<Rightarrow> (None, 0, b'))))"

definition ld_next :: "nat option \<Rightarrow> BufDeque \<Rightarrow> (u8 list option \<times> nat option \<times> nat \<times> BufDeque) res" where
  "ld_next pending b =
     bind_res (ld_length pending b) (\<lambda>(pending', consumed, b').
       case pending' of
         None \<Rightarrow> Inr (None, None, consumed, b')
       | Some len \<Rightarrow>
           bind_res (if len = 0 then Inr (Some [], b') else read_bytes len b') (\<lambda>(bytes, b'').
             Inr (case bytes of Some bs \<Rightarrow> (Some bs, None, consumed + len, b'') | None \<Rightarrow> (None, Some len, consumed, b''))))"

lemma combine_steps:
  "capacity \<le> length out \<Longrightarrow> combine capacity out bufs = Inr (out, bufs)"
  "length out < capacity \<Longrightarrow> combine capacity out [] = Inl Panic"
  "length out < capacity \<Longrightarrow> capacity - length out < length x
    \<Longrightarrow> combine capacity out (x # xs) = Inr (out @ take (capacity - length out) x, drop (capacity - length out) x # xs)"
  "length out < capacity \<Longrightarrow> length x \<le> capacity - length out \<Longrightarrow> combine capacity out (x # xs) = combine capacity (out @ x) xs"
  by (subst combine.simps; simp add: Let_def; subst combine.simps; simp)+

lemma combine_length: "combine capacity out bufs = Inr (out', bufs') \<Longrightarrow> length out \<le> capacity \<Longrightarrow> length out' = capacity"
proof (induction bufs arbitrary: out)
  case Nil
  then show ?case by (cases "length out < capacity") (simp_all add: combine_steps)
next
  case (Cons x xs)
  consider "length out = capacity" | "length out < capacity" "capacity - length out < length x"
    | "length out < capacity" "length x \<le> capacity - length out" using Cons.prems(2) by linarith
  then show ?case using Cons by cases (auto simp: combine_steps)
qed

lemma combine_ok:
  assumes "length out \<le> capacity" and "capacity \<le> length out + length (concat bufs)"
  shows "\<exists>bufs'. combine capacity out bufs = Inr (out @ take (capacity - length out) (concat bufs), bufs')
    \<and> concat bufs' = drop (capacity - length out) (concat bufs)"
  using assms
proof (induction bufs arbitrary: out)
  case Nil
  then show ?case by (simp add: combine_steps)
next
  case (Cons x xs)
  consider "length out = capacity" | "length out < capacity" "capacity - length out < length x"
    | "length out < capacity" "length x \<le> capacity - length out" using Cons.prems(1) by linarith
  then show ?case
  proof cases
    case 3
    have "length (out @ x) \<le> capacity" "capacity \<le> length (out @ x) + length (concat xs)" using 3 Cons.prems by auto
    then obtain bufs' where "combine capacity (out @ x) xs = Inr ((out @ x) @ take (capacity - length (out @ x)) (concat xs), bufs')"
        "concat bufs' = drop (capacity - length (out @ x)) (concat xs)"
      using Cons.IH by blast
    then show ?thesis using 3 by (simp add: combine_steps)
  qed (simp_all add: combine_steps)
qed

lemma read_bytes_size:
  assumes "read_bytes len b = Inr (r, b')"
  shows "case r of None \<Rightarrow> b' = b | Some bs \<Rightarrow> length bs = len \<and> 0 < len \<and> len \<le> buffered_size b \<and> buffered_size b' = buffered_size b - len"
proof (cases "len = 0 \<or> buffered_size b < len")
  case False
  then obtain x xs where "buffered b = x # xs" using assms by (auto simp: read_bytes_def split: list.splits)
  then show ?thesis using False assms combine_length [of len "[]" "x # xs"]
    by (auto simp: read_bytes_def bind_res_eq_Inr_iff split: if_splits)
qed (use assms in \<open>auto simp: read_bytes_def\<close>)

lemma read_one_size:
  assumes "read_one w b = Inr (r, b')"
  shows "case r of None \<Rightarrow> b' = b | Some _ \<Rightarrow> wire_size w \<le> buffered_size b \<and> buffered_size b' = buffered_size b - wire_size w"
proof -
  obtain bs b1 where read: "read_bytes (wire_size w) b = Inr (bs, b1)"
    using assms by (cases "read_bytes (wire_size w) b") (auto simp: read_one_def)
  then show ?thesis using assms read_bytes_size [OF read]
    by (cases bs) (auto simp: read_one_def bind_res_eq_Inr_iff)
qed

lemma ld_length_size:
  assumes "ld_length pending b = Inr (pending', consumed, b')"
  shows "2 * buffered_size b' + (case pending' of Some _ \<Rightarrow> 1 | None \<Rightarrow> 0) \<le> 2 * buffered_size b + (case pending of Some _ \<Rightarrow> 1 | None \<Rightarrow> 0)"
proof (cases pending)
  case None
  then obtain r b1 where "read_one length_wire b = Inr (r, b1)" using assms
    by (cases "read_one length_wire b") (auto simp: ld_length_def)
  then show ?thesis using assms None read_one_size [of length_wire b r b1]
    by (cases r) (auto simp: ld_length_def length_wire_def)
qed (use assms in \<open>simp add: ld_length_def\<close>)

lemma ld_next_size:
  assumes "ld_next pending b = Inr (Some bs, pending', consumed, b')"
  shows "pending' = None" and "2 * buffered_size b' < 2 * buffered_size b + (case pending of Some _ \<Rightarrow> 1 | None \<Rightarrow> 0)"
proof -
  obtain p1 c1 b1 where len: "ld_length pending b = Inr (p1, c1, b1)" using assms
    by (cases "ld_length pending b") (auto simp: ld_next_def)
  then obtain n where n: "p1 = Some n" using assms by (cases p1) (auto simp: ld_next_def)
  then have "(if n = 0 then Inr (Some [], b1) else read_bytes n b1) = Inr (Some bs, b')" "pending' = None"
    using assms len by (cases "n = 0"; cases "read_bytes n b1"; cases "fst (projr (read_bytes n b1))"; force simp: ld_next_def)+
  then have "buffered_size b' \<le> buffered_size b1" using read_bytes_size [of n b1] by (auto split: if_splits)
  then show "2 * buffered_size b' < 2 * buffered_size b + (case pending of Some _ \<Rightarrow> 1 | None \<Rightarrow> 0)"
    using ld_length_size [OF len] n by simp
  show "pending' = None" by fact
qed

lemma ld_next_less:
  assumes "ld_next pending b = Inr (Some bs, pending', consumed, b')"
  shows "2 * buffered_size b' + (case pending' of Some _ \<Rightarrow> 1 | None \<Rightarrow> 0) < 2 * buffered_size b + (case pending of Some _ \<Rightarrow> 1 | None \<Rightarrow> 0)"
  using ld_next_size [OF assms] by simp

text \<open>The end of the stream is an error while a length is pending.\<close>

definition ld_stop :: "nat option \<Rightarrow> 'e ExtendResult \<Rightarrow> ('e io_error + 'a list) option poll" where
  "ld_stop pending r =
     (case r of
        ExtendError err \<Rightarrow> Ready (Some (Inl err))
      | _ \<Rightarrow> if pending \<noteq> None then Ready (Some (Inl (WriteZero (wire_size length_wire)))) else Ready None)"

type_synonym ('e, 'a) ld_answer = "('e io_error + 'a list) option poll \<times> 'e LengthDelimitedStream"

text \<open>The loop of a poll: \<open>available\<close>, \<open>consumed\<close> and \<open>items\<close> are its local variables. The byte stream is polled only when there is nothing to return.\<close>

function ld_loop ::
  "(u8 list \<Rightarrow> 'e + 'a) \<Rightarrow> nat \<Rightarrow> nat \<Rightarrow> 'a list \<Rightarrow> nat option \<Rightarrow> BufDeque \<Rightarrow> bool \<Rightarrow> 'e byte_stream \<Rightarrow> ('e, 'a) ld_answer res"
where
  "ld_loop try_from available consumed items pending b ended str =
     (case ld_next pending b of
        Inl e \<Rightarrow> Inl e
      | Inr (Some bytes, pending', n, b') \<Rightarrow>
          (case try_from bytes of
             Inl err \<Rightarrow> Inr (Ready (Some (Inl (InvalidData err))), \<lparr>ld_stream = str, ld_ended = ended, ld_buffer = b', ld_pending_len = pending'\<rparr>)
           | Inr item \<Rightarrow>
               if available \<noteq> 0 \<and> consumed + n < available
               then ld_loop try_from available (consumed + n) (items @ [item]) pending' b' ended str
               else Inr (Ready (Some (Inr (items @ [item]))), \<lparr>ld_stream = str, ld_ended = ended, ld_buffer = b', ld_pending_len = pending'\<rparr>))
      | Inr (None, pending', n, b') \<Rightarrow>
          if items \<noteq> [] then Inr (Ready (Some (Inr items)), \<lparr>ld_stream = str, ld_ended = ended, ld_buffer = b', ld_pending_len = pending'\<rparr>)
          else if ended then
            Inr (ld_stop pending' (fst (extend_buf None b')), \<lparr>ld_stream = str, ld_ended = ended, ld_buffer = b', ld_pending_len = pending'\<rparr>)
          else case str of
            [] \<Rightarrow> Inr (Pending, \<lparr>ld_stream = [], ld_ended = False, ld_buffer = b', ld_pending_len = pending'\<rparr>)
          | Pending # str' \<Rightarrow> Inr (Pending, \<lparr>ld_stream = str', ld_ended = False, ld_buffer = b', ld_pending_len = pending'\<rparr>)
          | Ready polled_item # str' \<Rightarrow>
              (case extend_buf polled_item b' of
                 (ExtendOk, b'') \<Rightarrow>
                   ld_loop try_from (if available = 0 then contiguous_len b'' else available) (consumed + n) items pending' b'' False str'
               | (r, b'') \<Rightarrow>
                   Inr (ld_stop pending' r, \<lparr>ld_stream = str', ld_ended = (polled_item = None), ld_buffer = b'', ld_pending_len = pending'\<rparr>)))"
  by pat_completeness auto
termination
  by (relation "measures [\<lambda>(_, _, _, _, pending, b, _, str). length str,
      \<lambda>(_, _, _, _, pending, b, _, str). 2 * buffered_size b + (case pending of Some _ \<Rightarrow> 1 | None \<Rightarrow> 0)]")
    (auto dest: ld_next_less)

declare ld_loop.simps [simp del]

definition ld_poll :: "(u8 list \<Rightarrow> 'e + 'a) \<Rightarrow> 'e LengthDelimitedStream \<Rightarrow> ('e, 'a) ld_answer res" where
  "ld_poll try_from s = ld_loop try_from 0 0 [] (ld_pending_len s) (ld_buffer s) (ld_ended s) (ld_stream s)"

subsection \<open>Bytes in the queue and in the stream\<close>

definition buf_bytes :: "BufDeque \<Rightarrow> u8 list" where
  "buf_bytes b = concat (buffered b)"

definition buf_ok :: "BufDeque \<Rightarrow> bool" where
  "buf_ok b \<longleftrightarrow> buffered_size b = length (buf_bytes b)"

lemma read_bytes_none: "buf_ok b \<Longrightarrow> len = 0 \<or> length (buf_bytes b) < len \<Longrightarrow> read_bytes len b = Inr (None, b)"
  by (simp add: read_bytes_def buf_ok_def)

lemma read_bytes_some:
  assumes "buf_ok b" and "0 < len" and "len \<le> length (buf_bytes b)"
  shows "\<exists>b'. read_bytes len b = Inr (Some (take len (buf_bytes b)), b') \<and> buf_ok b' \<and> buf_bytes b' = drop len (buf_bytes b)"
proof -
  obtain x xs where b: "buffered b = x # xs" using assms by (cases "buffered b") (auto simp: buf_bytes_def)
  show ?thesis
  proof (cases "len \<le> length x")
    case True
    then show ?thesis using assms b by (simp add: read_bytes_def buf_ok_def buf_bytes_def)
  next
    case False
    obtain bufs' where c: "combine len [] (x # xs) = Inr (take len (x @ concat xs), bufs')" "concat bufs' = drop len (x @ concat xs)"
      using combine_ok [of "[]" len "x # xs"] assms b by (auto simp: buf_bytes_def)
    have "min (length x + length (concat xs)) len = len" using assms(3) b by (simp add: buf_bytes_def)
    then show ?thesis using assms b c False by (simp add: read_bytes_def buf_ok_def buf_bytes_def min.commute)
  qed
qed

lemma extend_buf_ok:
  assumes "buf_ok b"
  shows "\<exists>b'. extend_buf (Some (Inr c)) b = (ExtendOk, b') \<and> buf_ok b' \<and> buf_bytes b' = buf_bytes b @ c"
    and "extend_buf None b = (if buf_bytes b \<noteq> [] then ExtendError (WriteZero (length (buf_bytes b))) else Finished, b)"
  using assms by (auto simp: buf_ok_def buf_bytes_def)

text \<open>The data a byte stream delivers up to its end, and that it delivers no error.\<close>

fun stream_data :: "'e byte_stream \<Rightarrow> u8 list" where
  "stream_data [] = []"
| "stream_data (Pending # str) = stream_data str"
| "stream_data (Ready None # str) = []"
| "stream_data (Ready (Some (Inr c)) # str) = c @ stream_data str"
| "stream_data (Ready (Some (Inl e)) # str) = []"

fun clean :: "'e byte_stream \<Rightarrow> bool" where
  "clean [] \<longleftrightarrow> True"
| "clean (Pending # str) \<longleftrightarrow> clean str"
| "clean (Ready None # str) \<longleftrightarrow> True"
| "clean (Ready (Some (Inr c)) # str) \<longleftrightarrow> clean str"
| "clean (Ready (Some (Inl e)) # str) \<longleftrightarrow> False"

text \<open>What is still to be parsed.\<close>

definition to_read :: "BufDeque \<Rightarrow> bool \<Rightarrow> 'e byte_stream \<Rightarrow> u8 list" where
  "to_read b ended str = buf_bytes b @ (if ended then [] else stream_data str)"

context wire_format
begin

lemma take_serialized: "take (n * wire_size w) (concat (map (serialize w) us)) = concat (map (serialize w) (take n us))"
proof (induction us arbitrary: n)
  case (Cons u us)
  then show ?case by (cases n) (simp_all add: serialize_length)
qed simp

lemma drop_serialized: "drop (n * wire_size w) (concat (map (serialize w) us)) = concat (map (serialize w) (drop n us))"
proof (induction us arbitrary: n)
  case (Cons u us)
  then show ?case by (cases n) (simp_all add: serialize_length)
qed simp

lemma deserialize_all: "sequence_res (map (deserialize_slice w) (map (serialize w) us)) = Inr us"
  by (induction us) (simp_all add: deserialize_slice_serialize)

text \<open>Reading whole records from the front of serialised records.\<close>

lemma read_multi_some:
  assumes "buf_ok b" and "buf_bytes b @ later = concat (map (serialize w) us) @ rest" and "length rest < wire_size w"
    and "0 < n" and "n * wire_size w \<le> length (buf_bytes b)"
  shows "\<exists>b'. read_multi w n b = Inr (Some (take n us), b') \<and> buf_ok b' \<and> buf_bytes b' @ later = concat (map (serialize w) (drop n us)) @ rest
    \<and> take n us \<noteq> []"
proof -
  let ?k = "n * wire_size w"
  have k: "0 < ?k" using assms(4) size_pos by simp
  obtain b' where b': "read_bytes ?k b = Inr (Some (take ?k (buf_bytes b)), b')" "buf_ok b'" "buf_bytes b' = drop ?k (buf_bytes b)"
    using read_bytes_some [OF assms(1) k assms(5)] by blast
  have "?k \<le> length us * wire_size w + length rest"
    using assms(5) arg_cong [OF assms(2), of length] length_serialized [of us] by simp
  then have "n * wire_size w < (length us + 1) * wire_size w" using assms(3) by simp
  then have "n < length us + 1" by (rule mult_right_less_imp_less) simp
  then have n: "n \<le> length us" by simp
  have len: "?k \<le> length (concat (map (serialize w) us))" using n length_serialized [of us] by simp
  have "take ?k (buf_bytes b) = take ?k (concat (map (serialize w) us))"
    using arg_cong [OF assms(2), of "take ?k"] assms(5) len by simp
  then have bytes: "take ?k (buf_bytes b) = concat (map (serialize w) (take n us))" by (simp add: take_serialized)
  have "read_multi w n b = Inr (Some (take n us), b')"
    using deserialize_all [of "take n us"] by (simp add: read_multi_def b'(1) bytes chunks_serialized)
  moreover have "buf_bytes b' @ later = concat (map (serialize w) (drop n us)) @ rest"
    using arg_cong [OF assms(2), of "drop ?k"] assms(5) len by (simp add: b'(3) drop_serialized)
  moreover have "take n us \<noteq> []" using n assms(4) by auto
  ultimately show ?thesis using b'(2) by blast
qed

lemma records_read:
  assumes "buf_ok b" and "buf_bytes b @ later = concat (map (serialize w) us) @ rest" and "length rest < wire_size w"
  shows "if length (buf_bytes b) < wire_size w then read_multi w (max 1 (contiguous_len b div wire_size w)) b = Inr (None, b)
    else \<exists>items us' b'. read_multi w (max 1 (contiguous_len b div wire_size w)) b = Inr (Some items, b') \<and> buf_ok b'
      \<and> buf_bytes b' @ later = concat (map (serialize w) us') @ rest \<and> us = items @ us' \<and> items \<noteq> []"
proof -
  let ?n = "max 1 (contiguous_len b div wire_size w)"
  have contiguous: "contiguous_len b \<le> length (buf_bytes b)"
    by (auto simp: contiguous_len_def buf_bytes_def split: list.splits)
  show ?thesis
  proof (cases "length (buf_bytes b) < wire_size w")
    case True
    then have "?n = 1" using contiguous by simp
    then show ?thesis using True read_bytes_none [OF assms(1), of "wire_size w"] by (simp add: read_multi_def)
  next
    case False
    have "contiguous_len b div wire_size w * wire_size w \<le> length (buf_bytes b)"
      using contiguous div_times_less_eq_dividend [of "contiguous_len b" "wire_size w"] by linarith
    then have "?n * wire_size w \<le> length (buf_bytes b)" using False by (auto simp: max_def)
    then have "\<exists>b'. read_multi w ?n b = Inr (Some (take ?n us), b') \<and> buf_ok b'
        \<and> buf_bytes b' @ later = concat (map (serialize w) (drop ?n us)) @ rest \<and> take ?n us \<noteq> []"
      by (intro read_multi_some [OF assms]) simp_all
    then show ?thesis using False by (metis append_take_drop_id)
  qed
qed

lemma short_empty:
  assumes "xs = concat (map (serialize w) us) @ rest" and "length xs < wire_size w"
  shows "us = []" and "rest = xs"
proof -
  show "us = []" using assms length_serialized [of us] by (cases us) (auto simp: serialize_length)
  then show "rest = xs" using assms(1) by simp
qed

end

text \<open>What a poll promises: the records that are left are \<open>us\<close>, followed by an incomplete record \<open>rest\<close>.\<close>

definition records_answer ::
  "'v wire \<Rightarrow> 'v list \<Rightarrow> u8 list \<Rightarrow> bool \<Rightarrow> 'e byte_stream \<Rightarrow> ('e io_error + 'v list) option poll \<Rightarrow> 'e RecordsStream \<Rightarrow> bool"
where
  "records_answer w us rest ended str ans st \<longleftrightarrow>
     buf_ok (rs_buffer st) \<and> (rs_ended st \<or> clean (rs_stream st))
     \<and> (case ans of
          Pending \<Rightarrow> \<not> ended \<and> (Pending \<in> set str \<or> Ready None \<notin> set str)
            \<and> to_read (rs_buffer st) (rs_ended st) (rs_stream st) = concat (map (serialize w) us) @ rest
        | Ready None \<Rightarrow> us = [] \<and> rest = [] \<and> to_read (rs_buffer st) (rs_ended st) (rs_stream st) = []
        | Ready (Some (Inl e)) \<Rightarrow> us = [] \<and> rest \<noteq> [] \<and> e = WriteZero (length rest)
            \<and> to_read (rs_buffer st) (rs_ended st) (rs_stream st) = rest
        | Ready (Some (Inr items)) \<Rightarrow> \<exists>us'. items \<noteq> [] \<and> us = items @ us'
            \<and> to_read (rs_buffer st) (rs_ended st) (rs_stream st) = concat (map (serialize w) us') @ rest)"

context wire_format
begin

lemma records_loop_items:
  assumes "buf_ok b" and "to_read b ended str = concat (map (serialize w) us) @ rest" and "length rest < wire_size w"
    and "ended \<or> clean str" and "wire_size w \<le> length (buf_bytes b)"
  shows "\<exists>ans st. records_loop w b ended str = Inr (ans, st) \<and> records_answer w us rest ended' str' ans st"
proof -
  obtain items us' b' where n: "read_multi w (max 1 (contiguous_len b div wire_size w)) b = Inr (Some items, b')" "buf_ok b'"
      "buf_bytes b' @ (if ended then [] else stream_data str) = concat (map (serialize w) us') @ rest" "us = items @ us'" "items \<noteq> []"
    using records_read [OF assms(1) assms(2) [unfolded to_read_def] assms(3)] assms(5) by auto
  then have "records_loop w b ended str = Inr (Ready (Some (Inr items)), \<lparr>rs_stream = str, rs_ended = ended, rs_buffer = b'\<rparr>)"
    by (subst records_loop.simps) simp
  then show ?thesis using n assms(4) unfolding records_answer_def to_read_def by (intro exI conjI) auto
qed

lemma records_loop_short:
  assumes "buf_ok b" and "length (buf_bytes b) < wire_size w"
    and "to_read b ended str = concat (map (serialize w) us) @ rest" and "length rest < wire_size w"
  shows "read_multi w (max 1 (contiguous_len b div wire_size w)) b = Inr (None, b)"
  using records_read [OF assms(1) assms(3) [unfolded to_read_def] assms(4)] assms(2) by simp

lemma records_loop_ok:
  fixes str :: "'e byte_stream"
  assumes "buf_ok b" and "to_read b ended str = concat (map (serialize w) us) @ rest" and "length rest < wire_size w"
    and "ended \<or> clean str"
  shows "\<exists>ans st. records_loop w b ended str = Inr (ans, st) \<and> records_answer w us rest ended str ans st"
  using assms
proof (induction str arbitrary: b)
  case Nil
  show ?case
  proof (cases "length (buf_bytes b) < wire_size w")
    case True
    note read = records_loop_short [OF Nil(1) True Nil(2,3), unfolded One_nat_def]
    show ?thesis using Nil short_empty [OF Nil(2)] True
      by (subst records_loop.simps) (auto simp: read extend_buf_ok(2) [OF Nil(1)] stop_def records_answer_def to_read_def simp del: extend_buf.simps)
  next
    case False
    then show ?thesis by (intro records_loop_items [OF Nil]) simp
  qed
next
  case (Cons a str)
  show ?case
  proof (cases "length (buf_bytes b) < wire_size w")
    case True
    note read = records_loop_short [OF Cons(2) True Cons(3,4), unfolded One_nat_def]
    show ?thesis
    proof (cases ended)
      case ended: True
      then show ?thesis using Cons.prems short_empty [OF Cons(3)] True
        by (subst records_loop.simps) (auto simp: read extend_buf_ok(2) [OF Cons(2)] stop_def records_answer_def to_read_def simp del: extend_buf.simps)
    next
      case going: False
      consider (pending) "a = Pending" | (finished) "a = Ready None" | (data) c where "a = Ready (Some (Inr c))"
        using Cons(5) going by (cases "a # str" rule: clean.cases) auto
      then show ?thesis
      proof cases
        case pending
        then show ?thesis using Cons.prems going
          by (subst records_loop.simps) (auto simp: read records_answer_def to_read_def)
      next
        case finished
        then show ?thesis using Cons.prems going short_empty [OF Cons(3)] True
          by (subst records_loop.simps) (auto simp: read extend_buf_ok(2) [OF Cons(2)] stop_def records_answer_def to_read_def simp del: extend_buf.simps)
      next
        case data
        obtain b' where b': "extend_buf (Some (Inr c) :: ('e + u8 list) option) b = (ExtendOk, b')" "buf_ok b'" "buf_bytes b' = buf_bytes b @ c"
          using extend_buf_ok(1) [OF Cons(2)] by blast
        have "to_read b' False str = concat (map (serialize w) us) @ rest" using Cons(3) data going b'(3) by (simp add: to_read_def)
        moreover have "clean str" using Cons(5) data going by simp
        ultimately obtain ans st where "records_loop w b' False str = Inr (ans, st)" "records_answer w us rest False str ans st"
          using Cons.IH [OF b'(2)] Cons(4) going by auto
        then show ?thesis using data going b'(1)
          by (subst records_loop.simps) (auto simp: read records_answer_def simp del: extend_buf.simps split: poll.splits)
      qed
    qed
  next
    case False
    then show ?thesis by (intro records_loop_items [OF Cons.prems]) simp
  qed
qed

end

subsection \<open>Executions of a stream of records\<close>

text \<open>Polls of the stream, with the records returned so far.\<close>

inductive records_reachable :: "'v wire \<Rightarrow> 'e byte_stream \<Rightarrow> 'e RecordsStream \<Rightarrow> 'v list \<Rightarrow> bool" for w str where
  start: "records_reachable w str (records_new str) []"
| items: "records_reachable w str st out \<Longrightarrow> records_poll w st = Inr (Ready (Some (Inr items)), st') \<Longrightarrow> records_reachable w str st' (out @ items)"
| other: "records_reachable w str st out \<Longrightarrow> records_poll w st = Inr (ans, st') \<Longrightarrow> \<forall>items. ans \<noteq> Ready (Some (Inr items))
    \<Longrightarrow> records_reachable w str st' out"

definition records_inv :: "'v wire \<Rightarrow> 'v list \<Rightarrow> u8 list \<Rightarrow> 'e RecordsStream \<Rightarrow> 'v list \<Rightarrow> bool" where
  "records_inv w vs rest st out \<longleftrightarrow> buf_ok (rs_buffer st) \<and> (rs_ended st \<or> clean (rs_stream st))
     \<and> (\<exists>us. vs = out @ us \<and> to_read (rs_buffer st) (rs_ended st) (rs_stream st) = concat (map (serialize w) us) @ rest)"

context wire_format
begin

lemma records_poll_ok:
  assumes "records_inv w vs rest st out" and "length rest < wire_size w"
  shows "\<exists>us ans st'. vs = out @ us \<and> records_poll w st = Inr (ans, st') \<and> records_answer w us rest (rs_ended st) (rs_stream st) ans st'"
proof -
  obtain us where us: "vs = out @ us" "buf_ok (rs_buffer st)" "rs_ended st \<or> clean (rs_stream st)"
      "to_read (rs_buffer st) (rs_ended st) (rs_stream st) = concat (map (serialize w) us) @ rest"
    using assms(1) by (auto simp: records_inv_def)
  obtain ans st' where "records_loop w (rs_buffer st) (rs_ended st) (rs_stream st) = Inr (ans, st')"
      "records_answer w us rest (rs_ended st) (rs_stream st) ans st'"
    using records_loop_ok [OF us(2,4) assms(2) us(3)] by blast
  then show ?thesis using us(1) size_pos by (auto simp: records_poll_def)
qed

lemma records_reachable_inv:
  assumes "records_reachable w str st out" and "clean str" and "stream_data str = concat (map (serialize w) vs) @ rest"
    and "length rest < wire_size w"
  shows "records_inv w vs rest st out"
  using assms(1)
proof induction
  case start
  then show ?case using assms by (simp add: records_inv_def records_new_def buf_ok_def buf_bytes_def buf_new_def to_read_def)
next
  case (items st out items st')
  obtain us ans st1 where "vs = out @ us" "records_poll w st = Inr (ans, st1)" "records_answer w us rest (rs_ended st) (rs_stream st) ans st1"
    using records_poll_ok [OF items.IH assms(4)] by blast
  then show ?case using items by (auto simp: records_answer_def records_inv_def)
next
  case (other st out ans st')
  obtain us ans1 st1 where "vs = out @ us" "records_poll w st = Inr (ans1, st1)" "records_answer w us rest (rs_ended st) (rs_stream st) ans1 st1"
    using records_poll_ok [OF other.IH assms(4)] by blast
  then show ?case using other by (auto simp: records_answer_def records_inv_def split: poll.splits option.splits sum.splits)
qed

end

text \<open>C39: Reading records of fixed length from a byte stream gives back the records that were written, however the bytes were
  cut into chunks, empty ones included, and whenever the stream was pending: no poll panics, the records returned so far are
  a prefix of the records, the stream ends when all of them were returned and no byte is left over, and reports the
  number of bytes left over otherwise. A poll is pending only when the byte stream is.\<close>

theorem records_stream_correct:
  assumes "wire_format w" and "records_reachable w str st out" and "clean str"
    and "stream_data str = concat (map (serialize w) vs) @ rest" and "length rest < wire_size w"
  shows "\<exists>us ans st'. vs = out @ us \<and> records_poll w st = Inr (ans, st') \<and> (case ans of
      Pending \<Rightarrow> \<not> rs_ended st \<and> (Pending \<in> set (rs_stream st) \<or> Ready None \<notin> set (rs_stream st))
    | Ready None \<Rightarrow> us = [] \<and> rest = []
    | Ready (Some (Inl e)) \<Rightarrow> us = [] \<and> rest \<noteq> [] \<and> e = WriteZero (length rest)
    | Ready (Some (Inr items)) \<Rightarrow> items \<noteq> [] \<and> prefix items us)"
proof -
  obtain us ans st' where u: "vs = out @ us" "records_poll w st = Inr (ans, st')" "records_answer w us rest (rs_ended st) (rs_stream st) ans st'"
    using wire_format.records_poll_ok [OF assms(1) wire_format.records_reachable_inv [OF assms] assms(5)] by blast
  from u(3) have "case ans of
      Pending \<Rightarrow> \<not> rs_ended st \<and> (Pending \<in> set (rs_stream st) \<or> Ready None \<notin> set (rs_stream st))
    | Ready None \<Rightarrow> us = [] \<and> rest = []
    | Ready (Some (Inl e)) \<Rightarrow> us = [] \<and> rest \<noteq> [] \<and> e = WriteZero (length rest)
    | Ready (Some (Inr items)) \<Rightarrow> items \<noteq> [] \<and> prefix items us"
    by (auto simp: records_answer_def split: poll.splits option.splits sum.splits)
  with u(1,2) show ?thesis by blast
qed

subsection \<open>Frames\<close>

interpretation length_wire: wire_format length_wire
proof unfold_locales
  fix v :: "16 word"
  show "length (serialize length_wire v) = wire_size length_wire" by (simp add: length_wire_def)
  have "from_le_bytes (to_le_bytes v) = v"
    using from_le_bytes_of_bytes [of v 2] by (simp add: to_le_bytes_def numeral_2_eq_2 take_bit_word_eq_self)
  then show "deserialize length_wire (serialize length_wire v) = Inr v" by (simp add: length_wire_def)
qed (simp add: length_wire_def)

definition length_bytes :: "nat \<Rightarrow> u8 list" where
  "length_bytes n = serialize length_wire (of_nat n)"

definition frame :: "u8 list \<Rightarrow> u8 list" where
  "frame u = length_bytes (length u) @ u"

text \<open>The bytes that are left over when a stream is cut inside a frame.\<close>

definition incomplete :: "u8 list \<Rightarrow> bool" where
  "incomplete rest \<longleftrightarrow> length rest < 2 \<or> length rest < 2 + unat (from_le_bytes (take 2 rest) :: 16 word)"

lemma length_bytes_length [simp]: "length (length_bytes n) = 2"
  using length_wire.serialize_length by (simp add: length_bytes_def length_wire_def)

lemma length_bytes_value: "n < 2 ^ 16 \<Longrightarrow> unat (from_le_bytes (length_bytes n) :: 16 word) = n"
  using length_wire.deserialize_serialize [of "of_nat n"] by (simp add: length_bytes_def length_wire_def unat_of_nat take_bit_nat_eq_self)

lemma length_bytes_from:
  assumes "length bs = 2"
  shows "length_bytes (unat (from_le_bytes bs :: 16 word)) = bs"
proof -
  obtain x y where bs: "bs = [x, y]" using assms by (auto simp: length_Suc_conv numeral_2_eq_2)
  have "ucast (ucast x OR push_bit 8 (ucast y) :: 16 word) = x" "ucast (drop_bit 8 (ucast x OR push_bit 8 (ucast y) :: 16 word)) = y"
    by (rule bit_eqI; auto simp: bit_simps dest: bit_imp_le_length)+
  then show ?thesis
    by (simp add: bs length_bytes_def length_wire_def to_le_bytes_def from_le_bytes_Cons numeral_2_eq_2 upt_rec)
qed

definition pending_bytes :: "nat option \<Rightarrow> u8 list" where
  "pending_bytes pending = (case pending of None \<Rightarrow> [] | Some n \<Rightarrow> length_bytes n)"

text \<open>The records \<open>us\<close>, each with its length, and an incomplete one.\<close>

definition framed :: "u8 list list \<Rightarrow> u8 list \<Rightarrow> u8 list \<Rightarrow> bool" where
  "framed us rest xs \<longleftrightarrow> xs = concat (map frame us) @ rest \<and> incomplete rest \<and> (\<forall>u \<in> set us. length u < 2 ^ 16)"

lemma framed_head:
  assumes "framed us rest (length_bytes n @ xs)" and "n < 2 ^ 16" and "n \<le> length xs"
  obtains u us' where "us = u # us'" and "length u = n" and "framed us' rest (drop n xs)" and "take n xs = u"
proof (cases us)
  case Nil
  then have "rest = length_bytes n @ xs" "incomplete rest" using assms(1) by (auto simp: framed_def)
  then show thesis using assms(2,3) length_bytes_value [OF assms(2)] by (simp add: incomplete_def)
next
  case (Cons u us')
  then have eq: "length_bytes n @ xs = length_bytes (length u) @ (u @ concat (map frame us') @ rest)" and u: "length u < 2 ^ 16"
    using assms(1) by (auto simp: framed_def frame_def)
  have same: "length_bytes n = length_bytes (length u)" and xs: "xs = u @ concat (map frame us') @ rest"
    using eq by (auto dest: append_eq_append_conv [THEN iffD1, rotated])
  have "n = length u" using length_bytes_value [OF assms(2)] length_bytes_value [OF u] unfolding same by simp
  with xs show thesis using that [of u us'] Cons assms(1) by (auto simp: framed_def)
qed

lemma ld_next_some:
  assumes "buf_ok b" and "n < 2 ^ 16" and "framed us rest (length_bytes n @ buf_bytes b @ later)"
  shows "if n \<le> length (buf_bytes b)
    then \<exists>u us' k b'. us = u # us' \<and> ld_next (Some n) b = Inr (Some u, None, k, b') \<and> buf_ok b' \<and> framed us' rest (buf_bytes b' @ later)
    else ld_next (Some n) b = Inr (None, Some n, 0, b)"
proof (cases "n \<le> length (buf_bytes b)")
  case True
  obtain u us' where u: "us = u # us'" "length u = n" "framed us' rest (drop n (buf_bytes b @ later))" "take n (buf_bytes b @ later) = u"
    using framed_head [OF assms(3,2)] True by auto
  show ?thesis
  proof (cases "n = 0")
    case zero: True
    then show ?thesis using u assms(1) by (simp add: ld_next_def ld_length_def)
  next
    case False
    then obtain b' where "read_bytes n b = Inr (Some (take n (buf_bytes b)), b')" "buf_ok b'" "buf_bytes b' = drop n (buf_bytes b)"
      using read_bytes_some [OF assms(1), of n] True by auto
    then show ?thesis using u True False by (simp add: ld_next_def ld_length_def)
  qed
next
  case False
  then show ?thesis using read_bytes_none [OF assms(1), of n] by (simp add: ld_next_def ld_length_def)
qed

lemma ld_next_none:
  assumes "buf_ok b"
  shows "if length (buf_bytes b) < 2 then ld_next None b = Inr (None, None, 0, b)
    else \<exists>b1. ld_next None b = bind_res (ld_next (Some (unat (from_le_bytes (take 2 (buf_bytes b)) :: 16 word))) b1)
        (\<lambda>(r, p, k, b'). Inr (r, p, 2 + k, b')) \<and> buf_ok b1 \<and> buf_bytes b1 = drop 2 (buf_bytes b)"
proof (cases "length (buf_bytes b) < 2")
  case True
  then show ?thesis using read_bytes_none [OF assms, of 2] by (simp add: ld_next_def ld_length_def read_one_def length_wire_def)
next
  case False
  then obtain b1 where b1: "read_bytes 2 b = Inr (Some (take 2 (buf_bytes b)), b1)" "buf_ok b1" "buf_bytes b1 = drop 2 (buf_bytes b)"
    using read_bytes_some [OF assms, of 2] by auto
  let ?n = "unat (from_le_bytes (take 2 (buf_bytes b)) :: 16 word)"
  have "ld_length None b = Inr (Some ?n, 2, b1)"
    using False b1(1) by (simp add: ld_length_def read_one_def length_wire_def deserialize_slice_def)
  then have "ld_next None b = bind_res (ld_next (Some ?n) b1) (\<lambda>(r, p, k, b'). Inr (r, p, 2 + k, b'))"
    by (cases "read_bytes ?n b1") (auto simp: ld_next_def ld_length_def split: option.splits)
  then show ?thesis using False b1 by auto
qed

lemma ld_next_ok:
  assumes "buf_ok b" and "\<forall>n. pending = Some n \<longrightarrow> n < 2 ^ 16" and "framed us rest (pending_bytes pending @ buf_bytes b @ later)"
  shows "(\<exists>u us' k b'. us = u # us' \<and> ld_next pending b = Inr (Some u, None, k, b') \<and> buf_ok b' \<and> framed us' rest (buf_bytes b' @ later))
    \<or> (\<exists>pending' k b'. ld_next pending b = Inr (None, pending', k, b') \<and> buf_ok b' \<and> (\<forall>n. pending' = Some n \<longrightarrow> n < 2 ^ 16)
        \<and> pending_bytes pending' @ buf_bytes b' = pending_bytes pending @ buf_bytes b
        \<and> (case pending' of None \<Rightarrow> length (buf_bytes b') < 2 | Some n \<Rightarrow> length (buf_bytes b') < n))"
proof (cases pending)
  case (Some n)
  then show ?thesis using ld_next_some [OF assms(1), of n us rest later] assms
    by (cases "n \<le> length (buf_bytes b)") (auto simp: pending_bytes_def)
next
  case None
  show ?thesis
  proof (cases "length (buf_bytes b) < 2")
    case True
    then show ?thesis using None ld_next_none [OF assms(1)] assms(1) by (auto simp: pending_bytes_def)
  next
    case False
    let ?n = "unat (from_le_bytes (take 2 (buf_bytes b)) :: 16 word)"
    obtain b1 where b1: "ld_next None b = bind_res (ld_next (Some ?n) b1) (\<lambda>(r, p, k, b'). Inr (r, p, 2 + k, b'))"
        "buf_ok b1" "buf_bytes b1 = drop 2 (buf_bytes b)"
      using ld_next_none [OF assms(1)] False by auto
    have n: "?n < 2 ^ 16" using unsigned_less [of "from_le_bytes (take 2 (buf_bytes b)) :: 16 word"] by simp
    have "length_bytes ?n = take 2 (buf_bytes b)" using False by (intro length_bytes_from) simp
    then have eq: "length_bytes ?n @ buf_bytes b1 = buf_bytes b" by (simp add: b1(3))
    then have "framed us rest (length_bytes ?n @ buf_bytes b1 @ later)" using assms(3) None by (simp add: pending_bytes_def flip: append_assoc)
    from ld_next_some [OF b1(2) n this] show ?thesis using None b1(1,2) n eq
      by (cases "?n \<le> length (buf_bytes b1)") (auto simp: pending_bytes_def)
  qed
qed

text \<open>What a poll promises when the records left are \<open>us\<close>, followed by an incomplete one. The number of bytes reported does not
  count the length prefix that was already read, unless nothing follows it.\<close>

definition extra_bytes :: "u8 list \<Rightarrow> nat" where
  "extra_bytes rest = (if length rest \<le> 2 then length rest else length rest - 2)"

definition ld_ok :: "u8 list list \<Rightarrow> u8 list \<Rightarrow> nat option \<Rightarrow> BufDeque \<Rightarrow> bool \<Rightarrow> 'e byte_stream \<Rightarrow> bool" where
  "ld_ok us rest pending b ended str \<longleftrightarrow> buf_ok b \<and> (ended \<or> clean str) \<and> (\<forall>n. pending = Some n \<longrightarrow> n < 2 ^ 16)
     \<and> framed us rest (pending_bytes pending @ to_read b ended str)"

abbreviation ld_state_ok :: "u8 list list \<Rightarrow> u8 list \<Rightarrow> 'e LengthDelimitedStream \<Rightarrow> bool" where
  "ld_state_ok us rest st \<equiv> ld_ok us rest (ld_pending_len st) (ld_buffer st) (ld_ended st) (ld_stream st)"

definition ld_promise ::
  "(u8 list \<Rightarrow> 'a) \<Rightarrow> u8 list list \<Rightarrow> u8 list \<Rightarrow> 'a list \<Rightarrow> bool \<Rightarrow> 'e byte_stream \<Rightarrow> ('e io_error + 'a list) option poll \<Rightarrow> 'e LengthDelimitedStream \<Rightarrow> bool"
where
  "ld_promise f us rest items ended str ans st \<longleftrightarrow> (case ans of
      Pending \<Rightarrow> items = [] \<and> \<not> ended \<and> (Pending \<in> set str \<or> Ready None \<notin> set str) \<and> ld_state_ok us rest st
    | Ready None \<Rightarrow> items = [] \<and> us = [] \<and> rest = [] \<and> ld_state_ok us rest st
    | Ready (Some (Inl e)) \<Rightarrow> items = [] \<and> us = [] \<and> rest \<noteq> [] \<and> e = WriteZero (extra_bytes rest) \<and> ld_state_ok us rest st
    | Ready (Some (Inr xs)) \<Rightarrow> \<exists>us1 us2. us = us1 @ us2 \<and> xs = items @ map f us1 \<and> xs \<noteq> [] \<and> ld_state_ok us2 rest st)"

lemma framed_end:
  assumes "framed us rest (pending_bytes pending @ buf_bytes b)" and "\<forall>n. pending = Some n \<longrightarrow> n < 2 ^ 16"
    and "case pending of None \<Rightarrow> length (buf_bytes b) < 2 | Some n \<Rightarrow> length (buf_bytes b) < n"
  shows "us = []" and "rest = pending_bytes pending @ buf_bytes b"
proof -
  show "us = []"
  proof (rule ccontr)
    assume "us \<noteq> []"
    then obtain u us' where us: "us = u # us'" by (cases us) auto
    then have eq: "pending_bytes pending @ buf_bytes b = length_bytes (length u) @ (u @ concat (map frame us') @ rest)" and u: "length u < 2 ^ 16"
      using assms(1) by (auto simp: framed_def frame_def)
    show False
    proof (cases pending)
      case None
      then show False using arg_cong [OF eq, of length] assms(3) by (simp add: pending_bytes_def)
    next
      case (Some n)
      then have "length_bytes n = length_bytes (length u)" "buf_bytes b = u @ concat (map frame us') @ rest"
        using eq by (auto simp: pending_bytes_def dest: append_eq_append_conv [THEN iffD1, rotated])
      moreover have "n = length u" if "length_bytes n = length_bytes (length u)"
        using length_bytes_value [of n] length_bytes_value [OF u] assms(2) Some that by simp
      ultimately show False using assms(3) Some by simp
    qed
  qed
  then show "rest = pending_bytes pending @ buf_bytes b" using assms(1) by (simp add: framed_def)
qed

lemma ld_stop_end:
  assumes "framed us rest (pending_bytes pending @ buf_bytes b)" and "\<forall>n. pending = Some n \<longrightarrow> n < 2 ^ 16"
    and "case pending of None \<Rightarrow> length (buf_bytes b) < 2 | Some n \<Rightarrow> length (buf_bytes b) < n" and "buf_ok b"
  shows "us = [] \<and> (ld_stop pending (fst (extend_buf None b)) :: ('e io_error + 'a list) option poll)
    = (if rest = [] then Ready None else Ready (Some (Inl (WriteZero (extra_bytes rest)))))"
proof -
  have nonempty: "length_bytes n \<noteq> []" for n using length_bytes_length [of n] by (metis list.size(3) zero_neq_numeral)
  have "buffered_size b = length (buf_bytes b)" using assms(4) by (simp add: buf_ok_def)
  then show ?thesis using framed_end [OF assms(1-3)] assms(3)
    by (cases pending) (auto simp: ld_stop_def extra_bytes_def pending_bytes_def length_wire_def nonempty)
qed

lemma ld_promise_items:
  assumes "us = us1 @ us2" and "xs = items @ map f us1" and "xs \<noteq> []" and "ld_state_ok us2 rest st"
  shows "ld_promise f us rest items ended str (Ready (Some (Inr xs))) st"
  unfolding ld_promise_def using assms by auto

lemma ld_promise_Cons:
  assumes "ld_promise f us rest (items @ [f u]) ended str ans st"
  shows "ld_promise f (u # us) rest items ended str ans st"
proof -
  obtain xs us1 us2 where *: "ans = Ready (Some (Inr xs))" "us = us1 @ us2" "xs = items @ map f (u # us1)" "ld_state_ok us2 rest st"
    using assms by (auto simp: ld_promise_def split: poll.splits option.splits sum.splits)
  show ?thesis unfolding *(1) by (rule ld_promise_items [OF _ *(3) _ *(4)]) (simp_all add: *(2,3))
qed

lemma ld_promise_later:
  assumes "ld_promise f us rest items False str ans st"
  shows "ld_promise f us rest items False (Ready (Some c) # str) ans st"
  using assms by (auto simp: ld_promise_def split: poll.splits option.splits sum.splits)

lemma ld_loop_ok:
  fixes str :: "'e byte_stream" and f :: "u8 list \<Rightarrow> 'a"
  assumes "ld_ok us rest pending b ended str" and "\<forall>u \<in> set us. try_from u = Inr (f u)"
  shows "\<exists>ans st. ld_loop try_from available consumed items pending b ended str = Inr (ans, st)
    \<and> ld_promise f us rest items ended str ans st"
  using assms
proof (induction try_from available consumed items pending b ended str arbitrary: us rule: ld_loop.induct)
  case (1 try_from available consumed items pending b ended str)
  have ok: "buf_ok b" "ended \<or> clean str" "\<forall>n. pending = Some n \<longrightarrow> n < 2 ^ 16"
      "framed us rest (pending_bytes pending @ buf_bytes b @ (if ended then [] else stream_data str))"
    using 1(3) by (auto simp: ld_ok_def to_read_def)
  from ld_next_ok [OF ok(1,3,4)] show ?case
  proof
    assume "\<exists>u us' k b'. us = u # us' \<and> ld_next pending b = Inr (Some u, None, k, b') \<and> buf_ok b'
      \<and> framed us' rest (buf_bytes b' @ (if ended then [] else stream_data str))"
    then obtain u us' k b' where u: "us = u # us'" "ld_next pending b = Inr (Some u, None, k, b')" "buf_ok b'"
        "framed us' rest (buf_bytes b' @ (if ended then [] else stream_data str))" by blast
    have try_ok: "try_from u = Inr (f u)" using 1(4) u(1) by simp
    have ok': "ld_ok us' rest None b' ended str" using u ok(2) by (simp add: ld_ok_def to_read_def pending_bytes_def)
    show ?case
    proof (cases "available \<noteq> 0 \<and> consumed + k < available")
      case True
      obtain ans st where "ld_loop try_from available (consumed + k) (items @ [f u]) None b' ended str = Inr (ans, st)"
          and p: "ld_promise f us' rest (items @ [f u]) ended str ans st"
        using 1(2) [OF u(2) refl refl refl refl try_ok True ok'] 1(4) u(1) by auto
      then have "ld_loop try_from available consumed items pending b ended str = Inr (ans, st)"
        by (subst ld_loop.simps) (use u(2) try_ok True in simp)
      moreover have "ld_promise f us rest items ended str ans st"
        unfolding u(1) by (rule ld_promise_Cons [OF p])
      ultimately show ?thesis by blast
    next
      case False
      then have "ld_loop try_from available consumed items pending b ended str
          = Inr (Ready (Some (Inr (items @ [f u]))), \<lparr>ld_stream = str, ld_ended = ended, ld_buffer = b', ld_pending_len = None\<rparr>)"
        by (subst ld_loop.simps) (use u(2) try_ok in auto)
      moreover have "ld_promise f us rest items ended str (Ready (Some (Inr (items @ [f u]))))
          \<lparr>ld_stream = str, ld_ended = ended, ld_buffer = b', ld_pending_len = None\<rparr>"
        by (rule ld_promise_items [of _ "[u]" us']) (simp_all add: u(1) ok')
      ultimately show ?thesis by blast
    qed
  next
    assume "\<exists>pending' k b'. ld_next pending b = Inr (None, pending', k, b') \<and> buf_ok b' \<and> (\<forall>n. pending' = Some n \<longrightarrow> n < 2 ^ 16)
        \<and> pending_bytes pending' @ buf_bytes b' = pending_bytes pending @ buf_bytes b
        \<and> (case pending' of None \<Rightarrow> length (buf_bytes b') < 2 | Some n \<Rightarrow> length (buf_bytes b') < n)"
    then obtain pending' k b' where n: "ld_next pending b = Inr (None, pending', k, b')" "buf_ok b'" "\<forall>n. pending' = Some n \<longrightarrow> n < 2 ^ 16"
        "pending_bytes pending' @ buf_bytes b' = pending_bytes pending @ buf_bytes b"
        "case pending' of None \<Rightarrow> length (buf_bytes b') < 2 | Some n \<Rightarrow> length (buf_bytes b') < n" by blast
    have left: "ld_ok us rest pending' b' ended str" using 1(3) n(2-4) by (simp add: ld_ok_def to_read_def flip: append_assoc)
    note loop = ld_loop.simps [of try_from available consumed items pending b ended str, unfolded n(1)]
    consider (items) "items \<noteq> []" | (ended) "items = []" "ended" | (empty) "items = []" "\<not> ended" "str = []"
      | (pending) str' where "items = []" "\<not> ended" "str = Pending # str'"
      | (finished) str' where "items = []" "\<not> ended" "str = Ready None # str'"
      | (data) c str' where "items = []" "\<not> ended" "str = Ready (Some (Inr c)) # str'"
      using ok(2) by (cases str rule: clean.cases; cases "items = []"; cases ended) auto
    then show ?case
    proof cases
      case items
      have "ld_promise f us rest items ended str (Ready (Some (Inr items)))
          \<lparr>ld_stream = str, ld_ended = ended, ld_buffer = b', ld_pending_len = pending'\<rparr>"
        by (rule ld_promise_items [of _ "[]" us]) (simp_all add: left items)
      then show ?thesis using items loop by simp
    next
      case ended
      then have "framed us rest (pending_bytes pending' @ buf_bytes b')" using left by (simp add: ld_ok_def to_read_def)
      from ld_stop_end [OF this n(3,5,2), where 'e = 'e and 'a = 'a] show ?thesis using ended left loop
        by (cases "rest = []") (auto simp: ld_promise_def simp del: extend_buf.simps)
    next
      case empty
      then show ?thesis using left loop by (auto simp: ld_promise_def)
    next
      case pending
      then show ?thesis using left loop by (auto simp: ld_promise_def ld_ok_def to_read_def)
    next
      case finished
      then have fr: "framed us rest (pending_bytes pending' @ buf_bytes b')" using left by (simp add: ld_ok_def to_read_def)
      then have over: "ld_ok us rest pending' b' True str'" using left by (simp add: ld_ok_def to_read_def)
      obtain r where r: "extend_buf (None :: ('e + u8 list) option) b' = (r, b')" "r \<noteq> ExtendOk" by simp
      then have "ld_loop try_from available consumed items pending b ended str
          = Inr (ld_stop pending' r, \<lparr>ld_stream = str', ld_ended = True, ld_buffer = b', ld_pending_len = pending'\<rparr>)"
        using loop finished by (cases r) (simp_all del: extend_buf.simps)
      with ld_stop_end [OF fr n(3,5,2), where 'e = 'e and 'a = 'a] r(1) show ?thesis using finished over
        by (cases "rest = []") (auto simp: ld_promise_def simp del: extend_buf.simps)
    next
      case data
      obtain b1 where b1: "extend_buf (Some (Inr c) :: ('e + u8 list) option) b' = (ExtendOk, b1)" "buf_ok b1" "buf_bytes b1 = buf_bytes b' @ c"
        using extend_buf_ok(1) [OF n(2)] by blast
      have "ld_ok us rest pending' b1 False str'" using left data b1(2,3) by (simp add: ld_ok_def to_read_def)
      then obtain ans st where a: "ld_loop try_from (if available = 0 then contiguous_len b1 else available) (consumed + k) items pending' b1 False str' = Inr (ans, st)"
          "ld_promise f us rest items False str' ans st"
        using 1(1) [OF n(1) refl refl refl refl _ _ data(3) refl b1(1) [symmetric] refl] 1(4) data by blast
      then show ?thesis using data loop b1(1) ld_promise_later [OF a(2)] by (auto simp del: extend_buf.simps)
    qed
  qed
qed

subsection \<open>Executions of a stream of framed records\<close>

inductive ld_reachable :: "(u8 list \<Rightarrow> 'e + 'a) \<Rightarrow> 'e byte_stream \<Rightarrow> 'e LengthDelimitedStream \<Rightarrow> 'a list \<Rightarrow> bool" for try_from str where
  start: "ld_reachable try_from str (length_delimited_new str) []"
| items: "ld_reachable try_from str st out \<Longrightarrow> ld_poll try_from st = Inr (Ready (Some (Inr items)), st') \<Longrightarrow> ld_reachable try_from str st' (out @ items)"
| other: "ld_reachable try_from str st out \<Longrightarrow> ld_poll try_from st = Inr (ans, st') \<Longrightarrow> \<forall>items. ans \<noteq> Ready (Some (Inr items))
    \<Longrightarrow> ld_reachable try_from str st' out"

lemma ld_poll_ok:
  assumes "ld_state_ok us rest st" and "\<forall>u \<in> set us. try_from u = Inr (f u)"
  shows "\<exists>ans st'. ld_poll try_from st = Inr (ans, st') \<and> ld_promise f us rest [] (ld_ended st) (ld_stream st) ans st'"
  unfolding ld_poll_def by (rule ld_loop_ok [OF assms])

lemma ld_reachable_inv:
  assumes "ld_reachable try_from str st out" and "clean str" and "framed vs rest (stream_data str)" and "\<forall>u \<in> set vs. try_from u = Inr (f u)"
  shows "\<exists>vs1 us. vs = vs1 @ us \<and> out = map f vs1 \<and> ld_state_ok us rest st"
  using assms(1)
proof induction
  case start
  have "ld_state_ok vs rest (length_delimited_new str)"
    using assms(2,3) by (simp add: length_delimited_new_def ld_ok_def buf_ok_def buf_bytes_def buf_new_def to_read_def pending_bytes_def)
  then show ?case by (intro exI [of _ "[]"] exI [of _ vs]) simp
next
  case (items st out items st')
  then obtain vs1 us where us: "vs = vs1 @ us" "out = map f vs1" "ld_state_ok us rest st" by blast
  then have "ld_promise f us rest [] (ld_ended st) (ld_stream st) (Ready (Some (Inr items))) st'"
    using ld_poll_ok [OF us(3), of try_from f] assms(4) items(2) by auto
  then obtain us1 us2 where "us = us1 @ us2" "items = map f us1" "ld_state_ok us2 rest st'" by (auto simp: ld_promise_def)
  then show ?case using us by (intro exI [of _ "vs1 @ us1"] exI [of _ us2]) simp
next
  case (other st out ans st')
  then obtain vs1 us where us: "vs = vs1 @ us" "out = map f vs1" "ld_state_ok us rest st" by blast
  then have "ld_promise f us rest [] (ld_ended st) (ld_stream st) ans st'"
    using ld_poll_ok [OF us(3), of try_from f] assms(4) other(2) by auto
  then have "ld_state_ok us rest st'" using other(3) by (auto simp: ld_promise_def split: poll.splits option.splits sum.splits)
  then show ?case using us by blast
qed

text \<open>C40: Reading records with a length prefix gives back the records that were written, however the bytes were cut into chunks, with
  records of length zero, several records in a chunk and records over several chunks: no poll panics, the records parsed so
  far are a prefix, the stream ends when all were returned and nothing is left over, and otherwise reports an error, also when it was cut
  inside a length prefix or right after one.\<close>

theorem length_delimited_correct:
  assumes "ld_reachable try_from str st out" and "clean str"
    and "stream_data str = concat (map frame vs) @ rest" and "\<forall>u \<in> set vs. length u < 2 ^ 16" and "incomplete rest"
    and "\<forall>u \<in> set vs. try_from u = Inr (f u)"
  shows "\<exists>us ans st'. map f vs = out @ map f us \<and> ld_poll try_from st = Inr (ans, st') \<and> (case ans of
      Pending \<Rightarrow> \<not> ld_ended st \<and> (Pending \<in> set (ld_stream st) \<or> Ready None \<notin> set (ld_stream st))
    | Ready None \<Rightarrow> us = [] \<and> rest = []
    | Ready (Some (Inl e)) \<Rightarrow> us = [] \<and> rest \<noteq> [] \<and> e = WriteZero (extra_bytes rest)
    | Ready (Some (Inr items)) \<Rightarrow> items \<noteq> [] \<and> prefix items (map f us))"
proof -
  have "framed vs rest (stream_data str)" using assms(3-5) by (simp add: framed_def)
  then obtain vs1 us where us: "vs = vs1 @ us" "out = map f vs1" "ld_state_ok us rest st"
    using ld_reachable_inv [OF assms(1,2) _ assms(6)] by blast
  have "\<forall>u \<in> set us. try_from u = Inr (f u)" using assms(6) us(1) by simp
  then obtain ans st' where ans: "ld_poll try_from st = Inr (ans, st')" "ld_promise f us rest [] (ld_ended st) (ld_stream st) ans st'"
    using ld_poll_ok [OF us(3)] by blast
  from ans(2) have "case ans of
      Pending \<Rightarrow> \<not> ld_ended st \<and> (Pending \<in> set (ld_stream st) \<or> Ready None \<notin> set (ld_stream st))
    | Ready None \<Rightarrow> us = [] \<and> rest = []
    | Ready (Some (Inl e)) \<Rightarrow> us = [] \<and> rest \<noteq> [] \<and> e = WriteZero (extra_bytes rest)
    | Ready (Some (Inr items)) \<Rightarrow> items \<noteq> [] \<and> prefix items (map f us)"
    by (auto simp: ld_promise_def split: poll.splits option.splits sum.splits)
  then show ?thesis using us(1,2) ans(1) by (intro exI [of _ us] exI [of _ ans] exI [of _ st']) simp
qed

subsection \<open>Examples\<close>

text \<open>A stream that is cut inside the second record.\<close>

definition example_input :: "unit byte_stream" where
  "example_input = [Ready (Some (Inr [2, 0, 5])), Pending, Ready (Some (Inr [6, 0, 0, 1])), Ready None]"

theorem length_delimited_correct_witness:
  "\<exists>ans st'. ld_poll Inr (length_delimited_new example_input) = Inr (ans, st') \<and> ans \<noteq> Ready None"
proof -
  have frames: "concat (map frame [[5, 6], []]) = [2, 0, 5, 6, 0, 0]" by code_simp
  have data: "stream_data example_input = concat (map frame [[5, 6], []]) @ [1]" unfolding frames by (simp add: example_input_def)
  have hyps: "clean example_input" "\<forall>u \<in> set [[5, 6], []]. length (u :: u8 list) < 2 ^ 16" "incomplete [1]"
    by (simp_all add: example_input_def incomplete_def)
  show ?thesis using length_delimited_correct [OF ld_reachable.start hyps(1) data hyps(2,3), of Inr id] by auto
qed

theorem records_stream_correct_witness:
  "\<exists>ans st'. records_poll gf_wire (records_new (stream_of_iter [[7], [], [9]] :: unit byte_stream)) = Inr (ans :: (unit io_error + 8 word list) option poll, st')
    \<and> ans \<noteq> Ready None"
proof -
  have fmt: "wire_format (gf_wire :: 8 word wire)" ..
  have bytes: "concat (map (serialize gf_wire) [7, 9 :: 8 word]) = [7, 9]" by code_simp
  have data: "stream_data (stream_of_iter [[7], [], [9]] :: unit byte_stream) = concat (map (serialize gf_wire) [7, 9 :: 8 word]) @ []"
    unfolding bytes by (simp add: stream_of_iter_def)
  have hyps: "clean (stream_of_iter [[7], [], [9]] :: unit byte_stream)" "length ([] :: u8 list) < wire_size (gf_wire :: 8 word wire)"
    using wire_format.size_pos [OF fmt] by (simp_all add: stream_of_iter_def)
  show ?thesis using records_stream_correct [OF fmt records_reachable.start hyps(1) data hyps(2)] by auto
qed

end
