(* ===== verification/Unordered_Receiver.thy ===== *)
theory Unordered_Receiver
  imports Helpers Ordering_Sender
begin

text \<open>
  The receiving end of a channel, \<open>src/helpers/buffers/unordered_receiver.rs\<close>: a stream of byte chunks is cut into messages of
  equal size, which may be asked for in any order. A poll holds the mutex for its whole duration, so
  each poll is one action. The stream is the sequence of answers it gives to its polls, after
  which it is pending. The indices of overflowed wakers are kept, as the build with stall detection does.
\<close>

record ChannelId =
  ch_role :: role
  ch_gate :: string

text \<open>The infrastructure errors that the gateway raises.\<close>

datatype infra_error =
    ReceiveError role string infra_error
  | EndOfStream record_id
  | TooManyRecords record_id ChannelId total_records

subsection \<open>Spare data\<close>

record Spare =
  sp_buf :: "u8 list"
  sp_offset :: nat

definition spare_default :: Spare where
  "spare_default = \<lparr>sp_buf = [], sp_offset = 0\<rparr>"

text \<open>A message is its bytes here; \<open>M::deserialize\<close> is applied to the result of a poll.\<close>

definition spare_read :: "nat \<Rightarrow> Spare \<Rightarrow> u8 list option \<times> Spare" where
  "spare_read sz s =
     (let end_at = sp_offset s + sz
      in if end_at \<le> length (sp_buf s) then (Some (take sz (drop (sp_offset s) (sp_buf s))), s\<lparr>sp_offset := end_at\<rparr>)
         else (None, s))"

definition spare_replace :: "u8 list \<Rightarrow> Spare \<Rightarrow> Spare" where
  "spare_replace v s = s\<lparr>sp_buf := v, sp_offset := 0\<rparr>"

definition spare_extend :: "nat \<Rightarrow> u8 list \<Rightarrow> Spare \<Rightarrow> u8 list option \<times> Spare" where
  "spare_extend sz v s =
     (let remainder = length (sp_buf s) - sp_offset s
      in if remainder + length v < sz
         then (None, s\<lparr>sp_buf := drop (sp_offset s) (sp_buf s) @ v, sp_offset := 0\<rparr>)
         else if remainder > 0
         then let needed = sz - remainder
              in (Some (drop (sp_offset s) (sp_buf s) @ take needed v), spare_replace (drop needed v) s)
         else (Some (take sz v), spare_replace (drop sz v) s))"

subsection \<open>The operating state\<close>

type_synonym stream = "u8 list option poll list"

record OperatingState =
  rx_stream :: stream
  rx_next :: nat
  rx_max_polled_idx :: nat
  rx_spare :: Spare
  rx_wakers :: "nat option list"
  rx_overflow :: "(nat \<times> nat) list"

definition rx_new :: "stream \<Rightarrow> nat \<Rightarrow> OperatingState res" where
  "rx_new stream capacity =
     (if capacity > 1
      then Inr \<lparr>rx_stream = stream, rx_next = 0, rx_max_polled_idx = 0, rx_spare = spare_default,
                rx_wakers = replicate capacity None, rx_overflow = []\<rparr>
      else Inl Panic)"

definition is_next :: "nat \<Rightarrow> OperatingState \<Rightarrow> bool" where
  "is_next i st \<longleftrightarrow> i = rx_next st"

definition add_waker :: "nat \<Rightarrow> nat \<Rightarrow> OperatingState \<Rightarrow> OperatingState res" where
  "add_waker i w st =
     (if \<not> i > rx_next st then Inl Panic
      else if i > rx_next st + length (rx_wakers st) then Inr (st\<lparr>rx_overflow := rx_overflow st @ [(w, i)]\<rparr>)
      else
        let index = i mod length (rx_wakers st)
        in case rx_wakers st ! index of
             Some old \<Rightarrow> if w = old then Inr (st\<lparr>rx_wakers := (rx_wakers st)[index := Some w]\<rparr>) else Inl Panic
           | None \<Rightarrow> Inr (st\<lparr>rx_wakers := (rx_wakers st)[index := Some w]\<rparr>))"

text \<open>Returns the wakers that are woken.\<close>

definition wake_next :: "OperatingState \<Rightarrow> OperatingState \<times> nat list" where
  "wake_next st =
     (let next = rx_next st + 1; index = next mod length (rx_wakers st);
          woken = opt_list (rx_wakers st ! index);
          st' = st\<lparr>rx_next := next, rx_wakers := (rx_wakers st)[index := None]\<rparr>
      in if next mod (length (rx_wakers st) div 2) = 0
         then (st'\<lparr>rx_overflow := []\<rparr>, woken @ map fst (rx_overflow st))
         else (st', woken))"

text \<open>The loop over the answers of the stream.\<close>

fun poll_stream :: "nat \<Rightarrow> Spare \<Rightarrow> stream \<Rightarrow> u8 list option poll \<times> Spare \<times> stream" where
  "poll_stream sz s [] = (Pending, s, [])"
| "poll_stream sz s (Pending # str) = (Pending, s, str)"
| "poll_stream sz s (Ready None # str) = (Ready None, s, str)"
| "poll_stream sz s (Ready (Some b) # str) =
     (case spare_extend sz b s of
        (Some m, s') \<Rightarrow> (Ready (Some m), s', str)
      | (None, s') \<Rightarrow> poll_stream sz s' str)"

definition poll_next :: "nat \<Rightarrow> OperatingState \<Rightarrow> (infra_error + u8 list) poll \<times> OperatingState \<times> nat list" where
  "poll_next sz st =
     (let st = st\<lparr>rx_max_polled_idx := max (rx_max_polled_idx st) (rx_next st)\<rparr>
      in case spare_read sz (rx_spare st) of
           (Some m, s) \<Rightarrow> (case wake_next (st\<lparr>rx_spare := s\<rparr>) of (st', woken) \<Rightarrow> (Ready (Inr m), st', woken))
         | (None, s) \<Rightarrow>
             (case poll_stream sz s (rx_stream st) of
                (Ready (Some m), s', str) \<Rightarrow>
                  (case wake_next (st\<lparr>rx_spare := s', rx_stream := str\<rparr>) of (st', woken) \<Rightarrow> (Ready (Inr m), st', woken))
              | (Ready None, s', str) \<Rightarrow> (Ready (Inl (EndOfStream (rx_next st))), st\<lparr>rx_spare := s', rx_stream := str\<rparr>, [])
              | (Pending, s', str) \<Rightarrow> (Pending, st\<lparr>rx_spare := s', rx_stream := str\<rparr>, [])))"

text \<open>\<open>Receiver::poll\<close> at index \<open>i\<close> in a task with waker \<open>w\<close>.\<close>

definition receiver_poll :: "nat \<Rightarrow> nat \<Rightarrow> nat \<Rightarrow> OperatingState \<Rightarrow> ((infra_error + u8 list) poll \<times> OperatingState \<times> nat list) res" where
  "receiver_poll sz i w st =
     (if is_next i st then Inr (poll_next sz st)
      else bind_res (add_waker i w st) (\<lambda>st'. Inr (Pending, st', [])))"

text \<open>The records that are waited for, as stall detection reports them.\<close>

definition rx_waiting :: "OperatingState \<Rightarrow> nat list" where
  "rx_waiting st =
     (let len = length (rx_wakers st); start = rx_next st mod len
      in sort (map (\<lambda>i. if i < start then rx_next st + (len - start + i) else rx_next st + (i - start))
                (filter (\<lambda>i. rx_wakers st ! i \<noteq> None) [0..<len])
           @ map snd (rx_overflow st)
           @ (if rx_max_polled_idx st = rx_next st then [rx_next st] else [])))"

subsection \<open>The bytes of the stream\<close>

text \<open>What the stream delivers before it ends, and that it stays at its end.\<close>

fun stream_bytes :: "stream \<Rightarrow> u8 list" where
  "stream_bytes [] = []"
| "stream_bytes (Pending # str) = stream_bytes str"
| "stream_bytes (Ready None # str) = []"
| "stream_bytes (Ready (Some b) # str) = b @ stream_bytes str"

fun fused :: "stream \<Rightarrow> bool" where
  "fused [] \<longleftrightarrow> True"
| "fused (Ready None # str) \<longleftrightarrow> list_all (\<lambda>e. e = Ready None) str"
| "fused (_ # str) \<longleftrightarrow> fused str"

lemma fused_ended: "list_all (\<lambda>e. e = Ready None) str \<Longrightarrow> fused str \<and> stream_bytes str = []"
  by (cases str) auto

definition unread :: "Spare \<Rightarrow> u8 list" where
  "unread s = drop (sp_offset s) (sp_buf s)"

definition spare_ok :: "Spare \<Rightarrow> bool" where
  "spare_ok s \<longleftrightarrow> sp_offset s \<le> length (sp_buf s)"

lemma spare_read_ok:
  assumes "spare_ok s" and "spare_read sz s = (r, s')"
  shows "spare_ok s'" and "if length (unread s) < sz then r = None \<and> s' = s else r = Some (take sz (unread s)) \<and> unread s' = drop sz (unread s)"
  using assms by (auto simp: spare_read_def spare_ok_def unread_def Let_def add.commute split: if_splits)

lemma spare_extend_ok:
  assumes "spare_ok s" and "length (unread s) < sz" and "spare_extend sz v s = (r, s')"
  shows "spare_ok s'" and "if length (unread s @ v) < sz then r = None \<and> unread s' = unread s @ v
    else r = Some (take sz (unread s @ v)) \<and> unread s' = drop sz (unread s @ v)"
  using assms by (auto simp: spare_extend_def spare_replace_def spare_ok_def unread_def Let_def split: if_splits)

lemma poll_stream_ok:
  assumes "poll_stream sz s str = (r, s', str')" and "spare_ok s" and "length (unread s) < sz" and "fused str"
  shows "spare_ok s' \<and> fused str' \<and> (case r of
      Pending \<Rightarrow> unread s' @ stream_bytes str' = unread s @ stream_bytes str
    | Ready None \<Rightarrow> unread s' @ stream_bytes str' = unread s @ stream_bytes str \<and> length (unread s @ stream_bytes str) < sz
    | Ready (Some m) \<Rightarrow> sz \<le> length (unread s @ stream_bytes str) \<and> m = take sz (unread s @ stream_bytes str)
        \<and> unread s' @ stream_bytes str' = drop sz (unread s @ stream_bytes str))"
  using assms
proof (induction sz s str rule: poll_stream.induct)
  case (3 sz s str)
  then show ?case using fused_ended [of str] by auto
next
  case (4 sz s b str)
  obtain m s1 where ex: "spare_extend sz b s = (m, s1)" by (cases "spare_extend sz b s")
  have e: "spare_ok s1" "if length (unread s @ b) < sz then m = None \<and> unread s1 = unread s @ b
      else m = Some (take sz (unread s @ b)) \<and> unread s1 = drop sz (unread s @ b)"
    by (rule spare_extend_ok [OF 4(3,4) ex])+
  show ?case
  proof (cases m)
    case None
    then have "poll_stream sz s1 str = (r, s', str')" "unread s1 = unread s @ b" "length (unread s1) < sz"
      using 4(2) ex e(2) by (auto split: if_splits)
    with 4(1) [OF ex [symmetric]] None e(1) 4(5) show ?thesis by (auto split: poll.splits option.splits)
  next
    case (Some v)
    then show ?thesis using 4(2,5) ex e by (auto split: if_splits)
  qed
qed auto

subsection \<open>Data\<close>

definition rx_data :: "nat \<Rightarrow> u8 list \<Rightarrow> OperatingState \<Rightarrow> bool" where
  "rx_data sz bytes st \<longleftrightarrow> spare_ok (rx_spare st) \<and> fused (rx_stream st) \<and> rx_next st * sz \<le> length bytes
     \<and> unread (rx_spare st) @ stream_bytes (rx_stream st) = drop (rx_next st * sz) bytes"

lemma wake_next_simps:
  assumes "wake_next st = (st', woken)"
  shows "rx_next st' = rx_next st + 1 \<and> rx_spare st' = rx_spare st \<and> rx_stream st' = rx_stream st"
  using assms by (auto simp: wake_next_def Let_def split: if_splits)

definition message :: "nat \<Rightarrow> u8 list \<Rightarrow> nat \<Rightarrow> u8 list" where
  "message sz bytes i = take sz (drop (i * sz) bytes)"

lemma drop_Suc_block: "drop ((n + 1) * sz) xs = drop sz (drop (n * sz) xs)"
  by (simp add: add.commute)

lemma poll_next_data:
  assumes inv: "rx_data sz bytes st" and poll: "poll_next sz st = (r, st', woken)"
  shows "rx_data sz bytes st' \<and> (case r of
      Pending \<Rightarrow> rx_next st' = rx_next st
    | Ready (Inl e) \<Rightarrow> rx_next st' = rx_next st \<and> e = EndOfStream (rx_next st) \<and> length bytes < (rx_next st + 1) * sz
    | Ready (Inr m) \<Rightarrow> rx_next st' = rx_next st + 1 \<and> (rx_next st + 1) * sz \<le> length bytes \<and> m = message sz bytes (rx_next st))"
proof -
  have parts: "spare_ok (rx_spare st)" "fused (rx_stream st)" "rx_next st * sz \<le> length bytes"
    "unread (rx_spare st) @ stream_bytes (rx_stream st) = drop (rx_next st * sz) bytes" using inv by (simp_all add: rx_data_def)
  then have bytes: "length (unread (rx_spare st)) + length (stream_bytes (rx_stream st)) = length bytes - rx_next st * sz"
    by (metis length_append length_drop)
  obtain m s where read: "spare_read sz (rx_spare st) = (m, s)" by fastforce
  note rd = spare_read_ok [OF parts(1) read]
  show ?thesis
  proof (cases m)
    case (Some v)
    then have v: "v = take sz (unread (rx_spare st))" "unread s = drop sz (unread (rx_spare st))" "sz \<le> length (unread (rx_spare st))"
      using rd(2) by (auto split: if_splits)
    then have "take sz (drop (rx_next st * sz) bytes) = v"
      unfolding parts(4) [symmetric] by simp
    moreover have "unread s @ stream_bytes (rx_stream st) = drop ((rx_next st + 1) * sz) bytes"
      unfolding drop_Suc_block parts(4) [symmetric] using v by simp
    ultimately show ?thesis
      using poll read Some rd(1) parts bytes v(3)
      by (auto simp: poll_next_def Let_def rx_data_def message_def dest!: wake_next_simps split: prod.splits)
  next
    case None
    then have small: "length (unread (rx_spare st)) < sz" "s = rx_spare st" using rd(2) by (auto split: if_splits)
    obtain q s' str' where str: "poll_stream sz s (rx_stream st) = (q, s', str')" by (metis surj_pair)
    note ps = poll_stream_ok [OF str rd(1) _ parts(2), unfolded small(2), OF small(1), unfolded parts(4)]
    show ?thesis
    proof (cases q)
      case Pending
      then show ?thesis using poll read None str ps small parts(3) by (auto simp: poll_next_def Let_def rx_data_def)
    next
      case (Ready x)
      show ?thesis
      proof (cases x)
        case x: None
        then show ?thesis using poll read None str ps small parts(3) Ready by (auto simp: poll_next_def Let_def rx_data_def)
      next
        case (Some v)
        with ps Ready have v: "sz \<le> length bytes - rx_next st * sz" "v = message sz bytes (rx_next st)" "spare_ok s'" "fused str'"
          "unread s' @ stream_bytes str' = drop ((rx_next st + 1) * sz) bytes"
          unfolding drop_Suc_block by (simp_all add: message_def)
        then show ?thesis
          using poll read None str parts(3) Ready Some
          by (auto simp: poll_next_def Let_def rx_data_def dest!: wake_next_simps split: prod.splits)
      qed
    qed
  qed
qed

lemma poll_stream_ready:
  assumes "Pending \<notin> set str" and "spare_ok s" and "length (unread s) < sz" and "sz \<le> length (unread s @ stream_bytes str)"
  shows "\<exists>m s' str'. poll_stream sz s str = (Ready (Some m), s', str')"
  using assms
proof (induction sz s str rule: poll_stream.induct)
  case (4 sz s b str)
  obtain m s1 where ex: "spare_extend sz b s = (m, s1)" by (cases "spare_extend sz b s")
  note e = spare_extend_ok [OF 4(3,4) ex]
  show ?case
  proof (cases m)
    case None
    then have "unread s1 = unread s @ b" "length (unread s1) < sz" using e(2) by (auto split: if_splits)
    then show ?thesis using 4(1) [OF ex [symmetric] None] 4(2,5) e(1) ex None by simp
  qed (simp add: ex)
qed auto

text \<open>A stream that does not answer with \<open>Pending\<close> and has the bytes of the next message lets the poll return it.\<close>

lemma poll_next_ready:
  assumes inv: "rx_data sz bytes st" and "Pending \<notin> set (rx_stream st)" and long: "(rx_next st + 1) * sz \<le> length bytes"
  shows "\<exists>st' woken. poll_next sz st = (Ready (Inr (message sz bytes (rx_next st))), st', woken)"
proof -
  obtain r st' woken where poll: "poll_next sz st = (r, st', woken)" by (cases "poll_next sz st")
  have parts: "spare_ok (rx_spare st)" "unread (rx_spare st) @ stream_bytes (rx_stream st) = drop (rx_next st * sz) bytes"
    using inv by (auto simp: rx_data_def)
  have len: "sz \<le> length (unread (rx_spare st) @ stream_bytes (rx_stream st))" unfolding parts(2) using long by simp
  have "\<exists>m. r = Ready (Inr m)"
  proof (cases "length (unread (rx_spare st)) < sz")
    case True
    then have "spare_read sz (rx_spare st) = (None, rx_spare st)"
      using parts(1) by (simp add: spare_read_def unread_def spare_ok_def Let_def)
    then show ?thesis using poll_stream_ready [OF assms(2) parts(1) True len] poll
      by (auto simp: poll_next_def Let_def split: prod.splits)
  next
    case False
    then obtain s' where "spare_read sz (rx_spare st) = (Some (take sz (unread (rx_spare st))), s')"
      using spare_read_ok(2) [OF parts(1), of sz] by (cases "spare_read sz (rx_spare st)") auto
    then show ?thesis using poll by (auto simp: poll_next_def Let_def split: prod.splits)
  qed
  then show ?thesis using poll_next_data [OF inv poll] poll by auto
qed

subsection \<open>Wakers\<close>

text \<open>The slots hold wakers of the next \<open>c\<close> records, the overflow those of records that stay ahead of the counter until
  the next time it is cleared, and every record in \<open>asleep\<close> has its waker in one of the two.\<close>

definition rx_wake :: "(nat \<Rightarrow> nat) \<Rightarrow> nat \<Rightarrow> OperatingState \<Rightarrow> nat set \<Rightarrow> bool" where
  "rx_wake wk c st asleep \<longleftrightarrow> 1 < c \<and> length (rx_wakers st) = c
     \<and> (\<forall>k < c. \<forall>w. rx_wakers st ! k = Some w \<longrightarrow> (\<exists>i. rx_next st < i \<and> i \<le> rx_next st + c \<and> i mod c = k \<and> w = wk i))
     \<and> (\<forall>(w, i) \<in> set (rx_overflow st). w = wk i \<and> (c div 2) * (rx_next st div (c div 2)) + c < i)
     \<and> (\<forall>i \<in> asleep. rx_next st < i
          \<and> (i \<le> rx_next st + c \<and> rx_wakers st ! (i mod c) = Some (wk i) \<or> (wk i, i) \<in> set (rx_overflow st)))"

lemma mod_window_le:
  assumes "i mod c = j mod c" and "n < i" and "j \<le> n + c" and "i \<le> (j::nat)"
  shows "i = j"
proof -
  obtain d where "j = i + c * d" using mod_eq_nat1E [OF assms(1) [symmetric] assms(4)] by blast
  then show ?thesis using assms by (cases d) auto
qed

lemma mod_window:
  assumes "n < i" and "i \<le> n + c" and "n < j" and "j \<le> n + c" and "i mod c = j mod (c::nat)"
  shows "i = j"
  using assms mod_window_le [of i c j n] mod_window_le [of j c i n] by (cases "i \<le> j") auto

lemma div_bound: "n < h * (n div h) + h" if "0 < h" for n h :: nat
  using that by (metis add.commute add_less_cancel_left div_mult_mod_eq mod_less_divisor mult.commute)

lemma overflow_ahead:
  fixes c :: nat
  assumes "1 < c" and "(c div 2) * (n div (c div 2)) + c < i"
  shows "n + 1 < i"
proof -
  have "n < (c div 2) * (n div (c div 2)) + c div 2" using assms(1) by (intro div_bound) simp
  then show ?thesis using assms by linarith
qed

lemma add_waker_ok:
  assumes inv: "rx_wake wk c st asleep" and "rx_next st < i"
  shows "\<exists>st'. add_waker i (wk i) st = Inr st' \<and> rx_wake wk c st' (insert i asleep)
    \<and> rx_next st' = rx_next st \<and> rx_spare st' = rx_spare st \<and> rx_stream st' = rx_stream st"
proof (cases "i > rx_next st + c")
  case True
  have "(c div 2) * (rx_next st div (c div 2)) + c < i"
    using True times_div_less_eq_dividend [of "c div 2" "rx_next st"] by linarith
  then show ?thesis using inv True assms(2) by (auto simp: add_waker_def rx_wake_def)
next
  case False
  let ?st = "st\<lparr>rx_wakers := (rx_wakers st)[i mod c := Some (wk i)]\<rparr>"
  have c: "1 < c" "length (rx_wakers st) = c" using inv by (auto simp: rx_wake_def)
  have k: "i mod c < c" using c by simp
  have same: "j = i" if "rx_next st < j" "j \<le> rx_next st + c" "i mod c = j mod c" for j
    using mod_window [of "rx_next st" j c i] that False assms(2) by simp
  have "w = wk i" if w: "rx_wakers st ! (i mod c) = Some w" for w
  proof -
    obtain j where "rx_next st < j" "j \<le> rx_next st + c" "j mod c = i mod c" "w = wk j"
      using inv k w unfolding rx_wake_def by blast
    then show ?thesis using same [of j] by simp
  qed
  then have add: "add_waker i (wk i) st = Inr ?st"
    using assms(2) False c by (auto simp: add_waker_def Let_def split: option.splits)
  have slots: "\<exists>j. rx_next st < j \<and> j \<le> rx_next st + c \<and> j mod c = k \<and> w = wk j"
    if kw: "k < c" "(rx_wakers st)[i mod c := Some (wk i)] ! k = Some w" for k w
  proof (cases "k = i mod c")
    case True
    then show ?thesis using kw c k False assms(2) by (intro exI [of _ i]) simp
  next
    case neq: False
    then have "rx_wakers st ! k = Some w" using kw by simp
    then show ?thesis using inv kw(1) unfolding rx_wake_def by blast
  qed
  have asleep: "rx_next st < j \<and> (j \<le> rx_next st + c \<and> (rx_wakers st)[i mod c := Some (wk i)] ! (j mod c) = Some (wk j) \<or> (wk j, j) \<in> set (rx_overflow st))"
    if j: "j \<in> insert i asleep" for j
  proof (cases "j = i")
    case True
    then show ?thesis using c k False assms(2) by simp
  next
    case neq: False
    then have old: "rx_next st < j" "j \<le> rx_next st + c \<and> rx_wakers st ! (j mod c) = Some (wk j) \<or> (wk j, j) \<in> set (rx_overflow st)"
      using inv j unfolding rx_wake_def by auto
    then show ?thesis using same [of j] neq by (cases "i mod c = j mod c") auto
  qed
  have "rx_wake wk c ?st (insert i asleep)"
    using inv c slots asleep unfolding rx_wake_def by simp
  then show ?thesis using add by auto
qed

lemma wake_next_ok:
  assumes inv: "rx_wake wk c st asleep" and wake: "wake_next st = (st', woken)"
  shows "rx_wake wk c st' (asleep - {j. wk j \<in> set woken})"
proof -
  let ?n = "rx_next st + 1" and ?h = "c div 2"
  have c: "1 < c" "length (rx_wakers st) = c" using inv by (auto simp: rx_wake_def)
  have k: "?n mod c < c" using c by simp
  have h: "0 < ?h" using c by simp
  define over where "over = (if ?n mod ?h = 0 then [] else rx_overflow st)"
  have st': "st' = st\<lparr>rx_next := ?n, rx_wakers := (rx_wakers st)[?n mod c := None], rx_overflow := over\<rparr>"
    and woken: "set woken = set (opt_list (rx_wakers st ! (?n mod c))) \<union> (if ?n mod ?h = 0 then fst ` set (rx_overflow st) else {})"
    using wake c by (cases "?n mod ?h = 0"; force simp: wake_next_def Let_def over_def)+
  have slots: "\<exists>i. ?n < i \<and> i \<le> ?n + c \<and> i mod c = k \<and> w = wk i"
    if kw: "k < c" "(rx_wakers st)[?n mod c := None] ! k = Some w" for k w
  proof -
    have "k \<noteq> ?n mod c" "rx_wakers st ! k = Some w" using kw c by (auto simp: nth_list_update split: if_splits)
    then obtain i where "rx_next st < i" "i \<le> rx_next st + c" "i mod c = k" "w = wk i" "i \<noteq> ?n"
      using inv kw(1) unfolding rx_wake_def by blast
    then show ?thesis by (intro exI [of _ i]) auto
  qed
  have overflow: "w = wk i \<and> ?h * (?n div ?h) + c < i" if wi: "(w, i) \<in> set over" for w i
  proof -
    have "?n mod ?h \<noteq> 0" "(w, i) \<in> set (rx_overflow st)" using wi by (auto simp: over_def split: if_splits)
    then have "?n div ?h = rx_next st div ?h" by (simp add: Suc_times_mod_eq div_Suc)
    then show ?thesis using inv \<open>(w, i) \<in> set (rx_overflow st)\<close> unfolding rx_wake_def by auto
  qed
  then have overflow': "\<forall>(w, i) \<in> set over. w = wk i \<and> ?h * (?n div ?h) + c < i" by blast
  have asleep: "?n < i \<and> (i \<le> ?n + c \<and> (rx_wakers st)[?n mod c := None] ! (i mod c) = Some (wk i) \<or> (wk i, i) \<in> set over)"
    if i: "i \<in> asleep" "wk i \<notin> set woken" for i
  proof -
    have old: "rx_next st < i" "i \<le> rx_next st + c \<and> rx_wakers st ! (i mod c) = Some (wk i) \<or> (wk i, i) \<in> set (rx_overflow st)"
      using inv i(1) unfolding rx_wake_def by auto
    from old(2) show ?thesis
    proof
      assume slot: "i \<le> rx_next st + c \<and> rx_wakers st ! (i mod c) = Some (wk i)"
      have "i \<noteq> ?n"
      proof
        assume "i = ?n"
        then have "rx_wakers st ! (?n mod c) = Some (wk i)" using slot by simp
        then show False using i(2) woken by (simp add: opt_list_def)
      qed
      moreover have "i mod c \<noteq> ?n mod c" using mod_window [of "rx_next st" i c ?n] slot old(1) c \<open>i \<noteq> ?n\<close> by auto
      ultimately show ?thesis using slot old(1) by auto
    next
      assume "(wk i, i) \<in> set (rx_overflow st)"
      then have "(wk i, i) \<in> set over" using i(2) woken by (force simp: over_def split: if_splits)
      moreover have "?n < i" using overflow_ahead [OF c(1), of "rx_next st" i] inv \<open>(wk i, i) \<in> set (rx_overflow st)\<close>
        unfolding rx_wake_def by auto
      ultimately show ?thesis by simp
    qed
  qed
  show ?thesis using c slots overflow' asleep unfolding rx_wake_def st' by simp
qed

lemma rx_wake_mono: "rx_wake wk c st asleep \<Longrightarrow> asleep' \<subseteq> asleep \<Longrightarrow> rx_wake wk c st asleep'"
  by (auto simp: rx_wake_def)

lemma rx_wake_cong:
  assumes "rx_wakers st' = rx_wakers st" and "rx_overflow st' = rx_overflow st" and "rx_next st' = rx_next st"
  shows "rx_wake wk c st' asleep \<longleftrightarrow> rx_wake wk c st asleep"
  using assms by (simp add: rx_wake_def)

lemma poll_next_wake:
  assumes inv: "rx_wake wk c st asleep" and poll: "poll_next sz st = (r, st', woken)"
  shows "rx_wake wk c st' (asleep - {j. wk j \<in> set woken})"
proof -
  have eq: "rx_wake wk c (st\<lparr>rx_max_polled_idx := n, rx_spare := s, rx_stream := str\<rparr>) asleep"
    "rx_wake wk c (st\<lparr>rx_max_polled_idx := n, rx_spare := s\<rparr>) asleep" for n s str
    using inv by (simp_all add: rx_wake_def)
  show ?thesis using poll eq [THEN wake_next_ok] eq(1)
    by (simp add: poll_next_def Let_def split: prod.splits option.splits poll.splits) auto
qed

subsection \<open>Executions\<close>

text \<open>The polls of any records in any order, none of them polled again after it was received. \<open>wk\<close> gives the waker of the
  task that waits for a record, \<open>asleep\<close> the records whose task has not been woken since a poll registered it behind
  the counter, and the log the answers in order.\<close>

type_synonym answer = "(infra_error + u8 list) poll"

inductive rx_reachable :: "nat \<Rightarrow> (nat \<Rightarrow> nat) \<Rightarrow> nat \<Rightarrow> stream \<Rightarrow> OperatingState \<Rightarrow> nat set \<Rightarrow> (nat \<times> answer) list \<Rightarrow> bool"
  for sz wk c str where
    start: "rx_new str c = Inr st \<Longrightarrow> rx_reachable sz wk c str st {} []"
  | polled: "rx_reachable sz wk c str st asleep log \<Longrightarrow> rx_next st \<le> i \<Longrightarrow> receiver_poll sz i (wk i) st = Inr (r, st', woken)
      \<Longrightarrow> rx_reachable sz wk c str st'
            ((if r = Pending \<and> i \<noteq> rx_next st then insert i asleep else asleep - {i}) - {j. wk j \<in> set woken}) (log @ [(i, r)])"

fun received :: "(nat \<times> answer) list \<Rightarrow> (nat \<times> u8 list) list" where
  "received [] = []"
| "received ((i, Ready (Inr m)) # log) = (i, m) # received log"
| "received (_ # log) = received log"

lemma received_append [simp]: "received (log @ log') = received log @ received log'"
  by (induction log rule: received.induct) auto

lemma receiver_poll_wake:
  assumes inv: "rx_wake wk c st asleep" and i: "rx_next st \<le> i" and poll: "receiver_poll sz i (wk i) st = Inr (r, st', woken)"
  shows "rx_wake wk c st' ((if r = Pending \<and> i \<noteq> rx_next st then insert i asleep else asleep - {i}) - {j. wk j \<in> set woken})"
proof (cases "i = rx_next st")
  case True
  then have "rx_wake wk c st' (asleep - {j. wk j \<in> set woken})"
    using poll_next_wake [OF inv] poll by (simp add: receiver_poll_def is_next_def)
  then show ?thesis using True by (auto elim: rx_wake_mono)
next
  case False
  then obtain st1 where "add_waker i (wk i) st = Inr st1" "rx_wake wk c st1 (insert i asleep)"
    using add_waker_ok [OF inv, of i] i by auto
  then show ?thesis using False poll by (auto simp: receiver_poll_def is_next_def bind_res_def elim: rx_wake_mono)
qed

lemma rx_reachable_wake:
  assumes "rx_reachable sz wk c str st asleep log"
  shows "rx_wake wk c st asleep"
  using assms
proof induction
  case (start st)
  then show ?case by (auto simp: rx_new_def rx_wake_def split: if_splits)
next
  case (polled st asleep log i r st' woken)
  then show ?case by (intro receiver_poll_wake)
qed

definition rx_log :: "nat \<Rightarrow> u8 list \<Rightarrow> OperatingState \<Rightarrow> (nat \<times> answer) list \<Rightarrow> bool" where
  "rx_log sz bytes st log \<longleftrightarrow> received log = map (\<lambda>i. (i, message sz bytes i)) [0..<rx_next st]
     \<and> (\<forall>(i, r) \<in> set log. \<forall>e. r = Ready (Inl e) \<longrightarrow> e = EndOfStream i \<and> length bytes < (i + 1) * sz)"

lemma receiver_poll_data:
  assumes inv: "rx_data sz bytes st" "rx_log sz bytes st log" and wake: "rx_wake wk c st asleep" and i: "rx_next st \<le> i"
    and poll: "receiver_poll sz i (wk i) st = Inr (r, st', woken)"
  shows "rx_data sz bytes st' \<and> rx_log sz bytes st' (log @ [(i, r)])"
proof (cases "i = rx_next st")
  case True
  then have "poll_next sz st = (r, st', woken)" using poll by (simp add: receiver_poll_def is_next_def)
  from poll_next_data [OF inv(1) this] show ?thesis using inv(2) True
    by (cases r) (auto simp: rx_log_def split: sum.splits)
next
  case False
  then obtain st1 where st1: "add_waker i (wk i) st = Inr st1" "rx_next st1 = rx_next st" "rx_spare st1 = rx_spare st" "rx_stream st1 = rx_stream st"
    using add_waker_ok [OF wake, of i] i by auto
  then have "st' = st1" "r = Pending" using False poll by (auto simp: receiver_poll_def is_next_def bind_res_def)
  then show ?thesis using inv st1 by (simp add: rx_data_def rx_log_def)
qed

lemma rx_reachable_data:
  assumes "rx_reachable sz wk c str st asleep log" and "fused str"
  shows "rx_data sz (stream_bytes str) st \<and> rx_log sz (stream_bytes str) st log"
  using assms
proof induction
  case (start st)
  then show ?case
    by (auto simp: rx_new_def rx_data_def rx_log_def spare_default_def spare_ok_def unread_def split: if_splits)
next
  case (polled st asleep log i r st' woken)
  then show ?case by (meson receiver_poll_data rx_reachable_wake)
qed

text \<open>An error is reported only after the stream has ended.\<close>

lemma poll_stream_set:
  assumes "poll_stream sz s str = (r, s', str')"
  shows "set str' \<subseteq> set str \<and> (r = Ready None \<longrightarrow> Ready None \<in> set str)"
  using assms by (induction sz s str rule: poll_stream.induct) (auto split: prod.splits option.splits)

lemma poll_next_set:
  assumes "poll_next sz st = (r, st', woken)"
  shows "set (rx_stream st') \<subseteq> set (rx_stream st) \<and> (r = Ready (Inl e) \<longrightarrow> Ready None \<in> set (rx_stream st))"
  using assms wake_next_simps poll_stream_set
  by (fastforce simp: poll_next_def Let_def split: prod.splits option.splits poll.splits)

lemma add_waker_stream: "add_waker i w st = Inr st' \<Longrightarrow> rx_stream st' = rx_stream st"
  by (auto simp: add_waker_def Let_def split: if_splits option.splits)

lemma rx_reachable_set:
  assumes "rx_reachable sz wk c str st asleep log"
  shows "set (rx_stream st) \<subseteq> set str \<and> ((i, Ready (Inl e)) \<in> set log \<longrightarrow> Ready None \<in> set str)"
  using assms
proof induction
  case (start st)
  then show ?case by (auto simp: rx_new_def split: if_splits)
next
  case (polled st asleep log j r st' woken)
  show ?case
  proof (cases "is_next j st")
    case True
    then have "poll_next sz st = (r, st', woken)" using polled(3) by (simp add: receiver_poll_def)
    from poll_next_set [OF this, of e] show ?thesis using polled(4) by auto
  next
    case False
    then have "r = Pending" "rx_stream st' = rx_stream st"
      using polled(3) by (auto simp: receiver_poll_def bind_res_eq_Inr_iff dest: add_waker_stream)
    then show ?thesis using polled(4) by auto
  qed
qed

text \<open>In every execution of the receiver the messages come in the order of their indices, without gaps or
  repetition, each of them the bytes of the stream at its position however the stream was cut into chunks; the only
  error is the end of the stream, reported for a record the stream is too short for.\<close>
lemma receiver_messages:
  assumes "rx_reachable sz wk c str st asleep log" and "fused str"
  shows "received log = map (\<lambda>i. (i, message sz (stream_bytes str) i)) [0..<rx_next st]
    \<and> rx_next st * sz \<le> length (stream_bytes str)
    \<and> (\<forall>(i, r) \<in> set log. \<forall>e. r = Ready (Inl e) \<longrightarrow> e = EndOfStream i \<and> length (stream_bytes str) < (i + 1) * sz)"
  using rx_reachable_data [OF assms] by (auto simp: rx_log_def rx_data_def)



subsection \<open>Example\<close>

text \<open>Two records in three chunks, the second record asked for first.\<close>

definition example_stream :: stream where
  "example_stream = [Ready (Some [1]), Pending, Ready (Some [2, 3, 4]), Ready None]"

definition example_rx :: "nat \<Rightarrow> nat \<Rightarrow> Spare \<Rightarrow> nat option list \<Rightarrow> stream \<Rightarrow> OperatingState" where
  "example_rx n m s ws str =
     \<lparr>rx_stream = str, rx_next = n, rx_max_polled_idx = m, rx_spare = s, rx_wakers = ws, rx_overflow = []\<rparr>"

lemma example_start: "rx_reachable 2 id 2 example_stream (example_rx 0 0 spare_default [None, None] example_stream) {} []"
  by (rule rx_reachable.start) (simp add: rx_new_def example_rx_def numeral_2_eq_2)

definition example_log :: "(nat \<times> answer) list" where
  "example_log = [(1, Pending), (0, Pending), (0, Ready (Inr [1, 2])), (1, Ready (Inr [3, 4])), (2, Ready (Inl (EndOfStream 2)))]"

lemmas example_defs = example_rx_def example_stream_def receiver_poll_def is_next_def add_waker_def poll_next_def wake_next_def
  spare_read_def spare_extend_def spare_replace_def spare_default_def opt_list_def Let_def

lemma example_registered: "\<exists>st. rx_reachable 2 id 2 example_stream st {1} [(1, Pending)] \<and> rx_next st = 0
    \<and> st = example_rx 0 0 spare_default [None, Some 1] example_stream"
  using rx_reachable.polled [OF example_start, of 1 Pending _ "[]"] by (simp add: example_defs)

lemma example_received: "\<exists>st. rx_reachable 2 id 2 example_stream st {} example_log \<and> rx_next st = 2"
proof -
  have 1: "rx_reachable 2 id 2 example_stream (example_rx 0 0 spare_default [None, Some 1] example_stream) {1} [(1, Pending)]"
    using example_registered by auto
  have 2: "rx_reachable 2 id 2 example_stream (example_rx 0 0 \<lparr>sp_buf = [1], sp_offset = 0\<rparr> [None, Some 1] (drop 2 example_stream)) {1}
      [(1, Pending), (0, Pending)]"
    using rx_reachable.polled [OF 1, of 0 Pending _ "[]"] by (simp add: example_defs)
  have 3: "rx_reachable 2 id 2 example_stream (example_rx 1 0 \<lparr>sp_buf = [3, 4], sp_offset = 0\<rparr> [None, None] (drop 3 example_stream)) {}
      [(1, Pending), (0, Pending), (0, Ready (Inr [1, 2]))]"
    using rx_reachable.polled [OF 2, of 0 "Ready (Inr [1, 2])" _ "[1]"] by (simp add: example_defs)
  have 4: "rx_reachable 2 id 2 example_stream (example_rx 2 1 \<lparr>sp_buf = [3, 4], sp_offset = 2\<rparr> [None, None] (drop 3 example_stream)) {}
      [(1, Pending), (0, Pending), (0, Ready (Inr [1, 2])), (1, Ready (Inr [3, 4]))]"
    using rx_reachable.polled [OF 3, of 1 "Ready (Inr [3, 4])" _ "[]"] by (simp add: example_defs flip: numeral_2_eq_2)
  have "rx_reachable 2 id 2 example_stream (example_rx 2 2 \<lparr>sp_buf = [3, 4], sp_offset = 2\<rparr> [None, None] []) {} example_log"
    using rx_reachable.polled [OF 4, of 2 "Ready (Inl (EndOfStream 2))" _ "[]"]
    by (simp add: example_defs example_log_def flip: numeral_2_eq_2)
  moreover have "rx_next (example_rx 2 2 s ws str) = 2" for s ws str by (simp add: example_rx_def)
  ultimately show ?thesis by blast
qed

lemma receiver_messages_witness:
  "\<exists>st. rx_reachable 2 id 2 example_stream st {} example_log \<and> received example_log = [(0, [1, 2]), (1, [3, 4])] \<and> rx_next st = 2"
proof -
  obtain st where st: "rx_reachable 2 id 2 example_stream st {} example_log" "rx_next st = 2" using example_received by blast
  have "received example_log = [(0, [1, 2]), (1, [3, 4])]"
    using receiver_messages [OF st(1)] st(2) by (simp add: example_stream_def message_def upt_rec numeral_2_eq_2)
  then show ?thesis using st by blast
qed


text \<open>\<open>add_waker\<close> keeps the waker of the record \<open>capacity\<close> ahead of the counter in the slot of the counter itself, and stall
  detection reports that slot as the counter: the record waited for is missing from the report.\<close>

lemma waiting_misreports:
  "\<exists>st. rx_reachable 2 id 2 example_stream st {2} [(2, Pending)] \<and> rx_next st = 0 \<and> rx_waiting st = [0, 0]"
proof -
  let ?st = "example_rx 0 0 spare_default [Some 2, None] example_stream"
  have "rx_reachable 2 id 2 example_stream ?st {2} [(2, Pending)]"
    using rx_reachable.polled [OF example_start, of 2 Pending _ "[]"] by (simp add: example_defs flip: numeral_2_eq_2)
  moreover have "rx_next ?st = 0" by (simp add: example_rx_def)
  moreover have "rx_waiting ?st = [0, 0]" by code_simp
  ultimately show ?thesis by blast
qed

end
