(* ===== verification/Gateway.thy ===== *)
theory Gateway
  imports Share_Wire Unordered_Receiver
begin

text \<open>
  The gateway of a helper, \<open>src/helpers/gateway/\<close>: the table of sending channels (\<open>send.rs\<close>), the table of receiving
  channels (\<open>receive.rs\<close>), the transport that resolves roles to helpers (\<open>transport.rs\<close>) and the gateway that owns them
  (\<open>mod.rs\<close>). A sender that the table holds is shared, and its tasks run concurrently: the table keeps the
  sender as it was created, and the executions of its tasks are those of \<open>Ordering_Sender\<close>. The transport itself
  is not under \<open>src/helpers/gateway\<close>; what is relied on is that it delivers a stream's bytes in order.
\<close>

subsection \<open>Sending\<close>

record GatewaySender =
  gs_channel_id :: ChannelId
  gs_ordering_tx :: OrderingSender
  gs_total_records :: total_records

definition gateway_sender_new :: "ChannelId \<Rightarrow> OrderingSender \<Rightarrow> total_records \<Rightarrow> GatewaySender" where
  "gateway_sender_new channel_id tx total_records =
     \<lparr>gs_channel_id = channel_id, gs_ordering_tx = tx, gs_total_records = total_records\<rparr>"

text \<open>\<open>send\<close> fails, or awaits operations of the ordering sender one after the other.\<close>

definition gateway_send :: "GatewaySender \<Rightarrow> record_id \<Rightarrow> u8 list \<Rightarrow> (infra_error + (nat \<times> op) list) res" where
  "gateway_send gs record_id msg =
     (if \<not> is_specified (gs_total_records gs) then Inl Panic
      else case gs_total_records gs of
        Specified count \<Rightarrow>
          if record_id \<ge> count
          then Inr (Inl (TooManyRecords record_id (gs_channel_id gs) (gs_total_records gs)))
          else Inr (Inr ((record_id, Send msg)
                 # (if is_last (gs_total_records gs) record_id then [(record_id + 1, Close)] else [])))
      | _ \<Rightarrow> Inr (Inr ((record_id, Send msg)
                 # (if is_last (gs_total_records gs) record_id then [(record_id + 1, Close)] else []))))"

definition SPARE :: nat where
  "SPARE = 64"

definition write_size_of :: "nat \<Rightarrow> nat \<Rightarrow> total_records \<Rightarrow> nat res" where
  "write_size_of size_of_m capacity total_records =
     (if is_indeterminate total_records then Inr 1
      else if size_of_m = 0 then Inl Panic
      else if capacity * size_of_m < 2 ^ 64 then Inr (capacity * size_of_m)
      else Inl Panic)"

type_synonym GatewaySenders = "ChannelId \<rightharpoonup> GatewaySender"

text \<open>The flag says that the channel is new and its stream is returned.\<close>

definition senders_get_or_create ::
  "nat \<Rightarrow> ChannelId \<Rightarrow> nat \<Rightarrow> total_records \<Rightarrow> GatewaySenders \<Rightarrow> (GatewaySenders \<times> GatewaySender \<times> bool) res"
where
  "senders_get_or_create size_of_m channel_id capacity total_records inner =
     (if \<not> is_specified total_records then Inl Panic
      else case inner channel_id of
        Some sender \<Rightarrow> Inr (inner, sender, False)
      | None \<Rightarrow>
          bind_res (write_size_of size_of_m capacity total_records) (\<lambda>write_size.
            let sender = gateway_sender_new channel_id (os_new write_size SPARE) total_records
            in Inr (inner(channel_id \<mapsto> sender), sender, True)))"

subsection \<open>Receiving\<close>

text \<open>The answer of a poll of \<open>receive\<close>, given the answer of the poll of the receiver.\<close>

definition gateway_receive :: "'v wire \<Rightarrow> ChannelId \<Rightarrow> answer \<Rightarrow> (infra_error + 'v) poll res" where
  "gateway_receive w channel_id r =
     (case r of
        Pending \<Rightarrow> Inr Pending
      | Ready (Inl e) \<Rightarrow> Inr (Ready (Inl (ReceiveError (ch_role channel_id) (ch_gate channel_id) e)))
      | Ready (Inr m) \<Rightarrow> bind_res (deserialize_slice w m) (\<lambda>v. Inr (Ready (Inr v))))"

type_synonym GatewayReceivers = "ChannelId \<rightharpoonup> OperatingState"

definition receivers_get_or_create ::
  "ChannelId \<Rightarrow> (unit \<Rightarrow> OperatingState res) \<Rightarrow> GatewayReceivers \<Rightarrow> (GatewayReceivers \<times> OperatingState) res"
where
  "receivers_get_or_create channel_id ctr inner =
     (case inner channel_id of
        Some rx \<Rightarrow> Inr (inner, rx)
      | None \<Rightarrow> bind_res (ctr ()) (\<lambda>rx. Inr (inner(channel_id \<mapsto> rx), rx)))"

subsection \<open>The gateway\<close>

record GatewayConfig =
  active :: nat

definition gateway_config_new :: "nat \<Rightarrow> GatewayConfig res" where
  "gateway_config_new n = (if n = 0 then Inl Panic else Inr \<lparr>active = n\<rparr>)"

definition gateway_config_default :: "GatewayConfig res" where
  "gateway_config_default = gateway_config_new 1024"

text \<open>The transport of a helper: its identity, and the stream it has from a peer at a gate.\<close>

record RoleResolvingTransport =
  tr_roles :: role_assignment
  tr_config :: GatewayConfig
  tr_identity :: helper_identity
  tr_stream :: "helper_identity \<Rightarrow> string \<Rightarrow> stream"

definition transport_send :: "RoleResolvingTransport \<Rightarrow> ChannelId \<Rightarrow> (helper_identity \<times> string) res" where
  "transport_send t channel_id =
     bind_res (identity_of (tr_roles t) (ch_role channel_id)) (\<lambda>dest_identity.
       if dest_identity = tr_identity t then Inl Panic else Inr (dest_identity, ch_gate channel_id))"

definition transport_receive :: "RoleResolvingTransport \<Rightarrow> ChannelId \<Rightarrow> OperatingState res" where
  "transport_receive t channel_id =
     bind_res (identity_of (tr_roles t) (ch_role channel_id)) (\<lambda>peer.
       if peer = tr_identity t then Inl Panic
       else rx_new (tr_stream t peer (ch_gate channel_id)) (active (tr_config t)))"

definition transport_role :: "RoleResolvingTransport \<Rightarrow> role res" where
  "transport_role t = role_of (tr_roles t) (tr_identity t)"

record Gateway =
  gw_config :: GatewayConfig
  gw_transport :: RoleResolvingTransport
  gw_senders :: GatewaySenders
  gw_receivers :: GatewayReceivers

definition gateway_new ::
  "GatewayConfig \<Rightarrow> role_assignment \<Rightarrow> helper_identity \<Rightarrow> (helper_identity \<Rightarrow> string \<Rightarrow> stream) \<Rightarrow> Gateway"
where
  "gateway_new config roles identity stream_from =
     \<lparr>gw_config = config,
      gw_transport = \<lparr>tr_roles = roles, tr_config = config, tr_identity = identity, tr_stream = stream_from\<rparr>,
      gw_senders = Map.empty, gw_receivers = Map.empty\<rparr>"

text \<open>A new channel spawns a task that hands its stream to the transport: the route it takes is returned with the
  sender, or the panic of that task.\<close>

definition get_sender ::
  "nat \<Rightarrow> ChannelId \<Rightarrow> total_records \<Rightarrow> Gateway
    \<Rightarrow> (Gateway \<times> GatewaySender \<times> (helper_identity \<times> string) res option) res"
where
  "get_sender size_of_m channel_id total_records gw =
     bind_res (senders_get_or_create size_of_m channel_id (active (gw_config gw)) total_records (gw_senders gw))
       (\<lambda>(senders, tx, created).
         Inr (gw\<lparr>gw_senders := senders\<rparr>, tx,
              if created then Some (transport_send (gw_transport gw) channel_id) else None))"

definition get_receiver :: "ChannelId \<Rightarrow> Gateway \<Rightarrow> (Gateway \<times> OperatingState) res" where
  "get_receiver channel_id gw =
     bind_res (receivers_get_or_create channel_id (\<lambda>_. transport_receive (gw_transport gw) channel_id) (gw_receivers gw))
       (\<lambda>(receivers, rx). Inr (gw\<lparr>gw_receivers := receivers\<rparr>, rx))"

subsection \<open>The tasks of a channel\<close>

text \<open>One task per message. The operations that it awaits run in their order.\<close>

definition plan :: "GatewaySender \<Rightarrow> u8 list list \<Rightarrow> nat \<Rightarrow> (nat \<times> op) list" where
  "plan gs ms i = (case gateway_send gs i (ms ! i) of Inr (Inr ops) \<Rightarrow> ops | _ \<Rightarrow> [])"

definition gateway_ops :: "GatewaySender \<Rightarrow> u8 list list \<Rightarrow> nat \<Rightarrow> op option" where
  "gateway_ops gs ms = map_of (concat (map (plan gs ms) [0..<length ms]))"

definition enabled :: "GatewaySender \<Rightarrow> u8 list list \<Rightarrow> nat \<Rightarrow> sys \<Rightarrow> bool" where
  "enabled gs ms j s \<longleftrightarrow>
     (\<forall>i < length ms. \<forall>k < length (plan gs ms i). fst (plan gs ms i ! k) = j
        \<longrightarrow> (\<forall>l < k. s_pc s (fst (plan gs ms i ! l)) = Done))"

fun gateway_step :: "GatewaySender \<Rightarrow> u8 list list \<Rightarrow> actor \<Rightarrow> sys \<Rightarrow> sys" where
  "gateway_step gs ms (Task j) s = (if enabled gs ms j s then step (gateway_ops gs ms) (Task j) s else s)"
| "gateway_step gs ms a s = step (gateway_ops gs ms) a s"

definition gateway_start :: "GatewaySender \<Rightarrow> sys" where
  "gateway_start gs = OrderingSender.extend (gs_ordering_tx gs) (sys.fields (\<lambda>_. AtLoop) (\<lambda>_. False) R_Poll False [])"

inductive gateway_reachable :: "GatewaySender \<Rightarrow> u8 list list \<Rightarrow> sys \<Rightarrow> bool" for gs ms where
  start: "gateway_reachable gs ms (gateway_start gs)"
| act: "gateway_reachable gs ms s \<Longrightarrow> gateway_reachable gs ms (gateway_step gs ms a s)"

definition gateway_stuck :: "GatewaySender \<Rightarrow> u8 list list \<Rightarrow> sys \<Rightarrow> bool" where
  "gateway_stuck gs ms s \<longleftrightarrow> (\<forall>j. gateway_step gs ms (Task j) s = s) \<and> gateway_step gs ms Stream s = s"

lemma plan_known:
  assumes "gs_total_records gs = Specified (length ms)" and "i < length ms"
  shows "plan gs ms i = (i, Send (ms ! i)) # (if i = length ms - 1 then [(length ms, Close)] else [])"
  using assms by (auto simp: plan_def gateway_send_def)

lemma plans_known:
  assumes "gs_total_records gs = Specified (length ms)" and "ms \<noteq> []"
  shows "concat (map (plan gs ms) [0..<length ms]) = map (\<lambda>i. (i, Send (ms ! i))) [0..<length ms] @ [(length ms, Close)]"
proof -
  have upt: "[0..<length ms] = [0..<length ms - 1] @ [length ms - 1]"
    using assms(2) by (metis Suc_diff_1 length_greater_0_conv upt_Suc_append zero_le)
  have "concat (map (plan gs ms) xs) = map (\<lambda>i. (i, Send (ms ! i))) xs" if "set xs \<subseteq> {..<length ms - 1}" for xs
    using that by (induction xs) (auto simp: plan_known [OF assms(1)])
  then have "concat (map (plan gs ms) [0..<length ms - 1]) = map (\<lambda>i. (i, Send (ms ! i))) [0..<length ms - 1]"
    by (simp add: atLeast0LessThan)
  then show ?thesis unfolding upt using plan_known [OF assms(1), of "length ms - 1"] assms(2) by simp
qed

lemma gateway_ops_known:
  assumes "gs_total_records gs = Specified (length ms)" and "ms \<noteq> []"
  shows "gateway_ops gs ms = channel_ops ms"
proof
  fix j
  have "map_of (map (\<lambda>i. (i, f i)) [0..<n]) j = (if j < n then Some (f j) else None)" for f :: "nat \<Rightarrow> op" and n
    by (simp add: map_of_map_restrict restrict_map_def)
  then show "gateway_ops gs ms j = channel_ops ms j"
    unfolding gateway_ops_def plans_known [OF assms] by (simp add: map_add_def channel_ops_def)
qed

lemma enabled_known:
  assumes "gs_total_records gs = Specified (length ms)" and "ms \<noteq> []"
  shows "enabled gs ms j s \<longleftrightarrow> j \<noteq> length ms \<or> s_pc s (length ms - 1) = Done"
proof -
  have "(\<forall>k < length (plan gs ms i). fst (plan gs ms i ! k) = j \<longrightarrow> (\<forall>l < k. s_pc s (fst (plan gs ms i ! l)) = Done))
      \<longleftrightarrow> (i = length ms - 1 \<and> j = length ms \<longrightarrow> s_pc s i = Done)" if "i < length ms" for i
    unfolding plan_known [OF assms(1) that] using that by (auto simp: less_Suc_eq)
  then show ?thesis using assms(2) unfolding enabled_def by auto
qed

subsection \<open>Executions of a channel\<close>

lemma created_sender:
  assumes "senders_get_or_create sz cid capacity tr inner = Inr (inner', gs, True)"
  shows "\<exists>n. gs_ordering_tx gs = os_new n SPARE" and "gs_total_records gs = tr"
  using assms by (auto simp: senders_get_or_create_def gateway_sender_new_def Let_def bind_res_eq_Inr_iff split: if_splits option.splits)

lemma gateway_reachable_reachable:
  assumes "gateway_reachable gs ms s" and "gs_ordering_tx gs = os_new n SPARE"
    and "gs_total_records gs = Specified (length ms)" and "ms \<noteq> []"
  shows "reachable (channel_ops ms) n SPARE s"
  using assms(1)
proof induction
  case start
  have "gateway_start gs = sys_new n SPARE" using assms(2) by (simp add: gateway_start_def sys_new_def)
  then show ?case by (simp add: reachable.start)
next
  case (act s a)
  then show ?case using gateway_ops_known [OF assms(3,4)] by (cases a) (auto simp del: step.simps intro: reachable.act)
qed

lemma gateway_stuck_stuck:
  assumes inv: "sender_inv n sp ms s" and sizes: "\<forall>m \<in> set ms. length m < sp"
    and gs: "gs_total_records gs = Specified (length ms)" "ms \<noteq> []" and stuck: "gateway_stuck gs ms s"
  shows "stuck (channel_ops ms) s"
proof -
  note ops = gateway_ops_known [OF gs] and en = enabled_known [OF gs]
  have pc: "inv_pc ms s" using inv by (auto simp: sender_inv_def)
  have stream: "stream_step s = s" using stuck by (simp add: gateway_stuck_def)
  then have rpc: "s_rpc s = R_End \<or> s_rpc s = R_Parked \<and> \<not> s_rnotified s" by (rule stuck_stream)
  then have "\<not> state_locked s" by (auto simp: state_locked_def)
  have task: "task_step (channel_ops ms) i s = s" if "i \<noteq> length ms \<or> s_pc s (length ms - 1) = Done" for i
  proof -
    have "gateway_step gs ms (Task i) s = s" using stuck by (simp add: gateway_stuck_def)
    then show ?thesis using that by (simp add: ops en)
  qed
  have idle: "s_pc s i = Done \<or> s_pc s i = Parked \<and> \<not> s_notified s i" if "i < length ms" for i
    using stuck_task [OF task, of i] \<open>\<not> state_locked s\<close> inv_pcD(1) [OF pc, of i] that by simp
  have "length ms \<le> os_next s" using idle_advances [OF inv sizes rpc idle] by simp
  then have "s_pc s (length ms - 1) = Done"
    using idle [of "length ms - 1"] inv_pcD(4) [OF pc, of "length ms - 1"] gs(2) by (cases "length ms") auto
  then show ?thesis using task stream by (simp add: stuck_def)
qed

subsection \<open>Messages of a type with a wire format\<close>

context wire_format
begin

lemma message_serialized:
  assumes "i < length vs"
  shows "message (wire_size w) (concat (map (serialize w) vs)) i = serialize w (vs ! i)"
  using assms
proof (induction vs arbitrary: i)
  case (Cons v vs)
  then show ?case by (cases i) (simp_all add: message_def serialize_length)
qed simp

lemma message_prefix:
  assumes "prefix bytes (concat (map (serialize w) vs))" and "(i + 1) * wire_size w \<le> length bytes"
  shows "i < length vs" and "message (wire_size w) bytes i = serialize w (vs ! i)"
proof -
  have "length bytes \<le> length vs * wire_size w" using prefix_length_le [OF assms(1)] length_serialized by simp
  then have "(i + 1) * wire_size w \<le> length vs * wire_size w" using assms(2) by (rule order_trans [rotated])
  then show i: "i < length vs" using size_pos by (simp del: mult_Suc mult_Suc_right add: Suc_le_eq)
  obtain rest where "concat (map (serialize w) vs) = bytes @ rest" using assms(1) by (auto elim: prefixE)
  then have "message (wire_size w) (concat (map (serialize w) vs)) i = message (wire_size w) bytes i"
    using assms(2) by (simp add: message_def)
  then show "message (wire_size w) bytes i = serialize w (vs ! i)" using message_serialized [OF i] by simp
qed

lemma gateway_receive_serialized: "gateway_receive w cid (Ready (Inr (serialize w v))) = Inr (Ready (Inr v))"
  by (simp add: gateway_receive_def deserialize_slice_serialize)

end

subsection \<open>Channels between gateways\<close>

lemma channel_reachable:
  assumes "wire_format w" and "wire_size w < SPARE" and "vs \<noteq> []"
    and "senders_get_or_create (wire_size w) cid capacity (Specified (length vs)) inner = Inr (inner', gs, True)"
    and "gateway_reachable gs (map (serialize w) vs) s"
  shows "\<exists>n. reachable (channel_ops (map (serialize w) vs)) n SPARE s"
    and "\<forall>m \<in> set (map (serialize w) vs). length m < SPARE"
    and "gs_total_records gs = Specified (length (map (serialize w) vs))"
  using gateway_reachable_reachable [OF assms(5)] created_sender [OF assms(4)] assms(2,3)
  by (auto simp: wire_format.serialize_length [OF assms(1)])

text \<open>C2: Messages sent through a channel of a known length reach the other gateway in full and unmixed. In every
  interleaving of the tasks that send the values, of the stream that collects them and of the polls of the receiver, for any
  way the transport cuts the bytes into chunks, the values received are the values sent, by index,
  and receiving fails only for an index past the last value, with the end of the stream wrapped into the channel's error.\<close>

theorem gateway_delivers:
  assumes "wire_format w" and "wire_size w < SPARE" and "vs \<noteq> []"
    and "senders_get_or_create (wire_size w) cid capacity (Specified (length vs)) inner = Inr (inner', gs, True)"
    and "gateway_reachable gs (map (serialize w) vs) s"
    and "prefix (stream_bytes str) (s_out s)" and "fused str"
    and "Ready None \<in> set str \<Longrightarrow> s_rpc s = R_End \<and> stream_bytes str = s_out s"
    and "rx_reachable (wire_size w) wk c str st asleep log"
  shows "map (\<lambda>(i, m). (i, gateway_receive w cid' (Ready (Inr m)))) (received log)
      = map (\<lambda>i. (i, Inr (Ready (Inr (vs ! i))))) [0..<rx_next st]
    \<and> rx_next st \<le> length vs
    \<and> (\<forall>i e. (i, Ready (Inl e)) \<in> set log \<longrightarrow> length vs \<le> i
        \<and> gateway_receive w cid' (Ready (Inl e)) = Inr (Ready (Inl (ReceiveError (ch_role cid') (ch_gate cid') (EndOfStream i)))))"
proof -
  let ?all = "concat (map (serialize w) vs)"
  obtain n where reach: "reachable (channel_ops (map (serialize w) vs)) n SPARE s"
    using channel_reachable(1) [OF assms(1-5)] by blast
  note out = reachable_out [OF reach channel_reachable(2) [OF assms(1-5)]]
  have data: "rx_data (wire_size w) (stream_bytes str) st" "rx_log (wire_size w) (stream_bytes str) st log"
    using rx_reachable_data [OF assms(9,7)] by auto
  have pre: "prefix (stream_bytes str) ?all" using assms(6) out(1) by (rule prefix_order.trans)
  have next_le: "rx_next st * wire_size w \<le> length (stream_bytes str)" using data(1) by (simp add: rx_data_def)
  have msg: "gateway_receive w cid' (Ready (Inr (message (wire_size w) (stream_bytes str) i))) = Inr (Ready (Inr (vs ! i)))" "i < length vs"
    if "i < rx_next st" for i
  proof -
    have "(i + 1) * wire_size w \<le> rx_next st * wire_size w" using that by (intro mult_le_mono1) simp
    then have "(i + 1) * wire_size w \<le> length (stream_bytes str)" using next_le by simp
    from wire_format.message_prefix [OF assms(1) pre this]
    show "gateway_receive w cid' (Ready (Inr (message (wire_size w) (stream_bytes str) i))) = Inr (Ready (Inr (vs ! i)))" "i < length vs"
      by (simp_all add: wire_format.gateway_receive_serialized [OF assms(1)])
  qed
  have "map (\<lambda>(i, m). (i, gateway_receive w cid' (Ready (Inr m)))) (received log)
      = map (\<lambda>i. (i, Inr (Ready (Inr (vs ! i))))) [0..<rx_next st]"
    using data(2) msg(1) by (simp add: rx_log_def)
  moreover have "rx_next st \<le> length vs" using msg(2) [of "rx_next st - 1"] by (cases "rx_next st") auto
  moreover have "length vs \<le> i \<and> e = EndOfStream i" if "(i, Ready (Inl e)) \<in> set log" for i e
  proof -
    have "Ready None \<in> set str" using rx_reachable_set [OF assms(9)] that by blast
    then have "stream_bytes str = ?all" using assms(8) out(2) by simp
    moreover have "e = EndOfStream i" "length (stream_bytes str) < (i + 1) * wire_size w" using data(2) that by (auto simp: rx_log_def)
    ultimately have "length vs * wire_size w < (i + 1) * wire_size w"
      using wire_format.length_serialized [OF assms(1), of vs] by simp
    then have "length vs < i + 1" by (rule mult_right_less_imp_less) simp
    then show ?thesis using \<open>e = EndOfStream i\<close> by simp
  qed
  ultimately show ?thesis by (auto simp: gateway_receive_def)
qed

text \<open>C34: A channel never hangs. When no task of the sending gateway can move, every message has been sent, the channel is
  closed and its stream has ended; a receiver whose transport has delivered the stream then answers the
  poll for its next record with the value sent at that index and advances.\<close>

theorem gateway_completes:
  assumes "wire_format w" and "wire_size w < SPARE" and "vs \<noteq> []"
    and "senders_get_or_create (wire_size w) cid capacity (Specified (length vs)) inner = Inr (inner', gs, True)"
    and "gateway_reachable gs (map (serialize w) vs) s" and "gateway_stuck gs (map (serialize w) vs) s"
    and "stream_bytes str = s_out s" and "fused str"
    and "rx_reachable (wire_size w) wk c str st asleep log"
    and "Pending \<notin> set (rx_stream st)" and "rx_next st < length vs"
  shows "(\<forall>i \<le> length vs. s_pc s i = Done) \<and> s_rpc s = R_End
    \<and> (\<exists>r st' woken. receiver_poll (wire_size w) (rx_next st) (wk (rx_next st)) st = Inr (r, st', woken)
         \<and> gateway_receive w cid' r = Inr (Ready (Inr (vs ! rx_next st))) \<and> rx_next st' = Suc (rx_next st))"
proof -
  let ?ms = "map (serialize w) vs"
  obtain n where reach: "reachable (channel_ops ?ms) n SPARE s"
    using channel_reachable(1) [OF assms(1-5)] by blast
  note sizes = channel_reachable(2) [OF assms(1-5)]
  have inv: "sender_inv n SPARE ?ms s" by (rule reachable_inv [OF reach sizes])
  have "stuck (channel_ops ?ms) s"
    using gateway_stuck_stuck [OF inv sizes channel_reachable(3) [OF assms(1-5)] _ assms(6)] assms(3) by simp
  then have sent: "\<forall>i \<le> length ?ms. s_pc s i = Done" "s_rpc s = R_End" "s_out s = concat ?ms"
    using stuck_complete [OF inv sizes] by auto
  have data: "rx_data (wire_size w) (concat ?ms) st"
    using rx_reachable_data [OF assms(9,8)] assms(7) sent(3) by simp
  have "(rx_next st + 1) * wire_size w \<le> length vs * wire_size w" using assms(11) by (intro mult_le_mono1) simp
  then have "(rx_next st + 1) * wire_size w \<le> length (concat ?ms)"
    using wire_format.length_serialized [OF assms(1), of vs] by simp
  from poll_next_ready [OF data assms(10) this] obtain st' woken where
    poll: "poll_next (wire_size w) st = (Ready (Inr (serialize w (vs ! rx_next st))), st', woken)"
    using wire_format.message_serialized [OF assms(1,11)] by auto
  have "rx_next st' = Suc (rx_next st)" using poll_next_data [OF data poll] by simp
  then show ?thesis using sent(1,2) poll wire_format.gateway_receive_serialized [OF assms(1)]
    by (auto simp: receiver_poll_def is_next_def)
qed

subsection \<open>Routes\<close>



subsection \<open>Example\<close>

fun gateway_run :: "GatewaySender \<Rightarrow> u8 list list \<Rightarrow> actor list \<Rightarrow> sys \<Rightarrow> sys" where
  "gateway_run gs ms [] s = s"
| "gateway_run gs ms (a # as) s = gateway_run gs ms as (gateway_step gs ms a s)"

lemma gateway_reachable_run: "gateway_reachable gs ms s \<Longrightarrow> gateway_reachable gs ms (gateway_run gs ms as s)"
  by (induction as arbitrary: s) (auto intro: gateway_reachable.act)

definition example_channel :: ChannelId where
  "example_channel = \<lparr>ch_role = H2, ch_gate = ''example''\<rparr>"

definition example_sender :: GatewaySender where
  "example_sender = gateway_sender_new example_channel (os_new 2 SPARE) (Specified 2)"

definition example_payload :: "8 word list" where
  "example_payload = [7, 9]"

abbreviation example_bytes :: "u8 list list" where
  "example_bytes \<equiv> map (serialize gf_wire) example_payload"

definition example_sent :: sys where
  "example_sent = gateway_run example_sender example_bytes
     [Task 1, Task 1, Task 2, Stream, Task 0, Task 0, Task 0, Task 0, Task 1, Task 1, Task 1, Task 1, Task 1,
      Stream, Stream, Stream, Stream, Task 2, Task 2, Task 2, Task 2, Stream, Stream] (gateway_start example_sender)"

lemma example_sender_created:
  "senders_get_or_create 1 example_channel 2 (Specified 2) Map.empty
     = Inr (Map.empty(example_channel \<mapsto> example_sender), example_sender, True)"
  by (simp add: senders_get_or_create_def write_size_of_def example_sender_def Let_def)

lemma gateway_start_record:
  "gateway_start gs =
     \<lparr>os_next = os_next (gs_ordering_tx gs), os_state = os_state (gs_ordering_tx gs), os_waiting = os_waiting (gs_ordering_tx gs),
      s_pc = (\<lambda>_. AtLoop), s_notified = (\<lambda>_. False), s_rpc = R_Poll, s_rnotified = False, s_out = []\<rparr>"
  by (simp add: gateway_start_def OrderingSender.defs sys.defs)

lemma example_tx:
  "gs_ordering_tx example_sender =
     \<lparr>os_next = 0,
      os_state = \<lparr>st_buf = replicate 66 0, st_spare = 64, st_written = 0, st_closed = False, st_write_ready = None, st_stream_ready = None\<rparr>,
      os_waiting = replicate 8 \<lparr>woken_at = 0, sh_wakers = []\<rparr>\<rparr>"
  by (simp add: example_sender_def gateway_sender_new_def os_new_def state_new_def waiting_default_def SHARDS_def SPARE_def)

lemma example_bytes_eq: "example_bytes = [[7], [9]]"
  by code_simp

lemma example_known:
  "gateway_ops example_sender example_bytes = channel_ops [[7], [9]]"
  "enabled example_sender example_bytes j s \<longleftrightarrow> j \<noteq> 2 \<or> s_pc s 1 = Done"
  using gateway_ops_known [of example_sender "[[7], [9]]"] enabled_known [of example_sender "[[7], [9]]"]
  unfolding example_bytes_eq by (simp_all add: example_sender_def gateway_sender_new_def numeral_2_eq_2)

lemma example_sent_facts:
  "s_rpc example_sent = R_End \<and> s_out example_sent = [7, 9]
    \<and> s_pc example_sent 0 = Done \<and> s_pc example_sent 1 = Done \<and> s_pc example_sent 2 = Done"
  unfolding example_sent_def
  by (simp add: gateway_start_record example_known example_tx task_step_def channel_ops_def goto_def state_locked_def state_write_def
      Let_def opt_list_def waiting_add_def shard_add_def shard_of_def CONTIGUOUS_BITS_def SHARDS_def waiting_wake_def
      shard_wake_def stream_step_def state_take_def can_take_def state_close_def)

lemma example_reachable: "gateway_reachable example_sender example_bytes example_sent"
  unfolding example_sent_def by (intro gateway_reachable_run gateway_reachable.start)

lemma example_stuck: "gateway_stuck example_sender example_bytes example_sent"
proof -
  have "task_step (channel_ops [[7], [9]]) j example_sent = example_sent" for j
    using example_sent_facts by (cases "j = 0 \<or> j = 1 \<or> j = 2") (auto simp: task_step_def channel_ops_def)
  then show ?thesis using example_sent_facts by (simp add: gateway_stuck_def example_known stream_step_def)
qed

text \<open>The receiver of the example: the second record is asked for first.\<close>

definition example_arrived :: stream where
  "example_arrived = [Ready (Some [7]), Ready (Some [9]), Ready None]"

definition example_answers :: "(nat \<times> answer) list" where
  "example_answers = [(1, Pending), (0, Ready (Inr [7])), (1, Ready (Inr [9])), (2, Ready (Inl (EndOfStream 2)))]"

lemma example_first:
  "rx_reachable 1 id 2 example_arrived (example_rx 0 0 spare_default [None, Some 1] example_arrived) {1} [(1, Pending)]"
proof -
  have "rx_reachable 1 id 2 example_arrived (example_rx 0 0 spare_default [None, None] example_arrived) {} []"
    by (rule rx_reachable.start) (simp add: rx_new_def example_rx_def numeral_2_eq_2)
  from rx_reachable.polled [OF this, of 1 Pending _ "[]"] show ?thesis by (simp add: example_defs)
qed

lemma example_all:
  "\<exists>st. rx_reachable 1 id 2 example_arrived st {} example_answers \<and> rx_next st = 2"
proof -
  let ?s = "\<lparr>sp_buf = [], sp_offset = 0\<rparr>"
  note defs = example_defs example_arrived_def
  have 2: "rx_reachable 1 id 2 example_arrived (example_rx 1 0 ?s [None, None] (drop 1 example_arrived)) {}
      [(1, Pending), (0, Ready (Inr [7]))]"
    using rx_reachable.polled [OF example_first, of 0 "Ready (Inr [7])" _ "[1]"] by (simp add: defs)
  have 3: "rx_reachable 1 id 2 example_arrived (example_rx 2 1 ?s [None, None] (drop 2 example_arrived)) {}
      [(1, Pending), (0, Ready (Inr [7])), (1, Ready (Inr [9]))]"
    using rx_reachable.polled [OF 2, of 1 "Ready (Inr [9])" _ "[]"] by (simp add: defs flip: numeral_2_eq_2)
  have "rx_reachable 1 id 2 example_arrived (example_rx 2 2 ?s [None, None] []) {} example_answers"
    using rx_reachable.polled [OF 3, of 2 "Ready (Inl (EndOfStream 2))" _ "[]"]
    by (simp add: defs example_answers_def flip: numeral_2_eq_2)
  moreover have "rx_next (example_rx 2 2 s ws str) = 2" for s ws str by (simp add: example_rx_def)
  ultimately show ?thesis by blast
qed

lemma example_sizes: "wire_size (gf_wire :: 8 word wire) = 1" "length example_payload = 2" "example_payload \<noteq> []" "fused example_arrived"
    "stream_bytes example_arrived = [7, 9]"
  by (simp_all add: gf_wire_def example_payload_def example_arrived_def)

theorem gateway_delivers_witness:
  "map (\<lambda>(i, m). (i, gateway_receive gf_wire example_channel (Ready (Inr m)))) (received example_answers)
     = [(0, Inr (Ready (Inr (7 :: 8 word)))), (1, Inr (Ready (Inr 9)))]"
proof -
  obtain st where st: "rx_reachable 1 id 2 example_arrived st {} example_answers" "rx_next st = 2" using example_all by blast
  have "wire_format (gf_wire :: 8 word wire)" ..
  from gateway_delivers [OF this, of example_payload example_channel 2 Map.empty _ example_sender example_sent example_arrived id 2 st "{}" example_answers]
  show ?thesis using st example_sender_created example_reachable example_sent_facts example_sizes
    by (simp add: SPARE_def example_payload_def upt_rec numeral_2_eq_2)
qed

theorem gateway_completes_witness:
  "\<exists>r st' woken. receiver_poll 1 0 0 (example_rx 0 0 spare_default [None, Some 1] example_arrived) = Inr (r, st', woken)
     \<and> gateway_receive gf_wire example_channel r = Inr (Ready (Inr (7 :: 8 word)))"
proof -
  let ?st = "example_rx 0 0 spare_default [None, Some 1] example_arrived"
  have created: "senders_get_or_create (wire_size (gf_wire :: 8 word wire)) example_channel 2 (Specified (length example_payload)) Map.empty
      = Inr (Map.empty(example_channel \<mapsto> example_sender), example_sender, True)"
    using example_sender_created by (simp add: example_sizes)
  have st: "rx_next (example_rx n m s ws str) = n" "rx_stream (example_rx n m s ws str) = str"
      "example_payload ! 0 = 7" "Pending \<notin> set example_arrived" for n m s ws str
    by (simp_all add: example_rx_def example_payload_def example_arrived_def)
  have "wire_format (gf_wire :: 8 word wire)" ..
  from gateway_completes [OF this _ example_sizes(3) created example_reachable example_stuck, of example_arrived id 2 ?st "{1}" "[(1, Pending)]"]
  show ?thesis using example_first example_sent_facts by (simp add: SPARE_def example_sizes st) blast
qed

end
