(* ===== verification/Query_Config.thy ===== *)
theory Query_Config
  imports Gateway
begin

text \<open>
  The parameters of a query, \<open>src/helpers/transport/query/mod.rs\<close>, with the identifier of a query from
  \<open>src/protocol/mod.rs\<close> and the field names of \<open>src/ff/field.rs\<close>, and the selection of a protocol for a query,
  \<open>src/query/executor.rs\<close>.
\<close>

subsection \<open>Identifiers and sizes\<close>

datatype QueryId = QueryId

definition query_id_repr :: string where
  "query_id_repr = ''0''"

definition query_id_try_from :: "string \<Rightarrow> QueryId res" where
  "query_id_try_from value = (if value = query_id_repr then Inr QueryId else Inl (ParseError value))"

record QuerySize =
  query_size :: u32

definition QUERY_SIZE_MAX :: nat where
  "QUERY_SIZE_MAX = 1000000000"

datatype BadQuerySizeError = BadU32 u32 | BadUSize u64 | BadI32 "32 word"

definition query_size_from_u32 :: "u32 \<Rightarrow> BadQuerySizeError + QuerySize" where
  "query_size_from_u32 v =
     (if v > 0 \<and> v \<le> of_nat QUERY_SIZE_MAX then Inr \<lparr>query_size = v\<rparr> else Inl (BadU32 v))"

definition query_size_from_usize :: "u64 \<Rightarrow> BadQuerySizeError + QuerySize" where
  "query_size_from_usize v =
     (if v > 0 \<and> v \<le> of_nat QUERY_SIZE_MAX then Inr \<lparr>query_size = ucast v\<rparr> else Inl (BadUSize v))"

text \<open>A signed number is its two's complement pattern.\<close>

definition query_size_from_i32 :: "32 word \<Rightarrow> BadQuerySizeError + QuerySize" where
  "query_size_from_i32 v =
     (if sint v > 0 \<and> sint v \<le> int QUERY_SIZE_MAX then Inr \<lparr>query_size = v\<rparr> else Inl (BadI32 v))"

subsection \<open>Query types\<close>

datatype FieldType = FieldFp31 | FieldFp32BitPrime

record IpaQueryConfig =
  per_user_credit_cap :: u32
  max_breakdown_key :: u32
  attribution_window_seconds :: "u32 option"
  num_multi_bits :: u32
  plaintext_match_keys :: bool

definition ipa_query_config_default :: IpaQueryConfig where
  "ipa_query_config_default =
     \<lparr>per_user_credit_cap = 3, max_breakdown_key = 20, attribution_window_seconds = None, num_multi_bits = 3,
      plaintext_match_keys = False\<rparr>"

definition ipa_query_config_new :: "u32 \<Rightarrow> u32 \<Rightarrow> u32 \<Rightarrow> u32 \<Rightarrow> IpaQueryConfig res" where
  "ipa_query_config_new cap breakdown_key window multi_bits =
     (if window = 0 then Inl Panic
      else Inr \<lparr>per_user_credit_cap = cap, max_breakdown_key = breakdown_key, attribution_window_seconds = Some window,
                num_multi_bits = multi_bits, plaintext_match_keys = False\<rparr>)"

definition ipa_query_config_no_window :: "u32 \<Rightarrow> u32 \<Rightarrow> u32 \<Rightarrow> IpaQueryConfig" where
  "ipa_query_config_no_window cap breakdown_key multi_bits =
     \<lparr>per_user_credit_cap = cap, max_breakdown_key = breakdown_key, attribution_window_seconds = None,
      num_multi_bits = multi_bits, plaintext_match_keys = False\<rparr>"

record ContributionBits =
  contribution_bits_value :: u32

text \<open>The error is the rejected number.\<close>

definition contribution_bits_try_from :: "u32 \<Rightarrow> u32 + ContributionBits" where
  "contribution_bits_try_from value = (if value \<in> {8, 32, 40} then Inr \<lparr>contribution_bits_value = value\<rparr> else Inl value)"

definition contribution_bits_default :: ContributionBits where
  "contribution_bits_default = \<lparr>contribution_bits_value = 8\<rparr>"

record SparseAggregateQueryConfig =
  contribution_bits :: ContributionBits
  num_contributions :: u32

definition sparse_aggregate_default :: SparseAggregateQueryConfig where
  "sparse_aggregate_default = \<lparr>contribution_bits = contribution_bits_default, num_contributions = 8\<rparr>"

datatype QueryType =
    TestMultiply
  | SemiHonestIpa IpaQueryConfig
  | MaliciousIpa IpaQueryConfig
  | SemiHonestSparseAggregate SparseAggregateQueryConfig
  | MaliciousSparseAggregate SparseAggregateQueryConfig
  | OprfIpa IpaQueryConfig

fun query_type_as_ref :: "QueryType \<Rightarrow> string" where
  "query_type_as_ref TestMultiply = ''test-multiply''"
| "query_type_as_ref (SemiHonestIpa _) = ''semihonest-ipa''"
| "query_type_as_ref (MaliciousIpa _) = ''malicious-ipa''"
| "query_type_as_ref (SemiHonestSparseAggregate _) = ''semihonest-sparse-aggregate''"
| "query_type_as_ref (MaliciousSparseAggregate _) = ''malicious-sparse-aggregate''"
| "query_type_as_ref (OprfIpa _) = ''oprf_ipa''"

record QueryConfig =
  qc_size :: QuerySize
  qc_field_type :: FieldType
  qc_query_type :: QueryType

definition query_config_new :: "QueryType \<Rightarrow> FieldType \<Rightarrow> u64 \<Rightarrow> BadQuerySizeError + QueryConfig" where
  "query_config_new query_type field_type n =
     bind_res (query_size_from_usize n) (\<lambda>sz.
       Inr \<lparr>qc_size = sz, qc_field_type = field_type, qc_query_type = query_type\<rparr>)"

definition gateway_config_from :: "QueryConfig \<Rightarrow> GatewayConfig res" where
  "gateway_config_from _ = gateway_config_default"

record PrepareQuery =
  pq_query_id :: QueryId
  pq_config :: QueryConfig
  pq_roles :: role_assignment

subsection \<open>Selection of a protocol\<close>

datatype security = SemiHonestSecurity | MaliciousSecurity

datatype query_runner =
    RunTestMultiply FieldType
  | RunIpa security FieldType IpaQueryConfig
  | RunSparseAggregate security FieldType SparseAggregateQueryConfig
  | RunOprfIpa FieldType IpaQueryConfig

fun execute_runner :: "QueryType \<Rightarrow> FieldType \<Rightarrow> query_runner" where
  "execute_runner TestMultiply FieldFp31 = RunTestMultiply FieldFp31"
| "execute_runner TestMultiply FieldFp32BitPrime = RunTestMultiply FieldFp32BitPrime"
| "execute_runner (SemiHonestIpa c) FieldFp31 = RunIpa SemiHonestSecurity FieldFp31 c"
| "execute_runner (SemiHonestIpa c) FieldFp32BitPrime = RunIpa SemiHonestSecurity FieldFp32BitPrime c"
| "execute_runner (MaliciousIpa c) FieldFp31 = RunIpa MaliciousSecurity FieldFp31 c"
| "execute_runner (MaliciousIpa c) FieldFp32BitPrime = RunIpa MaliciousSecurity FieldFp32BitPrime c"
| "execute_runner (SemiHonestSparseAggregate c) FieldFp31 = RunSparseAggregate SemiHonestSecurity FieldFp31 c"
| "execute_runner (SemiHonestSparseAggregate c) FieldFp32BitPrime = RunSparseAggregate SemiHonestSecurity FieldFp32BitPrime c"
| "execute_runner (MaliciousSparseAggregate c) FieldFp31 = RunSparseAggregate MaliciousSecurity FieldFp31 c"
| "execute_runner (MaliciousSparseAggregate c) FieldFp32BitPrime = RunSparseAggregate MaliciousSecurity FieldFp32BitPrime c"
| "execute_runner (OprfIpa c) FieldFp32BitPrime = RunOprfIpa FieldFp32BitPrime c"
| "execute_runner (OprfIpa c) FieldFp31 = RunOprfIpa FieldFp32BitPrime c"

fun runner_field :: "query_runner \<Rightarrow> FieldType" where
  "runner_field (RunTestMultiply f) = f"
| "runner_field (RunIpa _ f _) = f"
| "runner_field (RunSparseAggregate _ f _) = f"
| "runner_field (RunOprfIpa f _) = f"

text \<open>\<open>Result::into_bytes\<close>: the rows are written into a zeroed buffer at their offsets.\<close>

fun write_rows :: "'v wire \<Rightarrow> nat \<Rightarrow> 'v list \<Rightarrow> u8 list \<Rightarrow> u8 list" where
  "write_rows w i [] r = r"
| "write_rows w i (row # rows) r =
     write_rows w (Suc i) rows (take (i * wire_size w) r @ serialize w row @ drop (Suc i * wire_size w) r)"

definition into_bytes :: "'v wire \<Rightarrow> 'v list \<Rightarrow> u8 list" where
  "into_bytes w rows = write_rows w 0 rows (replicate (length rows * wire_size w) 0)"

subsection \<open>Lemmas\<close>

lemma query_id_roundtrip: "query_id_try_from query_id_repr = Inr QueryId"
  by (simp add: query_id_try_from_def)

lemma query_size_usize_u32:
  assumes "unat v < 2 ^ 32"
  shows "(case query_size_from_usize v of Inr s \<Rightarrow> query_size_from_u32 (ucast v) = Inr s | Inl _ \<Rightarrow> \<exists>e. query_size_from_u32 (ucast v) = Inl e)"
proof -
  have "unat (ucast v :: u32) = unat v" using assms by (simp add: unsigned_ucast_eq take_bit_nat_eq_self)
  then show ?thesis
    by (auto simp: query_size_from_usize_def query_size_from_u32_def QUERY_SIZE_MAX_def word_less_nat_alt word_le_nat_alt)
qed

text \<open>The protocol works over the field that was asked for, but for the OPRF protocol over \<open>Fp31\<close>.\<close>

lemma execute_runner_field:
  "runner_field (execute_runner t f) = f \<longleftrightarrow> \<not> (f = FieldFp31 \<and> (\<exists>c. t = OprfIpa c))"
  by (cases t; cases f) simp_all

context wire_format
begin

lemma write_rows_eq:
  assumes "i * wire_size w \<le> length pre" and "length pre = i * wire_size w" and "length post = length rows * wire_size w"
  shows "write_rows w i rows (pre @ post) = pre @ concat (map (serialize w) rows)"
  using assms
proof (induction rows arbitrary: i pre post)
  case (Cons row rows)
  have "write_rows w (Suc i) rows ((pre @ serialize w row) @ drop (wire_size w) post) = (pre @ serialize w row) @ concat (map (serialize w) rows)"
    by (rule Cons.IH) (use Cons.prems in \<open>simp_all add: serialize_length add.commute\<close>)
  then show ?case using Cons.prems by (simp add: add.commute)
qed simp

lemma into_bytes_eq: "into_bytes w rows = concat (map (serialize w) rows)"
  unfolding into_bytes_def using write_rows_eq [of 0 "[]" "replicate (length rows * wire_size w) 0" rows] by simp

end

end
