(* ===== verification/Query_Requests.thy ===== *)
theory Query_Requests
  imports Query_Config
begin

text \<open>
  The life cycle of queries on a helper, \<open>src/query/state.rs\<close>, \<open>src/query/processor.rs\<close> and \<open>src/query/completion.rs\<close>.
  The table of queries is behind a mutex: each critical section is one action, and a panic inside one poisons
  the mutex, so that every later \<open>lock().unwrap()\<close> panics. The requests that wait for something outside, \<open>new_query\<close>
  for the other helpers and \<open>complete\<close> for the task of the query, are split at the wait. The task of a query is
  outside the processor and answers through a one-shot channel. A guard whose removal finds the mutex poisoned panics
  inside a panic, which ends the process; the model leaves the table as it is then.
\<close>

subsection \<open>Query states\<close>

datatype QueryStatus = StPreparing | StAwaitingInputs | StRunning | StAwaitingCompletion | StCompleted

type_synonym QueryResult = "u8 list res"

text \<open>The receiving end of the one-shot channel.\<close>

datatype oneshot = NotSent | Sent QueryResult | Closed

record RunningQuery =
  rq_result :: oneshot

datatype QueryState =
    Empty
  | Preparing QueryConfig
  | AwaitingInputs QueryId QueryConfig role_assignment
  | Running RunningQuery
  | AwaitingCompletion
  | Completed QueryResult

fun status_from :: "QueryState \<Rightarrow> QueryStatus res" where
  "status_from Empty = Inl Panic"
| "status_from (Preparing _) = Inr StPreparing"
| "status_from (AwaitingInputs _ _ _) = Inr StAwaitingInputs"
| "status_from (Running _) = Inr StRunning"
| "status_from AwaitingCompletion = Inr StAwaitingCompletion"
| "status_from (Completed _) = Inr StCompleted"

datatype StateError = StateAlreadyRunning | InvalidState QueryStatus QueryStatus

fun transition :: "QueryState \<Rightarrow> QueryState \<Rightarrow> (StateError + QueryState) res" where
  "transition Empty (Preparing c) = Inr (Inr (Preparing c))"
| "transition Empty (AwaitingInputs q c r) = Inr (Inr (AwaitingInputs q c r))"
| "transition (Preparing _) (AwaitingInputs q c r) = Inr (Inr (AwaitingInputs q c r))"
| "transition _ (Preparing _) = Inr (Inl StateAlreadyRunning)"
| "transition cur_state new_state =
     bind_res (status_from cur_state) (\<lambda>from. bind_res (status_from new_state) (\<lambda>to. Inr (Inl (InvalidState from to))))"

text \<open>\<open>RunningQuery::try_complete\<close>.\<close>

fun try_complete :: "RunningQuery \<Rightarrow> QueryResult option res" where
  "try_complete rq = (case rq_result rq of Sent r \<Rightarrow> Inr (Some r) | Closed \<Rightarrow> Inl Panic | NotSent \<Rightarrow> Inr None)"

text \<open>\<open>RunningQuery::poll\<close>.\<close>

fun running_poll :: "RunningQuery \<Rightarrow> QueryResult poll res" where
  "running_poll rq = (case rq_result rq of Sent r \<Rightarrow> Inr (Ready r) | Closed \<Rightarrow> Inl Panic | NotSent \<Rightarrow> Inr Pending)"

subsection \<open>The table of queries\<close>

type_synonym queries = "QueryId \<rightharpoonup> QueryState"

record RunningQueries =
  inner :: queries
  poisoned :: bool

definition running_queries_default :: RunningQueries where
  "running_queries_default = \<lparr>inner = Map.empty, poisoned = False\<rparr>"

text \<open>A critical section.\<close>

definition locked :: "(queries \<Rightarrow> 'a res \<times> queries) \<Rightarrow> RunningQueries \<Rightarrow> 'a res \<times> RunningQueries" where
  "locked f p =
     (if poisoned p then (Inl Panic, p)
      else case f (inner p) of
        (Inl e, qs) \<Rightarrow> (Inl e, \<lparr>inner = qs, poisoned = True\<rparr>)
      | (Inr v, qs) \<Rightarrow> (Inr v, \<lparr>inner = qs, poisoned = False\<rparr>))"

definition set_state :: "QueryId \<Rightarrow> QueryState \<Rightarrow> RunningQueries \<Rightarrow> (StateError + unit) res \<times> RunningQueries" where
  "set_state q new_state = locked (\<lambda>qs.
     case transition (case qs q of Some s \<Rightarrow> s | None \<Rightarrow> Empty) new_state of
       Inl e \<Rightarrow> (Inl e, qs)
     | Inr (Inl e) \<Rightarrow> (Inr (Inl e), qs)
     | Inr (Inr s) \<Rightarrow> (Inr (Inr ()), qs(q \<mapsto> s)))"

definition handle_status :: "QueryId \<Rightarrow> RunningQueries \<Rightarrow> QueryStatus option res \<times> RunningQueries" where
  "handle_status q = locked (\<lambda>qs.
     (case qs q of None \<Rightarrow> Inr None | Some s \<Rightarrow> bind_res (status_from s) (\<lambda>st. Inr (Some st)), qs))"

text \<open>\<open>RemoveQuery::drop\<close> of a guard that was not restored.\<close>

definition remove_query :: "QueryId \<Rightarrow> RunningQueries \<Rightarrow> unit res \<times> RunningQueries" where
  "remove_query q = locked (\<lambda>qs. (Inr (), qs(q := None)))"

subsection \<open>Requests\<close>

datatype NewQueryError = NewState StateError | Transport

datatype PrepareQueryError = WrongTarget | PrepareAlreadyRunning | PrepareState StateError

datatype QueryInputError = InputNoSuchQuery QueryId | InputState StateError

datatype QueryStatusError = StatusNoSuchQuery QueryId

datatype QueryCompletionError = CompletionNoSuchQuery QueryId | CompletionState StateError | ExecutionError ipa_error

text \<open>\<open>new_query\<close> up to the requests to the other helpers. After the state is set, the guard exists: the way out
  by a panic removes the query.\<close>

definition new_query_request :: "helper_identity \<Rightarrow> QueryConfig \<Rightarrow> PrepareQuery res" where
  "new_query_request identity req =
     bind_res (others identity) (\<lambda>(right, left).
       case role_assignment_try_from [(identity, H1), (right, H2), (left, H3)] of
         Inl _ \<Rightarrow> Inl Panic
       | Inr roles \<Rightarrow> Inr \<lparr>pq_query_id = QueryId, pq_config = req, pq_roles = roles\<rparr>)"

definition new_query_begin ::
  "helper_identity \<Rightarrow> QueryConfig \<Rightarrow> RunningQueries \<Rightarrow> (NewQueryError + PrepareQuery) res \<times> RunningQueries"
where
  "new_query_begin identity req p =
     (case set_state QueryId (Preparing req) p of
        (Inl e, p') \<Rightarrow> (Inl e, p')
      | (Inr (Inl e), p') \<Rightarrow> (Inr (Inl (NewState e)), p')
      | (Inr (Inr _), p') \<Rightarrow>
          (case new_query_request identity req of
             Inl e \<Rightarrow> (Inl e, snd (remove_query QueryId p'))
           | Inr prepare_request \<Rightarrow> (Inr (Inr prepare_request), p')))"

text \<open>The rest of \<open>new_query\<close>, after the other helpers have answered.\<close>

definition new_query_finish ::
  "PrepareQuery \<Rightarrow> bool \<Rightarrow> RunningQueries \<Rightarrow> (NewQueryError + PrepareQuery) res \<times> RunningQueries"
where
  "new_query_finish prepare_request accepted p =
     (if \<not> accepted then
        (case remove_query (pq_query_id prepare_request) p of
           (Inl e, p') \<Rightarrow> (Inl e, p')
         | (Inr _, p') \<Rightarrow> (Inr (Inl Transport), p'))
      else
        case set_state (pq_query_id prepare_request)
               (AwaitingInputs (pq_query_id prepare_request) (pq_config prepare_request) (pq_roles prepare_request)) p of
          (Inl e, p') \<Rightarrow> (Inl e, snd (remove_query (pq_query_id prepare_request) p'))
        | (Inr (Inl e), p') \<Rightarrow>
            (case remove_query (pq_query_id prepare_request) p' of
               (Inl e', p'') \<Rightarrow> (Inl e', p'')
             | (Inr _, p'') \<Rightarrow> (Inr (Inl (NewState e)), p''))
        | (Inr (Inr _), p') \<Rightarrow> (Inr (Inr prepare_request), p'))"

definition prepare ::
  "helper_identity \<Rightarrow> PrepareQuery \<Rightarrow> RunningQueries \<Rightarrow> (PrepareQueryError + unit) res \<times> RunningQueries"
where
  "prepare identity req p =
     (case role_of (pq_roles req) identity of
        Inl e \<Rightarrow> (Inl e, p)
      | Inr my_role \<Rightarrow>
          if my_role = H1 then (Inr (Inl WrongTarget), p)
          else case handle_status (pq_query_id req) p of
            (Inl e, p') \<Rightarrow> (Inl e, p')
          | (Inr (Some _), p') \<Rightarrow> (Inr (Inl PrepareAlreadyRunning), p')
          | (Inr None, p') \<Rightarrow>
              (case set_state (pq_query_id req) (AwaitingInputs (pq_query_id req) (pq_config req) (pq_roles req)) p' of
                 (Inl e, p'') \<Rightarrow> (Inl e, p'')
               | (Inr (Inl e), p'') \<Rightarrow> (Inr (Inl (PrepareState e)), p'')
               | (Inr (Inr _), p'') \<Rightarrow> (Inr (Inr ()), p'')))"

text \<open>\<open>executor::do_query\<close> spawns the task and keeps the receiving end of a new channel.\<close>

definition do_query :: RunningQuery where
  "do_query = \<lparr>rq_result = NotSent\<rparr>"

definition receive_inputs :: "QueryId \<Rightarrow> RunningQueries \<Rightarrow> (QueryInputError + unit) res \<times> RunningQueries" where
  "receive_inputs q = locked (\<lambda>qs.
     case qs q of
       None \<Rightarrow> (Inr (Inl (InputNoSuchQuery q)), qs)
     | Some (AwaitingInputs query_id config roles) \<Rightarrow>
         if q \<noteq> query_id then (Inl Panic, qs(q := None))
         else (case gateway_config_from config of
                 Inl e \<Rightarrow> (Inl e, qs(q := None))
               | Inr _ \<Rightarrow> (Inr (Inr ()), qs(q \<mapsto> Running do_query)))
     | Some state \<Rightarrow>
         (case status_from state of
            Inl e \<Rightarrow> (Inl e, qs(q := None))
          | Inr from \<Rightarrow> (Inr (Inl (InputState (InvalidState from StRunning))), qs(q \<mapsto> state))))"

definition query_status :: "QueryId \<Rightarrow> RunningQueries \<Rightarrow> (QueryStatusError + QueryStatus) res \<times> RunningQueries" where
  "query_status q = locked (\<lambda>qs.
     case qs q of
       None \<Rightarrow> (Inr (Inl (StatusNoSuchQuery q)), qs)
     | Some state \<Rightarrow>
         (case (case state of
                  Running running \<Rightarrow>
                    bind_res (try_complete running) (\<lambda>r. Inr (case r of Some result \<Rightarrow> Completed result | None \<Rightarrow> state))
                | _ \<Rightarrow> Inr state) of
            Inl e \<Rightarrow> (Inl e, qs(q := None))
          | Inr state' \<Rightarrow>
              (case status_from state' of
                 Inl e \<Rightarrow> (Inl e, qs(q := None))
               | Inr status \<Rightarrow> (Inr (Inr status), qs(q \<mapsto> state')))))"

text \<open>\<open>complete\<close> up to the wait: the result, or the handle that waits for it.\<close>

datatype completion = Immediate "QueryCompletionError + u8 list" | Handle RunningQuery

definition execution_result :: "QueryResult \<Rightarrow> QueryCompletionError + u8 list" where
  "execution_result r = (case r of Inl e \<Rightarrow> Inl (ExecutionError e) | Inr out \<Rightarrow> Inr out)"

definition complete_begin :: "QueryId \<Rightarrow> RunningQueries \<Rightarrow> completion res \<times> RunningQueries" where
  "complete_begin q = locked (\<lambda>qs.
     case qs q of
       Some (Completed r) \<Rightarrow> (Inr (Immediate (execution_result r)), qs(q := None))
     | Some (Running handle) \<Rightarrow> (Inr (Handle handle), qs(q \<mapsto> AwaitingCompletion))
     | Some state \<Rightarrow>
         (case status_from state of
            Inl e \<Rightarrow> (Inl e, qs(q := None))
          | Inr from \<Rightarrow> (Inr (Immediate (Inl (CompletionState (InvalidState from StRunning)))), qs(q \<mapsto> state)))
     | None \<Rightarrow> (Inr (Immediate (Inl (CompletionNoSuchQuery q))), qs))"

text \<open>A poll of the completion handle; when it is done, by a result or by a panic, its guard removes the query.\<close>

definition complete_poll ::
  "QueryId \<Rightarrow> RunningQuery \<Rightarrow> RunningQueries \<Rightarrow> (QueryCompletionError + u8 list) poll res \<times> RunningQueries"
where
  "complete_poll q handle p =
     (case running_poll handle of
        Inl e \<Rightarrow> (Inl e, snd (remove_query q p))
      | Inr Pending \<Rightarrow> (Inr Pending, p)
      | Inr (Ready r) \<Rightarrow>
          (case remove_query q p of
             (Inl e, p') \<Rightarrow> (Inl e, p')
           | (Inr _, p') \<Rightarrow> (Inr (Ready (execution_result r)), p')))"

end
