(* ===== verification/Query_Processor.thy ===== *)
theory Query_Processor
  imports Query_Requests
begin

text \<open>
  The executions of the query processor: requests, answers of other helpers and of query tasks in any order, the invariant
  of the table of queries, the life cycle of a query, and the set-up of a query across the three helpers.
\<close>

subsection \<open>Executions\<close>

text \<open>A helper: its table, the \<open>new_query\<close> requests that wait for the other helpers, and the completion handles that
  wait for a result. Requests come in any order and number, waiting ones are answered, refused or dropped, and the task of
  a query answers at any time.\<close>

record helper =
  h_queries :: RunningQueries
  h_new :: "PrepareQuery list"
  h_handles :: "(QueryId \<times> RunningQuery) list"

definition helper_start :: helper where
  "helper_start = \<lparr>h_queries = running_queries_default, h_new = [], h_handles = []\<rparr>"

inductive qstep :: "helper_identity \<Rightarrow> helper \<Rightarrow> helper \<Rightarrow> bool" for identity where
  new_accepted: "new_query_begin identity req (h_queries s) = (Inr (Inr r), p)
    \<Longrightarrow> qstep identity s (s\<lparr>h_queries := p, h_new := r # h_new s\<rparr>)"
| new_rejected: "new_query_begin identity req (h_queries s) = (x, p) \<Longrightarrow> \<forall>r. x \<noteq> Inr (Inr r)
    \<Longrightarrow> qstep identity s (s\<lparr>h_queries := p\<rparr>)"
| new_finished: "r \<in> set (h_new s) \<Longrightarrow> new_query_finish r accepted (h_queries s) = (x, p)
    \<Longrightarrow> qstep identity s (s\<lparr>h_queries := p, h_new := remove1 r (h_new s)\<rparr>)"
| new_dropped: "r \<in> set (h_new s) \<Longrightarrow> remove_query (pq_query_id r) (h_queries s) = (x, p)
    \<Longrightarrow> qstep identity s (s\<lparr>h_queries := p, h_new := remove1 r (h_new s)\<rparr>)"
| prepared: "prepare identity req (h_queries s) = (x', p) \<Longrightarrow> qstep identity s (s\<lparr>h_queries := p\<rparr>)"
| inputs: "receive_inputs q (h_queries s) = (x', p) \<Longrightarrow> qstep identity s (s\<lparr>h_queries := p\<rparr>)"
| asked: "query_status q (h_queries s) = (y, p) \<Longrightarrow> qstep identity s (s\<lparr>h_queries := p\<rparr>)"
| completing: "complete_begin q (h_queries s) = (Inr (Handle h), p)
    \<Longrightarrow> qstep identity s (s\<lparr>h_queries := p, h_handles := (q, h) # h_handles s\<rparr>)"
| complete_now: "complete_begin q (h_queries s) = (z, p) \<Longrightarrow> \<forall>h. z \<noteq> Inr (Handle h)
    \<Longrightarrow> qstep identity s (s\<lparr>h_queries := p\<rparr>)"
| handle_ready: "(q, h) \<in> set (h_handles s) \<Longrightarrow> complete_poll q h (h_queries s) = (v, p) \<Longrightarrow> v \<noteq> Inr Pending
    \<Longrightarrow> qstep identity s (s\<lparr>h_queries := p, h_handles := remove1 (q, h) (h_handles s)\<rparr>)"
| handle_dropped: "(q, h) \<in> set (h_handles s) \<Longrightarrow> remove_query q (h_queries s) = (u, p)
    \<Longrightarrow> qstep identity s (s\<lparr>h_queries := p, h_handles := remove1 (q, h) (h_handles s)\<rparr>)"
| task_stored: "inner (h_queries s) q = Some (Running rq) \<Longrightarrow> rq_result rq = NotSent \<Longrightarrow> answer \<noteq> NotSent
    \<Longrightarrow> qstep identity s (s\<lparr>h_queries := (h_queries s)\<lparr>inner := (inner (h_queries s))(q \<mapsto> Running \<lparr>rq_result = answer\<rparr>)\<rparr>\<rparr>)"
| task_handled: "(q, h) \<in> set (h_handles s) \<Longrightarrow> rq_result h = NotSent \<Longrightarrow> answer \<noteq> NotSent
    \<Longrightarrow> qstep identity s (s\<lparr>h_handles := map (\<lambda>e. if e = (q, h) then (q, \<lparr>rq_result = answer\<rparr>) else e) (h_handles s)\<rparr>)"

inductive qreachable :: "helper_identity \<Rightarrow> helper \<Rightarrow> bool" for identity where
  qstart: "qreachable identity helper_start"
| qnext: "qreachable identity s \<Longrightarrow> qstep identity s s' \<Longrightarrow> qreachable identity s'"

text \<open>What the table promises while no panic has poisoned it.\<close>

fun query_ok :: "QueryState option \<Rightarrow> PrepareQuery list \<Rightarrow> (QueryId \<times> RunningQuery) list \<Rightarrow> bool" where
  "query_ok None new hs \<longleftrightarrow> new = [] \<and> hs = []"
| "query_ok (Some Empty) new hs \<longleftrightarrow> False"
| "query_ok (Some (Preparing c)) new hs \<longleftrightarrow> (\<exists>r. new = [r] \<and> pq_config r = c) \<and> hs = []"
| "query_ok (Some AwaitingCompletion) new hs \<longleftrightarrow> new = [] \<and> (\<exists>h. hs = [(QueryId, h)])"
| "query_ok (Some _) new hs \<longleftrightarrow> new = [] \<and> hs = []"

definition query_inv :: "helper \<Rightarrow> bool" where
  "query_inv s \<longleftrightarrow> query_ok (inner (h_queries s) QueryId) (h_new s) (h_handles s)"

fun status_opt :: "QueryState option \<Rightarrow> QueryStatus option" where
  "status_opt None = None"
| "status_opt (Some s) = (case status_from s of Inr st \<Rightarrow> Some st | Inl _ \<Rightarrow> None)"

text \<open>The abstract life cycle of a query.\<close>

inductive lifecycle :: "QueryStatus option \<Rightarrow> QueryStatus option \<Rightarrow> bool" where
  coordinate: "lifecycle None (Some StPreparing)"
| follow: "lifecycle None (Some StAwaitingInputs)"
| agree: "lifecycle (Some StPreparing) (Some StAwaitingInputs)"
| refuse: "lifecycle (Some StPreparing) None"
| run_query: "lifecycle (Some StAwaitingInputs) (Some StRunning)"
| finish: "lifecycle (Some StRunning) (Some StCompleted)"
| await: "lifecycle (Some StRunning) (Some StAwaitingCompletion)"
| collect: "lifecycle (Some StCompleted) None"
| hand_over: "lifecycle (Some StAwaitingCompletion) None"

abbreviation status_at :: "helper \<Rightarrow> QueryStatus option" where
  "status_at s \<equiv> status_opt (inner (h_queries s) QueryId)"

subsection \<open>What each request does to the table\<close>

lemmas lock_defs = set_state_def handle_status_def remove_query_def locked_def

lemma new_query_request_fields:
  "new_query_request identity req = Inr r \<Longrightarrow> pq_config r = req \<and> pq_query_id r = QueryId"
  unfolding new_query_request_def
  by (cases "others identity"; cases "role_assignment_try_from [(identity, H1), (fst (projr (others identity)), H2), (snd (projr (others identity)), H3)]")
    (auto split: prod.splits)

lemma new_query_begin_accepted:
  assumes "new_query_begin identity req p = (Inr (Inr r), p')" and "inner p QueryId \<noteq> Some Empty"
  shows "\<not> poisoned p \<and> inner p QueryId = None \<and> inner p' QueryId = Some (Preparing (pq_config r)) \<and> pq_query_id r = QueryId \<and> \<not> poisoned p'"
  using assms new_query_request_fields [of identity req r]
  by (cases "inner p QueryId"; cases "the (inner p QueryId)"; cases "new_query_request identity req")
    (auto simp: new_query_begin_def lock_defs split: if_splits)

lemma new_query_begin_rejected:
  assumes "new_query_begin identity req p = (x, p')" and "\<forall>r. x \<noteq> Inr (Inr r)" and "\<not> poisoned p'" and "inner p QueryId \<noteq> Some Empty"
  shows "\<not> poisoned p \<and> inner p' QueryId = inner p QueryId"
  using assms
  by (cases "inner p QueryId"; cases "the (inner p QueryId)"; cases "new_query_request identity req")
    (auto simp: new_query_begin_def lock_defs split: if_splits)

lemma new_query_finish_table:
  assumes "new_query_finish r accepted p = (x, p')" and "inner p QueryId = Some (Preparing c)" and "\<not> poisoned p'"
  shows "\<not> poisoned p \<and> (inner p' QueryId = None \<or> (\<exists>roles. inner p' QueryId = Some (AwaitingInputs QueryId (pq_config r) roles)))"
  using assms
  by (cases "pq_query_id r") (auto simp: new_query_finish_def lock_defs split: if_splits)

lemma remove_query_table:
  assumes "remove_query q p = (x, p')" and "\<not> poisoned p'"
  shows "\<not> poisoned p \<and> inner p' QueryId = None"
  using assms by (cases q) (auto simp: lock_defs split: if_splits)

lemma prepare_table:
  assumes "prepare identity req p = (x, p')" and "\<not> poisoned p'"
  shows "\<not> poisoned p \<and> (inner p' QueryId = inner p QueryId
    \<or> inner p QueryId = None \<and> inner p' QueryId = Some (AwaitingInputs QueryId (pq_config req) (pq_roles req)))"
  using assms
  by (cases "pq_query_id req"; cases "inner p QueryId"; cases "the (inner p QueryId)")
    (auto simp: prepare_def lock_defs split: if_splits sum.splits)

lemma receive_inputs_table:
  assumes "receive_inputs q p = (x, p')" and "\<not> poisoned p'"
  shows "\<not> poisoned p \<and> (inner p' QueryId = inner p QueryId
    \<or> (\<exists>c roles. inner p QueryId = Some (AwaitingInputs QueryId c roles)) \<and> inner p' QueryId = Some (Running do_query))"
  using assms
  by (cases q; cases "inner p QueryId"; cases "the (inner p QueryId)")
    (auto simp: receive_inputs_def locked_def gateway_config_from_def gateway_config_default_def gateway_config_new_def
      intro: QueryId.exhaust split: if_splits sum.splits)

lemma query_status_table:
  assumes "query_status q p = (x, p')" and "\<not> poisoned p'"
  shows "\<not> poisoned p \<and> (inner p' QueryId = inner p QueryId
    \<or> (\<exists>r. inner p QueryId = Some (Running \<lparr>rq_result = Sent r\<rparr>) \<and> inner p' QueryId = Some (Completed r)))"
  using assms
  by (cases q; cases "inner p QueryId"; cases "the (inner p QueryId)")
    (auto simp: query_status_def locked_def split: if_splits sum.splits oneshot.splits)

lemma complete_begin_handle:
  assumes "complete_begin q p = (Inr (Handle h), p')"
  shows "\<not> poisoned p \<and> \<not> poisoned p' \<and> inner p QueryId = Some (Running h) \<and> inner p' QueryId = Some AwaitingCompletion"
  using assms
  by (cases q; cases "inner p QueryId"; cases "the (inner p QueryId)")
    (auto simp: complete_begin_def locked_def split: if_splits sum.splits)

lemma complete_begin_now:
  assumes "complete_begin q p = (x, p')" and "\<forall>h. x \<noteq> Inr (Handle h)" and "\<not> poisoned p'"
  shows "\<not> poisoned p \<and> (inner p' QueryId = inner p QueryId
    \<or> (\<exists>r. inner p QueryId = Some (Completed r) \<and> inner p' QueryId = None \<and> x = Inr (Immediate (execution_result r))))"
  using assms
  by (cases q; cases "inner p QueryId"; cases "the (inner p QueryId)")
    (auto simp: complete_begin_def locked_def split: if_splits sum.splits)

lemma complete_poll_table:
  assumes "complete_poll q h p = (x, p')" and "x \<noteq> Inr Pending" and "\<not> poisoned p'"
  shows "\<not> poisoned p \<and> inner p' QueryId = None"
  using assms by (cases q) (auto simp: complete_poll_def lock_defs split: if_splits oneshot.splits)

subsection \<open>The invariant and the life cycle\<close>

lemma query_inv_table:
  assumes "query_inv s"
  shows "inner (h_queries s) QueryId \<noteq> Some Empty"
    and "r \<in> set (h_new s) \<Longrightarrow> h_new s = [r] \<and> inner (h_queries s) QueryId = Some (Preparing (pq_config r)) \<and> h_handles s = []"
    and "e \<in> set (h_handles s) \<Longrightarrow> h_handles s = [e] \<and> inner (h_queries s) QueryId = Some AwaitingCompletion \<and> h_new s = []"
  using assms unfolding query_inv_def by (cases rule: query_ok.cases [of "(inner (h_queries s) QueryId, h_new s, h_handles s)"]; auto)+

lemma table_step:
  assumes "query_inv s" and "s' = s\<lparr>h_queries := p\<rparr>"
    and "inner p QueryId = inner (h_queries s) QueryId
      \<or> (query_ok (inner (h_queries s) QueryId) (h_new s) (h_handles s) \<longrightarrow> query_ok (inner p QueryId) (h_new s) (h_handles s))
        \<and> lifecycle (status_at s) (status_opt (inner p QueryId))"
  shows "query_inv s' \<and> (status_at s' = status_at s \<or> lifecycle (status_at s) (status_at s'))"
  using assms by (auto simp: query_inv_def)

lemma qstep_inv:
  assumes "qstep identity s s'" and inv: "query_inv s" and clean: "\<not> poisoned (h_queries s')"
  shows "query_inv s' \<and> (status_at s' = status_at s \<or> lifecycle (status_at s) (status_at s'))"
  using assms(1)
proof cases
  case (new_accepted req r p)
  then show ?thesis using new_query_begin_accepted [OF new_accepted(2) query_inv_table(1) [OF inv]] inv
    by (auto simp: query_inv_def lifecycle.simps)
next
  case (new_rejected req x p)
  then show ?thesis using new_query_begin_rejected [OF new_rejected(2,3) _ query_inv_table(1) [OF inv]] inv clean
    by (auto simp: query_inv_def)
next
  case (new_finished r accepted x p)
  then show ?thesis using new_query_finish_table [OF new_finished(3)] query_inv_table(2) [OF inv new_finished(2)] clean
    by (auto simp: query_inv_def lifecycle.simps)
next
  case (new_dropped r x p)
  then show ?thesis using remove_query_table [OF new_dropped(3)] query_inv_table(2) [OF inv new_dropped(2)] clean
    by (auto simp: query_inv_def lifecycle.simps)
next
  case (prepared req x p)
  show ?thesis
    by (rule table_step [OF inv prepared(1)]) (use prepare_table [OF prepared(2)] clean prepared(1) in \<open>auto intro: lifecycle.intros\<close>)
next
  case (inputs q x p)
  show ?thesis
    by (rule table_step [OF inv inputs(1)]) (use receive_inputs_table [OF inputs(2)] clean inputs(1) in \<open>auto intro: lifecycle.intros\<close>)
next
  case (asked q x p)
  show ?thesis
    by (rule table_step [OF inv asked(1)]) (use query_status_table [OF asked(2)] clean asked(1) in \<open>auto intro: lifecycle.intros\<close>)
next
  case (completing q h p)
  then show ?thesis using complete_begin_handle [OF completing(2)] inv by (cases q) (auto simp: query_inv_def lifecycle.simps)
next
  case (complete_now q x p)
  show ?thesis
    by (rule table_step [OF inv complete_now(1)]) (use complete_begin_now [OF complete_now(2,3)] clean complete_now(1) in \<open>auto intro: lifecycle.intros\<close>)
next
  case (handle_ready q h x p)
  then show ?thesis using complete_poll_table [OF handle_ready(3,4)] query_inv_table(3) [OF inv handle_ready(2)] clean
    by (auto simp: query_inv_def lifecycle.simps)
next
  case (handle_dropped q h x p)
  then show ?thesis using remove_query_table [OF handle_dropped(3)] query_inv_table(3) [OF inv handle_dropped(2)] clean
    by (auto simp: query_inv_def lifecycle.simps)
next
  case (task_stored q rq a)
  then show ?thesis using inv by (cases q) (auto simp: query_inv_def)
next
  case (task_handled q h a)
  then show ?thesis using query_inv_table(3) [OF inv task_handled(2)] by (cases q) (auto simp: query_inv_def)
qed

lemma qstep_poisoned:
  assumes "qstep identity s s'" and "poisoned (h_queries s)"
  shows "poisoned (h_queries s')"
  using assms
  by cases (auto simp: new_query_begin_def new_query_finish_def prepare_def receive_inputs_def query_status_def complete_begin_def
      complete_poll_def lock_defs split: if_splits sum.splits oneshot.splits)

lemma qreachable_inv: "qreachable identity s \<Longrightarrow> \<not> poisoned (h_queries s) \<Longrightarrow> query_inv s"
proof (induction rule: qreachable.induct)
  case qstart
  then show ?case by (simp add: helper_start_def running_queries_default_def query_inv_def)
next
  case (qnext s s')
  then show ?case using qstep_inv qstep_poisoned by blast
qed

subsection \<open>Properties\<close>

lemma query_table_well_formed:
  assumes "qreachable identity s" and "\<not> poisoned (h_queries s)"
  shows "query_ok (inner (h_queries s) QueryId) (h_new s) (h_handles s)"
  using qreachable_inv [OF assms] by (simp add: query_inv_def)


definition example_config :: QueryConfig where
  "example_config = \<lparr>qc_size = \<lparr>query_size = 4\<rparr>, qc_field_type = FieldFp32BitPrime, qc_query_type = TestMultiply\<rparr>"

definition example_request :: PrepareQuery where
  "example_request = \<lparr>pq_query_id = QueryId, pq_config = example_config, pq_roles = \<lparr>helper_roles = [helper_ONE, helper_TWO, helper_THREE]\<rparr>\<rparr>"

definition example_helper :: helper where
  "example_helper = \<lparr>h_queries = \<lparr>inner = Map.empty(QueryId \<mapsto> Preparing example_config), poisoned = False\<rparr>, h_new = [example_request], h_handles = []\<rparr>"

lemma example_helper_step: "qstep helper_ONE helper_start example_helper"
proof -
  have "new_query_begin helper_ONE example_config (h_queries helper_start)
      = (Inr (Inr example_request), \<lparr>inner = Map.empty(QueryId \<mapsto> Preparing example_config), poisoned = False\<rparr>)"
    by (simp add: new_query_begin_def lock_defs helper_start_def running_queries_default_def new_query_request_def others_def
        helper_ONE_def example_request_def role_assignment_try_from_def)
  from new_accepted [OF this] show ?thesis by (simp add: example_helper_def helper_start_def)
qed

lemma example_helper_reachable: "qreachable helper_ONE example_helper"
  using qnext [OF qstart example_helper_step] .


lemma table_same: "\<not> poisoned p \<Longrightarrow> inner p q = Some st \<Longrightarrow> \<lparr>inner = (inner p)(q \<mapsto> st), poisoned = False\<rparr> = p"
  "\<not> poisoned p \<Longrightarrow> \<lparr>inner = inner p, poisoned = False\<rparr> = p"
  by (cases p; auto)+

text \<open>C37: A request that does not fit the state of the query is refused with the error that names the state, and leaves the table
  as it was: a second query, a request to prepare sent to the coordinator or while a query is known, inputs and
  completion for an unknown query or at the wrong time.\<close>

theorem requests_out_of_order:
  assumes "qreachable identity s" and "\<not> poisoned (h_queries s)"
  shows "(status_at s \<noteq> None \<longrightarrow> new_query_begin identity c (h_queries s) = (Inr (Inl (NewState StateAlreadyRunning)), h_queries s))
    \<and> (role_of (pq_roles r) identity = Inr H1 \<longrightarrow> prepare identity r (h_queries s) = (Inr (Inl WrongTarget), h_queries s))
    \<and> (role_of (pq_roles r) identity \<in> {Inr H2, Inr H3} \<and> status_at s \<noteq> None
        \<longrightarrow> prepare identity r (h_queries s) = (Inr (Inl PrepareAlreadyRunning), h_queries s))
    \<and> (status_at s = None
        \<longrightarrow> receive_inputs QueryId (h_queries s) = (Inr (Inl (InputNoSuchQuery QueryId)), h_queries s)
          \<and> query_status QueryId (h_queries s) = (Inr (Inl (StatusNoSuchQuery QueryId)), h_queries s)
          \<and> complete_begin QueryId (h_queries s) = (Inr (Immediate (Inl (CompletionNoSuchQuery QueryId))), h_queries s))
    \<and> (status_at s = Some from \<and> from \<noteq> StAwaitingInputs
        \<longrightarrow> receive_inputs QueryId (h_queries s) = (Inr (Inl (InputState (InvalidState from StRunning))), h_queries s))
    \<and> (status_at s = Some from \<and> from \<in> {StPreparing, StAwaitingInputs, StAwaitingCompletion}
        \<longrightarrow> complete_begin QueryId (h_queries s) = (Inr (Immediate (Inl (CompletionState (InvalidState from StRunning)))), h_queries s))"
proof -
  have "inner (h_queries s) QueryId \<noteq> Some Empty" using query_inv_table(1) [OF qreachable_inv [OF assms]] .
  then show ?thesis using assms(2)
    by (cases "inner (h_queries s) QueryId"; cases "the (inner (h_queries s) QueryId)"; cases "pq_query_id r")
      (auto simp: new_query_begin_def prepare_def receive_inputs_def query_status_def complete_begin_def lock_defs table_same)
qed

theorem requests_out_of_order_witness:
  "new_query_begin helper_ONE example_config (h_queries example_helper) = (Inr (Inl (NewState StateAlreadyRunning)), h_queries example_helper)
    \<and> complete_begin QueryId (h_queries example_helper)
        = (Inr (Immediate (Inl (CompletionState (InvalidState StPreparing StRunning)))), h_queries example_helper)"
  using requests_out_of_order [OF example_helper_reachable, of example_config example_request StPreparing]
  by (simp add: example_helper_def)

text \<open>C38: Setting up a query across the three helpers succeeds from empty tables, whichever helper coordinates: both followers accept
  the request of the coordinator, all three end up awaiting inputs with the configuration and one role assignment that gives
  the coordinator \<open>H1\<close>, its right neighbour \<open>H2\<close> and its left neighbour \<open>H3\<close>, and all three then accept their inputs and run.\<close>

theorem query_setup:
  assumes "identity \<in> {helper_ONE, helper_TWO, helper_THREE}" and "others identity = Inr (right_helper, left_helper)"
  shows "\<exists>req p0 roles running.
      new_query_begin identity c running_queries_default = (Inr (Inr req), p0)
    \<and> role_of roles identity = Inr H1 \<and> role_of roles right_helper = Inr H2 \<and> role_of roles left_helper = Inr H3
    \<and> new_query_finish req True p0 = (Inr (Inr req), running)
    \<and> prepare right_helper req running_queries_default = (Inr (Inr ()), running)
    \<and> prepare left_helper req running_queries_default = (Inr (Inr ()), running)
    \<and> inner running QueryId = Some (AwaitingInputs QueryId c roles)
    \<and> (\<exists>p. receive_inputs QueryId running = (Inr (Inr ()), p) \<and> inner p QueryId = Some (Running do_query))"
proof -
  let ?roles = "\<lparr>helper_roles = [identity, right_helper, left_helper]\<rparr>"
  let ?req = "\<lparr>pq_query_id = QueryId, pq_config = c, pq_roles = ?roles\<rparr>"
  let ?p0 = "\<lparr>inner = Map.empty(QueryId \<mapsto> Preparing c), poisoned = False\<rparr>"
  let ?running = "\<lparr>inner = Map.empty(QueryId \<mapsto> AwaitingInputs QueryId c ?roles), poisoned = False\<rparr>"
  have roles: "role_of ?roles identity = Inr H1" "role_of ?roles right_helper = Inr H2" "role_of ?roles left_helper = Inr H3"
    using assms by (auto simp: others_def helper_ONE_def helper_TWO_def helper_THREE_def role_of_def all_roles_def split: if_splits)
  have "new_query_begin identity c running_queries_default = (Inr (Inr ?req), ?p0)"
    using assms(2) by (simp add: new_query_begin_def lock_defs running_queries_default_def new_query_request_def role_assignment_try_from_def)
  moreover have "new_query_finish ?req True ?p0 = (Inr (Inr ?req), ?running)"
    by (simp add: new_query_finish_def lock_defs)
  moreover have "prepare h ?req running_queries_default = (Inr (Inr ()), ?running)" if "role_of ?roles h \<in> {Inr H2, Inr H3}" for h
    using that by (auto simp: prepare_def lock_defs running_queries_default_def)
  moreover have "\<exists>p. receive_inputs QueryId ?running = (Inr (Inr ()), p) \<and> inner p QueryId = Some (Running do_query)"
    by (simp add: receive_inputs_def locked_def gateway_config_from_def gateway_config_default_def gateway_config_new_def)
  ultimately show ?thesis using roles
    by (intro exI [of _ ?req] exI [of _ ?p0] exI [of _ ?roles] exI [of _ ?running]) simp
qed

theorem query_setup_witness:
  "\<exists>req p0. new_query_begin helper_TWO example_config running_queries_default = (Inr (Inr req), p0)"
  using query_setup [of helper_TWO helper_THREE helper_ONE example_config] by (auto simp: others_def helper_TWO_def)

text \<open>A result is handed over once. When the task of a running query has answered, \<open>complete\<close> returns the
  answer through its handle and forgets the query, and so it does after a status request has stored the answer; a
  task that ends without an answer makes the next status request panic, after which every request on the helper panics.\<close>

lemma query_result_once:
  assumes "\<not> poisoned p" and "inner p QueryId = Some (Running \<lparr>rq_result = answer\<rparr>)"
  shows "(case answer of
      Sent r \<Rightarrow>
        (\<exists>p1 p2. complete_begin QueryId p = (Inr (Handle \<lparr>rq_result = answer\<rparr>), p1)
          \<and> complete_poll QueryId \<lparr>rq_result = answer\<rparr> p1 = (Inr (Ready (execution_result r)), p2)
          \<and> complete_begin QueryId p2 = (Inr (Immediate (Inl (CompletionNoSuchQuery QueryId))), p2))
        \<and> (\<exists>p1 p2. query_status QueryId p = (Inr (Inr StCompleted), p1)
          \<and> complete_begin QueryId p1 = (Inr (Immediate (execution_result r)), p2)
          \<and> complete_begin QueryId p2 = (Inr (Immediate (Inl (CompletionNoSuchQuery QueryId))), p2))
    | NotSent \<Rightarrow> query_status QueryId p = (Inr (Inr StRunning), p)
    | Closed \<Rightarrow> \<exists>p1. query_status QueryId p = (Inl Panic, p1)
        \<and> new_query_begin identity c p1 = (Inl Panic, p1) \<and> receive_inputs QueryId p1 = (Inl Panic, p1)
        \<and> query_status QueryId p1 = (Inl Panic, p1) \<and> complete_begin QueryId p1 = (Inl Panic, p1))"
  using assms
  by (cases answer) (simp_all add: complete_begin_def complete_poll_def query_status_def new_query_begin_def receive_inputs_def lock_defs table_same)

end
