(* ===== verification/Spec2Isabelle.thy ===== *)
theory Spec2Isabelle
  imports Saturating_Sum Sort Record_Streams Query_Processor
begin

text \<open>
  A verification development of the helpers of the IPA prototype: three servers that compute on
  replicated secret shares of private events. File names below are relative to the crate, \<open>src/\<close>.

  \<^bold>\<open>The program.\<close> A report collector sends a query to a helper, which agrees with the other two on
  its configuration and on the role of each (\<open>query/\<close>). The helpers receive their shares of the inputs as
  byte streams (\<open>helpers/transport/stream/\<close>) and run the protocols of the query (\<open>protocol/\<close>), which compute
  on shares (\<open>secret_sharing/\<close>) of elements of prime fields and binary fields (\<open>ff/\<close>), draw correlated
  randomness (\<open>protocol/prss/\<close>) and exchange messages through channels (\<open>helpers/gateway/\<close>,
  \<open>helpers/buffers/\<close>). A protocol is written once and runs with semi-honest or with malicious shares, which
  carry a MAC that a validator checks before anything is revealed.

  \<^bold>\<open>Conventions.\<close> A generic function of the code takes the operations of its trait as a record
  (\<open>prime_field_ops\<close>, \<open>wire\<close>, \<open>protocols\<close>, \<open>to_triples\<close>, \<open>resharable\<close>), and what the trait promises is a
  locale, interpreted on the implementations of the code. A result is a value of \<open>'a res\<close>: \<open>Inr\<close>, or \<open>Inl\<close> with an
  error, where \<open>Panic\<close> stands for every assertion, debug assertions included, and every \<open>unwrap\<close> that fails. Machine
  integers are words where the code may wrap or truncate. A protocol is a function of what the three
  helpers hold, in which a helper receives what the code of its peer sends: the helpers run in lock
  step, and the scheduling of the records of a protocol is left out. The infrastructure, whose tasks share
  state, is split into its atomic actions, and all their interleavings are considered.

  \<^bold>\<open>Foundations.\<close>
  \<^item> \<open>Ipa_Prelude\<close>, \<open>Ipa_Errors\<close>: machine integers, byte order, lists; the error type of \<open>error.rs\<close>.
  \<^item> \<open>Prime_Field\<close> (\<open>ff/prime_field.rs\<close>): \<open>Fp31\<close> and \<open>Fp32BitPrime\<close>. The word operations never wrap and are
    residue arithmetic; conversions and serialisation are exact about what they accept.
  \<^item> \<open>Gf2_Polynomials\<close>, \<open>Galois_Field\<close>, \<open>Gf_Types\<close> (\<open>ff/galois_field.rs\<close>): the reduction loop ends
    and multiplication is that of polynomials modulo the field's polynomial; three of the polynomials are
    not irreducible and have explicit zero divisors.
  \<^item> \<open>Helpers\<close> (\<open>helpers/mod.rs\<close>, \<open>protocol/mod.rs\<close>): identities, roles, record numbers.
  \<^item> \<open>Secret_Sharing\<close>, \<open>Share_Wire\<close> (\<open>secret_sharing/\<close>): shares, their linear operations, and the
    wire format. Batches of shares are read back; malicious shares are where both fields have the same size.
  \<^item> \<open>Prss\<close> (\<open>protocol/step/\<close>, \<open>protocol/prss/\<close>): gates and pseudo-random secret sharing. Neighbours agree on every
    value, and no index is drawn twice.

  \<^bold>\<open>Protocols.\<close>
  \<^item> \<open>Basics\<close> (\<open>protocol/basics/\<close>): sparse multiplication, sums of products, reveal, reshare, for
    all randomness and every pattern of known zeros.
  \<^item> \<open>Malicious\<close> (\<open>protocol/basics/mul/malicious.rs\<close>, \<open>protocol/context/\<close>): the operations with MACs and the validator. A
    run of honest helpers validates; validation accepts exactly when the random combination of
    all MAC defects is zero.
  \<^item> \<open>Protocols\<close>: the locale \<open>mpc\<close>, the contract of \<open>BasicProtocols\<close>, interpreted on the semi-honest and on the
    malicious protocols. Everything below is proved once in it and stated for both.
  \<^item> \<open>Boolean_Circuits\<close>, \<open>Comparison\<close>, \<open>Saturating_Sum\<close> (\<open>protocol/boolean/\<close>, \<open>secret_sharing/decomposed.rs\<close>): circuits on
    shared bits compute the comparisons, sums and differences of the numbers they share.
  \<^item> \<open>Modulus_Conversion\<close>, \<open>Random_Bits\<close> (\<open>protocol/modulus_conversion/\<close>, \<open>protocol/boolean/\<close>): bits shared by exclusive or
    become bits shared in a prime field; random numbers below the prime.
  \<^item> \<open>Permutations\<close>, \<open>Shuffle\<close>, \<open>Bit_Permutation\<close>, \<open>Sort\<close> (\<open>protocol/basics/apply_permutation.rs\<close>, \<open>protocol/sort/\<close>): from the
    in-place permutation loops to the theorem that the sort stably sorts a shared vector by shared keys.

  \<^bold>\<open>Infrastructure.\<close>
  \<^item> \<open>Ordering_Sender\<close>, \<open>Unordered_Receiver\<close> (\<open>helpers/buffers/\<close>): the two ends of a channel as step relations over
    tasks, wakers and critical sections. Messages leave in the order of their indices, no wakeup is
    lost, no reachable state but a finished one is stuck.
  \<^item> \<open>Gateway\<close> (\<open>helpers/gateway/\<close>): the two ends together. Whatever the interleaving and however
    the transport cuts the bytes, the values received are the values sent, and everything sent arrives.
  \<^item> \<open>Record_Streams\<close> (\<open>helpers/transport/stream/input.rs\<close>): the parsers of input streams read back the records that were
    written, for every chunking.
  \<^item> \<open>Query_Config\<close>, \<open>Query_Requests\<close>, \<open>Query_Processor\<close> (\<open>helpers/transport/query/\<close>, \<open>query/\<close>): the table of queries under
    interleaved requests refines the life cycle of a query; requests out of order are refused without
    effect; set-up across three helpers succeeds.

  \<^bold>\<open>Loops and bounds.\<close> No definition has fuel. Loops that need not end are \<open>partial_function\<close>s or a
  \<open>while_option\<close>, with \<open>None\<close> for not ending, and their theorems state that they return: the permutation
  loops on every permutation, the reduction loop on every product, the fallback loop of \<open>Random_Bits\<close>
  as soon as one attempt draws a number below the prime. The other recursions are structural or have a
  termination proof.

  \<^bold>\<open>Parameters.\<close> The key exchange, HKDF and AES are the record \<open>crypto\<close>, of which only the agreement of
  both ends of an exchange is used. The generator behind \<open>SliceRandom::shuffle\<close> is any choice of a permutation. The
  network delivers the bytes of a stream in order, in chunks of its choosing.

  \<^bold>\<open>Not modelled.\<close>
  \<^item> \<open>protocol/attribution/\<close>, \<open>protocol/aggregation/\<close>, \<open>protocol/ipa/\<close> and \<open>query/runner/\<close>: the protocols over sorted records and their
    composition into a query, which use the protocols above; they are not yet covered.
  \<^item> \<open>protocol/ipa_prf/\<close>, \<open>ff/curve_points.rs\<close>, \<open>ff/ec_prime_field.rs\<close>: arithmetic of an elliptic-curve library.
  \<^item> \<open>protocol/dp/\<close>: distributions in floating point.
  \<^item> \<open>report.rs\<close>, \<open>hpke/\<close>: encryption by a library.
  \<^item> \<open>net/\<close>, the in-memory transport, \<open>cli/\<close>, \<open>config.rs\<close>, \<open>telemetry/\<close>, \<open>bin/\<close>: input and output.
  \<^item> \<open>seq_join.rs\<close>, \<open>chunkscan.rs\<close>, \<open>exact.rs\<close>, \<open>helpers/buffers/ordering_mpsc.rs\<close>: stream combinators that
    schedule the protocols, and a channel on a library's queue.
  \<^item> The \<open>ipa-macros\<close> crate and the compact gate it generates; test fixtures and benchmarks.

  The rounds of \<open>Sort\<close> use the values that the malicious protocols share; the MAC check that each round makes before
  it reveals is the subject of \<open>Malicious\<close> and is not threaded through them. Secrecy, that messages reveal nothing about the inputs, is not stated; nor is the probability with
  which validation misses a defect.
\<close>

end
